(* ===== verification/Redis_Prelude.thy ===== *)
theory Redis_Prelude
  imports Main "HOL-Library.AList" "HOL-Library.Word"
begin

text \<open>
  The part of the C++ language and of its standard library that the server uses, and the lemmas
  every component shares: byte strings and the CR LF delimiter, decimal printing
  (\<^verbatim>\<open>std::to_string\<close>, \<^verbatim>\<open>std::format\<close> with an integer argument), \<^verbatim>\<open>std::from_chars\<close>,
  \<^verbatim>\<open>std::stoull\<close>, \<^verbatim>\<open>std::stoll\<close>, the exceptions these raise, and
  \<^verbatim>\<open>std::unordered_map\<close> as an association list.

  A \<^verbatim>\<open>char\<close> is an 8-bit \<^typ>\<open>char\<close>, a \<^verbatim>\<open>std::string\<close> a list of them. A \<^verbatim>\<open>long long\<close> is an
  \<^typ>\<open>int\<close> whose range is checked wherever the code can leave it: signed overflow is undefined
  in C++ and is the outcome \<open>Signed_overflow\<close> here. An \<^verbatim>\<open>unsigned long long\<close> read from text is a
  \<^typ>\<open>64 word\<close>, so that the casts of the code are \<^const>\<open>sint\<close>.
\<close>

named_theorems umap_simps \<open>find, insert and erase on an unordered map\<close>
named_theorems num_simps \<open>printing and reading numbers\<close>

section \<open>Exceptions\<close>

text \<open>
  What can leave a function other than a value: the exceptions the standard library throws, and
  the two undefined behaviours the code can reach, signed overflow and reading the front of an
  empty vector. The string is what \<^verbatim>\<open>what()\<close> returns (libstdc++, the library of the CI build).
\<close>

datatype cpp_exn =
    Invalid_argument string
  | Out_of_range string
  | Length_error string
  | Signed_overflow
  | Front_of_empty

primrec exn_what :: "cpp_exn \<Rightarrow> string" where
  "exn_what (Invalid_argument w) = w"
| "exn_what (Out_of_range w) = w"
| "exn_what (Length_error w) = w"
| "exn_what Signed_overflow = []"
| "exn_what Front_of_empty = []"

text \<open>\<^verbatim>\<open>catch (const std::exception&)\<close> catches the library's exceptions, not undefined behaviour.\<close>

primrec is_std_exception :: "cpp_exn \<Rightarrow> bool" where
  "is_std_exception (Invalid_argument w) = True"
| "is_std_exception (Out_of_range w) = True"
| "is_std_exception (Length_error w) = True"
| "is_std_exception Signed_overflow = False"
| "is_std_exception Front_of_empty = False"

definition LLONG_MAX :: int where "LLONG_MAX = 2 ^ 63 - 1"
definition LLONG_MIN :: int where "LLONG_MIN = - (2 ^ 63)"
definition INT_MAX :: int where "INT_MAX = 2 ^ 31 - 1"
definition INT_MIN :: int where "INT_MIN = - (2 ^ 31)"

definition in_ll :: "int \<Rightarrow> bool" where
  "in_ll x \<longleftrightarrow> LLONG_MIN \<le> x \<and> x \<le> LLONG_MAX"

text \<open>The result of an arithmetic operation on \<^verbatim>\<open>long long\<close>.\<close>

definition ll_checked :: "int \<Rightarrow> cpp_exn + int" where
  "ll_checked x = (if in_ll x then Inr x else Inl Signed_overflow)"

lemmas ll_limits = LLONG_MAX_def LLONG_MIN_def INT_MAX_def INT_MIN_def in_ll_def

lemma ll_checked_Inr [simp]: "ll_checked x = Inr y \<longleftrightarrow> in_ll x \<and> y = x"
  by (auto simp: ll_checked_def)

section \<open>Bytes\<close>

abbreviation CR :: char where "CR \<equiv> CHR 0x0D"
abbreviation LF :: char where "LF \<equiv> CHR 0x0A"
abbreviation crlf :: string where "crlf \<equiv> [CR, LF]"

definition is_digit :: "char \<Rightarrow> bool" where
  "is_digit c \<longleftrightarrow> 48 \<le> (of_char c :: nat) \<and> (of_char c :: nat) \<le> 57"

definition digit_val :: "char \<Rightarrow> nat" where
  "digit_val c = of_char c - 48"

definition digit_char :: "nat \<Rightarrow> char" where
  "digit_char d = char_of (48 + d)"

text \<open>\<^verbatim>\<open>isspace\<close> in the C locale.\<close>

definition is_space :: "char \<Rightarrow> bool" where
  "is_space c \<longleftrightarrow> c \<in> {CHR '' '', CHR 0x09, CHR 0x0A, CHR 0x0B, CHR 0x0C, CHR 0x0D}"

section \<open>Printing and reading integers\<close>

fun nat_str :: "nat \<Rightarrow> string" where
  "nat_str n = (if n < 10 then [digit_char n] else nat_str (n div 10) @ [digit_char (n mod 10)])"

declare nat_str.simps [simp del]

definition int_str :: "int \<Rightarrow> string" where
  "int_str i = (if i < 0 then CHR ''-'' # nat_str (nat (- i)) else nat_str (nat i))"

definition digits_val :: "string \<Rightarrow> nat" where
  "digits_val = foldl (\<lambda>a c. 10 * a + digit_val c) 0"

text \<open>
  \<^verbatim>\<open>std::from_chars\<close>: the value and what is left of the input, or the error code. A signed
  target takes a leading minus sign, no target takes a plus sign or white space. An error leaves
  the target unchanged.
\<close>

datatype 'a from_chars_result =
    Num_ok 'a string
  | Num_invalid
  | Num_out_of_range

definition from_chars_signed :: "int \<Rightarrow> int \<Rightarrow> string \<Rightarrow> int from_chars_result" where
  "from_chars_signed lo hi s =
     (let neg = (case s of c # _ \<Rightarrow> c = CHR ''-'' | [] \<Rightarrow> False);
          t = (if neg then tl s else s);
          ds = takeWhile is_digit t;
          v = (if neg then - int (digits_val ds) else int (digits_val ds))
      in if ds = [] then Num_invalid
         else if lo \<le> v \<and> v \<le> hi then Num_ok v (dropWhile is_digit t)
         else Num_out_of_range)"

definition from_chars_int :: "string \<Rightarrow> int from_chars_result" where
  "from_chars_int = from_chars_signed INT_MIN INT_MAX"

definition from_chars_ll :: "string \<Rightarrow> int from_chars_result" where
  "from_chars_ll = from_chars_signed LLONG_MIN LLONG_MAX"

definition from_chars_size :: "string \<Rightarrow> nat from_chars_result" where
  "from_chars_size s =
     (let ds = takeWhile is_digit s
      in if ds = [] then Num_invalid
         else if digits_val ds < 2 ^ 64 then Num_ok (digits_val ds) (dropWhile is_digit s)
         else Num_out_of_range)"

text \<open>
  \<^verbatim>\<open>std::stoull\<close> and \<^verbatim>\<open>std::stoll\<close> (base 10): white space, an optional sign, digits, and
  anything after them. \<^verbatim>\<open>strtoull\<close> negates after a minus sign, modulo \<open>2 ^ 64\<close>.
\<close>

definition sto_parts :: "string \<Rightarrow> bool \<times> string" where
  "sto_parts s =
     (let t = dropWhile is_space s;
          neg = (case t of c # _ \<Rightarrow> c = CHR ''-'' | [] \<Rightarrow> False);
          sign = (case t of c # _ \<Rightarrow> c = CHR ''-'' \<or> c = CHR ''+'' | [] \<Rightarrow> False)
      in (neg, takeWhile is_digit (if sign then tl t else t)))"

definition stoull :: "string \<Rightarrow> cpp_exn + 64 word" where
  "stoull s =
     (case sto_parts s of (neg, ds) \<Rightarrow>
        if ds = [] then Inl (Invalid_argument ''stoull'')
        else if 2 ^ 64 \<le> digits_val ds then Inl (Out_of_range ''stoull'')
        else Inr (if neg then - of_nat (digits_val ds) else of_nat (digits_val ds)))"

definition stoll :: "string \<Rightarrow> cpp_exn + int" where
  "stoll s =
     (case sto_parts s of (neg, ds) \<Rightarrow>
        let v = (if neg then - int (digits_val ds) else int (digits_val ds))
        in if ds = [] then Inl (Invalid_argument ''stoll'')
           else if in_ll v then Inr v
           else Inl (Out_of_range ''stoll''))"

section \<open>Unordered maps\<close>

text \<open>
  \<^verbatim>\<open>std::unordered_map\<close> as an association list: \<open>um_find\<close> is \<^verbatim>\<open>find\<close>, \<open>um_put\<close> the
  assignment through \<^verbatim>\<open>operator[]\<close>, \<open>um_erase\<close> is \<^verbatim>\<open>erase\<close>. The order of the list is one of
  the orders an iteration may have; no property below depends on it.
\<close>

type_synonym ('k, 'v) umap = "('k \<times> 'v) list"

definition um_find :: "('k, 'v) umap \<Rightarrow> 'k \<Rightarrow> 'v option" where
  "um_find m k = map_of m k"

definition um_put :: "'k \<Rightarrow> 'v \<Rightarrow> ('k, 'v) umap \<Rightarrow> ('k, 'v) umap" where
  "um_put k v m = AList.update k v m"

definition um_erase :: "'k \<Rightarrow> ('k, 'v) umap \<Rightarrow> ('k, 'v) umap" where
  "um_erase k m = AList.delete k m"

text \<open>\<^verbatim>\<open>operator[]\<close> on a map of sequences: a missing key reads as the empty sequence.\<close>

definition um_list :: "('k, 'v list) umap \<Rightarrow> 'k \<Rightarrow> 'v list" where
  "um_list m k = (case um_find m k of Some xs \<Rightarrow> xs | None \<Rightarrow> [])"

definition um_ok :: "('k, 'v) umap \<Rightarrow> bool" where
  "um_ok m \<longleftrightarrow> distinct (map fst m)"

lemma um_find_empty [simp, umap_simps]: "um_find [] k = None"
  by (simp add: um_find_def)

lemma um_find_put [simp, umap_simps]:
  "um_find (um_put k v m) k' = (if k' = k then Some v else um_find m k')"
  by (simp add: um_find_def um_put_def update_conv')

lemma um_find_erase [simp, umap_simps]:
  "um_find (um_erase k m) k' = (if k' = k then None else um_find m k')"
  by (simp add: um_find_def um_erase_def delete_conv')

lemma um_put_put: "um_put k v (um_put k v' m) = um_put k v m"
  by (simp add: um_put_def)

lemma um_put_same: "um_find m k = Some v \<Longrightarrow> um_put k v m = m"
  by (induction m) (auto simp: um_find_def um_put_def split: if_splits)

lemma um_ok_empty [simp]: "um_ok []"
  by (simp add: um_ok_def)

lemma um_ok_put [simp]: "um_ok m \<Longrightarrow> um_ok (um_put k v m)"
  by (simp add: um_ok_def um_put_def distinct_update)

lemma um_ok_erase [simp]: "um_ok m \<Longrightarrow> um_ok (um_erase k m)"
  by (simp add: um_ok_def um_erase_def distinct_delete)

lemma um_in_set: "um_ok m \<Longrightarrow> x \<in> set m \<longleftrightarrow> um_find m (fst x) = Some (snd x)"
  by (cases x) (simp add: um_ok_def um_find_def)

lemma set_um_put: "um_ok m \<Longrightarrow> set (um_put k v m) = {x \<in> set m. fst x \<noteq> k} \<union> {(k, v)}"
  using um_ok_put [of m k v] by (auto simp: um_in_set split: if_splits)

lemma set_um_erase: "um_ok m \<Longrightarrow> set (um_erase k m) = {x \<in> set m. fst x \<noteq> k}"
  using um_ok_erase [of m k] by (auto simp: um_in_set split: if_splits)

text \<open>Sums over the values of a map.\<close>

lemma sum_um_put:
  "(\<Sum>(k, v)\<leftarrow>um_put k v m. f v) + (case um_find m k of Some v0 \<Rightarrow> f v0 | None \<Rightarrow> (0::nat)) =
     f v + (\<Sum>(k, v)\<leftarrow>m. f v)"
  by (induction m) (auto simp: um_put_def um_find_def)

lemma sum_um_erase: "(\<Sum>(k, v)\<leftarrow>um_erase k m. f v) \<le> ((\<Sum>(k, v)\<leftarrow>m. f v) :: nat)"
  by (induction m) (auto simp: um_erase_def)

lemma sum_um_erase_found:
  "um_find m k = Some v0 \<Longrightarrow> (\<Sum>(k, v)\<leftarrow>um_erase k m. f v) + f v0 \<le> ((\<Sum>(k, v)\<leftarrow>m. f v) :: nat)"
  using sum_um_erase [where f = f]
  by (induction m) (auto simp: um_erase_def um_find_def add_le_mono split: if_splits)

lemma um_list_empty [simp]: "um_list [] k = []"
  by (simp add: um_list_def)

lemma um_list_put [simp]: "um_list (um_put k v m) k' = (if k' = k then v else um_list m k')"
  by (simp add: um_list_def)

lemma um_list_erase [simp]: "um_list (um_erase k m) k' = (if k' = k then [] else um_list m k')"
  by (simp add: um_list_def)

section \<open>Lemmas on numbers\<close>

lemma digit_char_eval [num_simps]:
  "digit_char 0 = CHR ''0''" "digit_char (Suc 0) = CHR ''1''" "digit_char 1 = CHR ''1''"
  "digit_char (Suc (Suc 0)) = CHR ''2''" "digit_char 2 = CHR ''2''" "digit_char 3 = CHR ''3''" "digit_char 4 = CHR ''4''"
  "digit_char 5 = CHR ''5''" "digit_char 6 = CHR ''6''" "digit_char 7 = CHR ''7''"
  "digit_char 8 = CHR ''8''" "digit_char 9 = CHR ''9''"
  by code_simp+

lemma of_char_digit_char: "d < 10 \<Longrightarrow> (of_char (digit_char d) :: nat) = 48 + d"
  by (simp add: digit_char_def)

lemma is_digit_digit_char [simp]: "d < 10 \<Longrightarrow> is_digit (digit_char d)"
  by (simp add: is_digit_def of_char_digit_char)

lemma digit_val_digit_char [simp]: "d < 10 \<Longrightarrow> digit_val (digit_char d) = d"
  by (simp add: digit_val_def of_char_digit_char)

lemma not_digit [simp]:
  "\<not> is_digit CR" "\<not> is_digit LF" "\<not> is_digit (CHR ''-'')" "\<not> is_digit (CHR ''+'')" "\<not> is_digit (CHR '' '')"
  by (simp_all add: is_digit_def)

lemma digit_not_space: "is_digit c \<Longrightarrow> \<not> is_space c"
  by (auto simp: is_digit_def is_space_def)

lemma digit_neq: "is_digit c \<Longrightarrow> c \<noteq> CR \<and> c \<noteq> LF \<and> c \<noteq> CHR ''-'' \<and> c \<noteq> CHR ''+'' \<and> c \<noteq> CHR '' ''"
  by (auto simp: is_digit_def)

lemma digits_val_Nil [simp]: "digits_val [] = 0"
  by (simp add: digits_val_def)

lemma digits_val_snoc [simp]: "digits_val (xs @ [c]) = 10 * digits_val xs + digit_val c"
  by (simp add: digits_val_def)

lemma nat_str_not_Nil [simp]: "nat_str n \<noteq> []"
  by (subst nat_str.simps) simp

lemma nat_str_digits: "c \<in> set (nat_str n) \<Longrightarrow> is_digit c"
proof (induction n rule: nat_str.induct)
  case (1 n)
  then show ?case
    by (cases "n < 10") (auto simp: nat_str.simps [of n])
qed

lemma digits_val_nat_str [simp]: "digits_val (nat_str n) = n"
proof (induction n rule: nat_str.induct)
  case (1 n)
  show ?case
  proof (cases "n < 10")
    case True
    then show ?thesis
      using digits_val_snoc [of "[]" "digit_char n"] by (simp add: nat_str.simps [of n])
  next
    case False
    with 1 show ?thesis by (simp add: nat_str.simps [of n])
  qed
qed

lemma nat_str_Cons: obtains c cs where "nat_str n = c # cs" "is_digit c"
  using nat_str_not_Nil [of n] nat_str_digits [of _ n] by (cases "nat_str n") auto

text \<open>Where a number ends: at the end of the text, or before a byte that is no digit.\<close>

definition num_end :: "string \<Rightarrow> bool" where
  "num_end r \<longleftrightarrow> (case r of [] \<Rightarrow> True | c # _ \<Rightarrow> \<not> is_digit c)"

lemma num_end_simps [simp]: "num_end []" "num_end (c # r) \<longleftrightarrow> \<not> is_digit c"
  by (simp_all add: num_end_def)

lemma takeWhile_nat_str [simp]:
  "num_end r \<Longrightarrow> takeWhile is_digit (nat_str n @ r) = nat_str n"
  by (cases r) (auto simp: takeWhile_append nat_str_digits)

lemma dropWhile_nat_str [simp]: "num_end r \<Longrightarrow> dropWhile is_digit (nat_str n @ r) = r"
  by (cases r) (auto simp: dropWhile_append nat_str_digits)

lemma from_chars_signed_int_str:
  assumes "lo \<le> v" "v \<le> hi" "num_end r"
  shows "from_chars_signed lo hi (int_str v @ r) = Num_ok v r"
proof (cases "v < 0")
  case True
  with assms show ?thesis by (simp add: from_chars_signed_def int_str_def Let_def)
next
  case False
  obtain c cs where c: "nat_str (nat v) = c # cs" "is_digit c" by (rule nat_str_Cons)
  then have "(case nat_str (nat v) @ r of c # _ \<Rightarrow> c = CHR ''-'' | [] \<Rightarrow> False) = False"
    using digit_neq [OF c(2)] by simp
  with False assms show ?thesis
    by (simp add: from_chars_signed_def int_str_def Let_def)
qed

lemma int_str_nonneg: "int_str (int n) = nat_str n"
  by (simp add: int_str_def)

lemma from_chars_int_nat_str [num_simps]:
  "n < 2 ^ 31 \<Longrightarrow> num_end r \<Longrightarrow> from_chars_int (nat_str n @ r) = Num_ok (int n) r"
  using from_chars_signed_int_str [of INT_MIN "int n" INT_MAX r]
  by (simp add: from_chars_int_def int_str_nonneg ll_limits)

lemma from_chars_ll_int_str [num_simps]:
  "in_ll v \<Longrightarrow> num_end r \<Longrightarrow> from_chars_ll (int_str v @ r) = Num_ok v r"
  using from_chars_signed_int_str [of LLONG_MIN v LLONG_MAX r]
  by (simp add: from_chars_ll_def in_ll_def)

lemma from_chars_size_nat_str [num_simps]:
  "n < 2 ^ 64 \<Longrightarrow> num_end r \<Longrightarrow> from_chars_size (nat_str n @ r) = Num_ok n r"
  by (simp add: from_chars_size_def Let_def)

lemma sto_parts_nat_str [num_simps]:
  assumes "num_end r"
  shows "sto_parts (nat_str n @ r) = (False, nat_str n)"
proof -
  obtain c cs where c: "nat_str n = c # cs" "is_digit c" by (rule nat_str_Cons)
  then have "dropWhile is_space (nat_str n @ r) = nat_str n @ r"
    using digit_not_space by simp
  with c digit_neq [OF c(2)] assms takeWhile_nat_str [of r n] show ?thesis
    by (simp add: sto_parts_def Let_def)
qed

lemma sto_parts_neg_nat_str [num_simps]:
  "num_end r \<Longrightarrow> sto_parts (CHR ''-'' # nat_str n @ r) = (True, nat_str n)"
  by (simp add: sto_parts_def is_space_def)

lemma stoull_nat_str [num_simps]:
  "n < 2 ^ 64 \<Longrightarrow> num_end r \<Longrightarrow> stoull (nat_str n @ r) = Inr (of_nat n)"
  by (simp add: stoull_def sto_parts_nat_str)

lemma sto_parts_Nil [num_simps]: "sto_parts [] = (False, [])"
  by (simp add: sto_parts_def)

lemma stoull_Nil [num_simps]: "stoull [] = Inl (Invalid_argument ''stoull'')"
  by (simp add: stoull_def sto_parts_Nil)

text \<open>A signed number printed, read back as unsigned and cast to signed again is itself.\<close>

lemma sint_of_int_id: "in_ll v \<Longrightarrow> sint (of_int v :: 64 word) = v"
  by (simp add: ll_limits int_word_sint)

lemma stoull_int_str [num_simps]:
  assumes "in_ll v" "num_end r"
  shows "stoull (int_str v @ r) = Inr (of_int v)"
proof (cases "v < 0")
  case True
  then obtain n where n: "v = - int n" "0 < n" by (metis neg_int_cases)
  with assms True show ?thesis
    by (simp add: int_str_def stoull_def sto_parts_neg_nat_str ll_limits)
next
  case False
  then obtain n where "v = int n" by (metis nonneg_int_cases not_less)
  with assms show ?thesis
    by (simp add: int_str_nonneg stoull_nat_str ll_limits)
qed

end
