(* ===== verification/Store_Value.thy ===== *)
theory Store_Value
  imports Redis_Prelude
begin

text \<open>
  Stored values (\<^verbatim>\<open>src/src/store/core\<close>, \<^verbatim>\<open>src/src/store/types/Stream.hpp\<close>) and the estimate of
  their size (\<^verbatim>\<open>src/src/util/MemoryEstimator.hpp\<close>). A time point of the steady clock is its number
  of nanoseconds.
\<close>

section \<open>Definitions\<close>

record stream_entry =
  entry_id :: string
  entry_fields :: "(string \<times> string) list"

datatype value_variant =
    VString string
  | VList "string list"
  | VStream "stream_entry list"

record store_value =
  sval :: value_variant
  expires_at :: "int option"

type_synonym data = "(string, store_value) umap"

datatype store_type = TString | TList | TSet | TZSet | THash | TStream | TVectorSet | TNone

primrec store_type_str :: "store_type \<Rightarrow> string" where
  "store_type_str TString = ''string''"
| "store_type_str TList = ''list''"
| "store_type_str TSet = ''set''"
| "store_type_str TZSet = ''zset''"
| "store_type_str THash = ''hash''"
| "store_type_str TStream = ''stream''"
| "store_type_str TVectorSet = ''vectorset''"
| "store_type_str TNone = ''none''"

definition value_type :: "store_value \<Rightarrow> store_type" where
  "value_type v = (case sval v of VString _ \<Rightarrow> TString | VList _ \<Rightarrow> TList | VStream _ \<Rightarrow> TStream)"

text \<open>\<^verbatim>\<open>StoreValue()\<close>: the variant's first alternative, no expiry.\<close>

definition default_value :: store_value where
  "default_value = \<lparr>sval = VString [], expires_at = None\<rparr>"

text \<open>The test \<^verbatim>\<open>get_expires_at() && Clock::now() > *get_expires_at()\<close>.\<close>

definition expired :: "int \<Rightarrow> store_value \<Rightarrow> bool" where
  "expired now v = (case expires_at v of None \<Rightarrow> False | Some t \<Rightarrow> t < now)"

section \<open>Memory estimate\<close>

definition fields_size :: "(string \<times> string) list \<Rightarrow> nat" where
  "fields_size fs = foldl (\<lambda>total (f, v). total + (length f + length v)) 0 fs"

definition estimate_value_size :: "store_value \<Rightarrow> nat" where
  "estimate_value_size v =
     (case sval v of
        VString s \<Rightarrow> length s
      | VList items \<Rightarrow> foldl (\<lambda>total item. total + length item) 0 items
      | VStream es \<Rightarrow>
          foldl (\<lambda>total e. total + length (entry_id e) + fields_size (entry_fields e)) 0 es)"

definition estimate_dataset_size :: "data \<Rightarrow> nat" where
  "estimate_dataset_size d = foldl (\<lambda>total (k, v). total + length k + estimate_value_size v) 0 d"

lemma estimate_dataset_size_sum:
  "estimate_dataset_size d = (\<Sum>(k, v)\<leftarrow>d. length k + estimate_value_size v)"
proof -
  have "foldl (\<lambda>total (k, v). total + length k + estimate_value_size v) n d =
      n + (\<Sum>(k, v)\<leftarrow>d. length k + estimate_value_size v)" for n
    by (induction d arbitrary: n) auto
  then show ?thesis by (simp add: estimate_dataset_size_def)
qed

text \<open>
  The estimate depends on the contents of the map only, not on the order in which it is
  iterated.
\<close>

theorem estimate_order_independent:
  assumes "um_ok d" "um_ok d'" "\<And>k. um_find d k = um_find d' k"
  shows "estimate_dataset_size d = estimate_dataset_size d'"
proof -
  have "set d = set d'"
    using assms by (metis um_ok_def um_find_def map_of_inject_set ext)
  moreover have "distinct d" "distinct d'"
    using assms by (auto simp: um_ok_def distinct_map)
  ultimately show ?thesis
    by (simp add: estimate_dataset_size_sum sum_list_distinct_conv_sum_set)
qed

theorem estimate_order_independent_witness:
  "estimate_dataset_size [(''a'', default_value), (''bc'', default_value)] =
   estimate_dataset_size [(''bc'', default_value), (''a'', default_value)]"
  by (rule estimate_order_independent) (simp_all add: um_ok_def um_find_def)

end
