(* ===== verification/String_Store.thy ===== *)
theory String_Store
  imports Store_Value
begin

text \<open>
  String values (\<^verbatim>\<open>src/src/store/impl/StringStore.cpp\<close>): set with and without a time to live, get
  with lazy deletion, increment. \<open>now\<close> is the reading of the steady clock; a function that may
  erase an expired entry returns the new data beside its result. The error of a
  \<^verbatim>\<open>std::expected<T, std::string>\<close> is the left of a sum.
\<close>

section \<open>Definitions\<close>

definition wrong_type_error :: string where
  "wrong_type_error = ''-WRONGTYPE Operation against a key holding the wrong kind of value''"

definition not_integer_error :: string where
  "not_integer_error = ''-ERR value is not an integer or out of range'' @ crlf"

definition string_set :: "data \<Rightarrow> string \<Rightarrow> string \<Rightarrow> data" where
  "string_set d key v = um_put key \<lparr>sval = VString v, expires_at = None\<rparr> d"

text \<open>
  \<^verbatim>\<open>Clock::now() + ttl\<close>: the milliseconds are converted to nanoseconds and added, both in a 64-bit
  signed representation.
\<close>

definition expiry_time :: "int \<Rightarrow> int \<Rightarrow> cpp_exn + int" where
  "expiry_time now ttl =
     (case ll_checked (ttl * 1000000) of
        Inl e \<Rightarrow> Inl e
      | Inr ns \<Rightarrow> ll_checked (now + ns))"

definition string_set_ttl :: "int \<Rightarrow> data \<Rightarrow> string \<Rightarrow> string \<Rightarrow> int \<Rightarrow> cpp_exn + data" where
  "string_set_ttl now d key v ttl =
     (case expiry_time now ttl of
        Inl e \<Rightarrow> Inl e
      | Inr t \<Rightarrow> Inr (um_put key \<lparr>sval = VString v, expires_at = Some t\<rparr> d))"

definition string_get :: "int \<Rightarrow> data \<Rightarrow> string \<Rightarrow> (string + string) \<times> data" where
  "string_get now d key =
     (case um_find d key of
        None \<Rightarrow> (Inl ''Key not found'', d)
      | Some v \<Rightarrow>
          if expired now v then (Inl ''Key not found'', um_erase key d)
          else
            (case sval v of
               VString s \<Rightarrow> (Inr s, d)
             | _ \<Rightarrow> (Inl wrong_type_error, d)))"

definition string_incr :: "int \<Rightarrow> data \<Rightarrow> string \<Rightarrow> (string + int) \<times> data" where
  "string_incr now d key =
     (let d1 = (case um_find d key of Some v \<Rightarrow> if expired now v then um_erase key d else d | None \<Rightarrow> d)
      in case um_find d1 key of
           None \<Rightarrow> (Inr 1, um_put key \<lparr>sval = VString (int_str 1), expires_at = None\<rparr> d1)
         | Some v \<Rightarrow>
            (case sval v of
               VString s \<Rightarrow>
                (case from_chars_ll s of
                   Num_ok n rest \<Rightarrow>
                     if rest \<noteq> [] then (Inl not_integer_error, d1)
                     else if n = LLONG_MAX then (Inl not_integer_error, d1)
                     else (Inr (n + 1), um_put key (v\<lparr>sval := VString (int_str (n + 1))\<rparr>) d1)
                 | _ \<Rightarrow> (Inl not_integer_error, d1))
             | _ \<Rightarrow> (Inl not_integer_error, d1)))"

section \<open>The live view of a key\<close>

text \<open>What a client can see under a key: nothing once the entry has expired.\<close>

definition live :: "int \<Rightarrow> data \<Rightarrow> string \<Rightarrow> store_value option" where
  "live now d key =
     (case um_find d key of Some v \<Rightarrow> if expired now v then None else Some v | None \<Rightarrow> None)"

lemma live_put [simp]:
  "live now (um_put k v d) k' = (if k' = k then (if expired now v then None else Some v) else live now d k')"
  by (simp add: live_def)

lemma live_erase [simp]: "live now (um_erase k d) k' = (if k' = k then None else live now d k')"
  by (simp add: live_def)

lemma string_get_live:
  "fst (string_get now d key) =
     (case live now d key of
        None \<Rightarrow> Inl ''Key not found''
      | Some v \<Rightarrow> (case sval v of VString s \<Rightarrow> Inr s | _ \<Rightarrow> Inl wrong_type_error))"
  by (auto simp: string_get_def live_def split: option.split value_variant.split)

lemma string_get_keeps_live: "live now (snd (string_get now d key)) k = live now d k"
  by (auto simp: string_get_def live_def split: option.split value_variant.split)

lemma incr_numeric_aux:
  assumes "live now d key = Some v" "sval v = VString (int_str n)" "in_ll n"
  shows "string_incr now d key =
    (if n = LLONG_MAX then (Inl not_integer_error, d)
     else (Inr (n + 1), um_put key (v\<lparr>sval := VString (int_str (n + 1))\<rparr>) d))"
proof -
  have "um_find d key = Some v" "\<not> expired now v"
    using assms(1) by (auto simp: live_def split: option.splits if_splits)
  with assms from_chars_ll_int_str [OF assms(3), of "[]"] show ?thesis
    by (simp add: string_incr_def)
qed

section \<open>Properties\<close>

text \<open>
  C25. A value stored with a time to live of \<open>ttl\<close> milliseconds is what GET returns at every later
  reading of the clock up to and including the moment of expiry, and after it GET reports that the
  key does not exist and removes the entry; the other keys are untouched by both operations.
\<close>

theorem set_ttl_get:
  assumes "string_set_ttl t0 d key v ttl = Inr d'"
  shows "string_get now d' key =
      (if now \<le> t0 + ttl * 1000000 then (Inr v, d') else (Inl ''Key not found'', um_erase key d')) \<and>
    (\<forall>k. k \<noteq> key \<longrightarrow> um_find d' k = um_find d k)"
  using assms
  by (auto simp: string_set_ttl_def expiry_time_def string_get_def expired_def split: sum.splits)

theorem set_ttl_get_witness:
  "string_set_ttl 10 [] ''k'' ''v'' 5 = Inr [(''k'', \<lparr>sval = VString ''v'', expires_at = Some 5000010\<rparr>)] \<and>
   string_get 5000011 [(''k'', \<lparr>sval = VString ''v'', expires_at = Some 5000010\<rparr>)] ''k'' =
     (Inl ''Key not found'', um_erase ''k'' [(''k'', \<lparr>sval = VString ''v'', expires_at = Some 5000010\<rparr>)])"
proof -
  have s: "string_set_ttl 10 [] ''k'' ''v'' 5 = Inr [(''k'', \<lparr>sval = VString ''v'', expires_at = Some 5000010\<rparr>)]"
    by (simp add: string_set_ttl_def expiry_time_def ll_checked_def ll_limits um_put_def)
  show ?thesis using s set_ttl_get [OF s, of 5000011] by simp
qed



text \<open>
  INCR on a key that holds the decimal form of a 64-bit number stores and returns the next
  number and keeps the expiry; on the largest number it returns an error and changes nothing.
\<close>

theorem incr_numeric:
  assumes "live now d key = Some v" "sval v = VString (int_str n)" "in_ll n"
  shows "string_incr now d key =
    (if n = LLONG_MAX then (Inl not_integer_error, d)
     else (Inr (n + 1), um_put key (v\<lparr>sval := VString (int_str (n + 1))\<rparr>) d))"
  using assms by (rule incr_numeric_aux)

theorem incr_numeric_witness:
  "live 0 [(''k'', \<lparr>sval = VString (int_str 41), expires_at = None\<rparr>)] ''k'' =
     Some \<lparr>sval = VString (int_str 41), expires_at = None\<rparr> \<and>
   string_incr 0 [(''k'', \<lparr>sval = VString (int_str 41), expires_at = None\<rparr>)] ''k'' =
     (Inr 42, um_put ''k'' \<lparr>sval = VString (int_str 42), expires_at = None\<rparr>
        [(''k'', \<lparr>sval = VString (int_str 41), expires_at = None\<rparr>)])"
proof -
  have l: "live 0 [(''k'', \<lparr>sval = VString (int_str 41), expires_at = None\<rparr>)] ''k'' =
     Some \<lparr>sval = VString (int_str 41), expires_at = None\<rparr>"
    by (simp add: live_def um_find_def expired_def)
  show ?thesis using l incr_numeric [OF l, of 41] by (simp add: ll_limits)
qed

text \<open>
  Counting with INCR: on a key that is absent or expired, \<open>n\<close> successive calls return
  \<open>1, 2, \<dots>, n\<close>.
\<close>

fun incr_times :: "int \<Rightarrow> nat \<Rightarrow> data \<Rightarrow> string \<Rightarrow> (string + int) list \<times> data" where
  "incr_times now 0 d key = ([], d)"
| "incr_times now (Suc n) d key =
     (case string_incr now d key of (r, d') \<Rightarrow>
       (case incr_times now n d' key of (rs, d'') \<Rightarrow> (r # rs, d'')))"

lemma incr_times_Suc:
  assumes "string_incr now d key = (r, d')"
    and "fst (incr_times now n d' key) = map (\<lambda>i. f (Suc i)) [0..<n]" "r = f 0"
  shows "fst (incr_times now (Suc n) d key) = map f [0..<Suc n]"
proof -
  have "[0..<Suc n] = 0 # map Suc [0..<n]" by (simp add: upt_conv_Cons map_Suc_upt)
  with assms show ?thesis by (simp del: upt_Suc add: split_beta comp_def)
qed

lemma incr_times_from:
  assumes "um_find d key = Some \<lparr>sval = VString (int_str m), expires_at = None\<rparr>"
    and "0 \<le> m" "m + int n \<le> LLONG_MAX"
  shows "fst (incr_times now n d key) = map (\<lambda>i. Inr (m + int i + 1)) [0..<n]"
  using assms
proof (induction n arbitrary: d m)
  case 0
  then show ?case by simp
next
  case (Suc n)
  let ?v = "\<lparr>sval = VString (int_str m), expires_at = None\<rparr>"
  let ?d = "um_put key \<lparr>sval = VString (int_str (m + 1)), expires_at = None\<rparr> d"
  have i: "string_incr now d key = (Inr (m + 1), ?d)"
    using incr_numeric_aux [of now d key ?v m] Suc.prems
    by (simp add: live_def expired_def ll_limits)
  have "fst (incr_times now n ?d key) = map (\<lambda>i. Inr ((m + 1) + int i + 1)) [0..<n]"
    using Suc.prems by (intro Suc.IH) auto
  with i show ?case by (intro incr_times_Suc [OF i]) (simp_all add: algebra_simps)
qed

theorem incr_counts:
  assumes "live now d key = None" "int n \<le> LLONG_MAX"
  shows "fst (incr_times now n d key) = map (\<lambda>i. Inr (int i + 1)) [0..<n]"
proof (cases n)
  case 0
  then show ?thesis by simp
next
  case (Suc k)
  obtain d1 where d1: "string_incr now d key = (Inr 1, um_put key \<lparr>sval = VString (int_str 1), expires_at = None\<rparr> d1)"
    using assms(1) by (auto simp: string_incr_def live_def split: option.splits if_splits)
  have "fst (incr_times now k (snd (string_incr now d key)) key) = map (\<lambda>i. Inr (1 + int i + 1)) [0..<k]"
    using Suc assms(2) d1 by (intro incr_times_from) auto
  with d1 Suc show ?thesis by (simp only: Suc, intro incr_times_Suc [OF d1]) (simp_all add: algebra_simps)
qed

theorem incr_counts_witness:
  "live 0 [] ''k'' = None \<and> int 2 \<le> LLONG_MAX \<and> fst (incr_times 0 2 [] ''k'') = [Inr 1, Inr 2]"
  using incr_counts [of 0 "[]" "''k''" 2] by (simp add: live_def ll_limits upt_rec)

end
