(* ===== verification/List_Store.thy ===== *)
theory List_Store
  imports String_Store
begin

text \<open>
  List values (\<^verbatim>\<open>src/src/store/impl/ListStore.cpp\<close>). A \<^verbatim>\<open>std::deque\<close> is a list, its front first. The list
  operations never look at the expiry of an entry.
\<close>

section \<open>Definitions\<close>

record list_range =
  r_start :: int
  r_stop :: int
  r_valid :: bool

definition resolve_list_indices :: "int \<Rightarrow> int \<Rightarrow> int \<Rightarrow> list_range" where
  "resolve_list_indices start stop sz =
     (let start = (if start < 0 then max 0 (start + sz) else start);
          stop = (if stop < 0 then stop + sz else stop)
      in if start \<ge> sz \<or> start > stop then \<lparr>r_start = 0, r_stop = 0, r_valid = False\<rparr>
         else \<lparr>r_start = start, r_stop = min stop (sz - 1), r_valid = True\<rparr>)"

text \<open>
  \<^verbatim>\<open>data_[storeKey]\<close> creates a default entry when there is none; a value of another type is replaced by
  an empty list, in place, so that the entry's expiry stays.
\<close>

definition list_slot :: "data \<Rightarrow> string \<Rightarrow> store_value \<times> string list" where
  "list_slot d key =
     (let v = (case um_find d key of Some v \<Rightarrow> v | None \<Rightarrow> default_value)
      in case sval v of VList xs \<Rightarrow> (v, xs) | _ \<Rightarrow> (v\<lparr>sval := VList []\<rparr>, []))"

definition rpush :: "data \<Rightarrow> string \<Rightarrow> string list \<Rightarrow> nat \<times> data" where
  "rpush d key values =
     (case list_slot d key of (v, xs) \<Rightarrow>
        let ys = foldl (\<lambda>l x. l @ [x]) xs values
        in (length ys, um_put key (v\<lparr>sval := VList ys\<rparr>) d))"

definition lpush :: "data \<Rightarrow> string \<Rightarrow> string list \<Rightarrow> nat \<times> data" where
  "lpush d key values =
     (case list_slot d key of (v, xs) \<Rightarrow>
        let ys = foldl (\<lambda>l x. x # l) xs values
        in (length ys, um_put key (v\<lparr>sval := VList ys\<rparr>) d))"

definition lrange :: "data \<Rightarrow> string \<Rightarrow> int \<Rightarrow> int \<Rightarrow> string list" where
  "lrange d key start stop =
     (case um_find d key of
        None \<Rightarrow> []
      | Some v \<Rightarrow>
         (case sval v of
            VList xs \<Rightarrow>
              (let r = resolve_list_indices start stop (int (length xs))
               in if \<not> r_valid r then []
                  else take (nat (r_stop r + 1 - r_start r)) (drop (nat (r_start r)) xs))
          | _ \<Rightarrow> []))"

definition llen :: "data \<Rightarrow> string \<Rightarrow> nat" where
  "llen d key =
     (case um_find d key of
        None \<Rightarrow> 0
      | Some v \<Rightarrow> (case sval v of VList xs \<Rightarrow> length xs | _ \<Rightarrow> 0))"

definition lpop :: "data \<Rightarrow> string \<Rightarrow> nat \<Rightarrow> (string + string list) \<times> data" where
  "lpop d key count =
     (case um_find d key of
        None \<Rightarrow> (Inl ''Key not found'', d)
      | Some v \<Rightarrow>
         (case sval v of
            VList xs \<Rightarrow>
              (let popCount = min count (length xs); ys = drop popCount xs
               in (Inr (take popCount xs),
                   if ys = [] then um_erase key d else um_put key (v\<lparr>sval := VList ys\<rparr>) d))
          | _ \<Rightarrow> (Inl wrong_type_error, d)))"

section \<open>The list under a key\<close>

text \<open>The abstract view: a key holds a list, the empty one when it is absent or of another type.\<close>

definition list_at :: "data \<Rightarrow> string \<Rightarrow> string list" where
  "list_at d key =
     (case um_find d key of
        Some v \<Rightarrow> (case sval v of VList xs \<Rightarrow> xs | _ \<Rightarrow> [])
      | None \<Rightarrow> [])"

lemma list_slot_list_at: "snd (list_slot d key) = list_at d key"
  by (simp add: list_slot_def list_at_def default_value_def Let_def split: option.split value_variant.split)

lemma list_at_put_other [simp]: "k \<noteq> key \<Longrightarrow> list_at (um_put key v d) k = list_at d k"
  by (simp add: list_at_def)

lemma list_at_put_list [simp]: "list_at (um_put key (v\<lparr>sval := VList xs\<rparr>) d) key = xs"
  by (simp add: list_at_def)

lemma list_at_erase [simp]: "list_at (um_erase key d) k = (if k = key then [] else list_at d k)"
  by (simp add: list_at_def)

lemma list_at_upd:
  "list_at (um_put key (v\<lparr>sval := VList xs\<rparr>) d) = (list_at d)(key := xs)"
  "list_at (um_erase key d) = (list_at d)(key := [])"
  by (auto simp: fun_eq_iff)

lemma push_back_all: "foldl (\<lambda>l x. l @ [x]) xs values = xs @ values"
  by (induction "values" arbitrary: xs) auto

lemma push_front_all: "foldl (\<lambda>l x. x # l) xs values = rev values @ xs"
  by (induction "values" arbitrary: xs) auto

lemma rpush_eq:
  "rpush d key vs = (length (list_at d key) + length vs,
     um_put key ((fst (list_slot d key))\<lparr>sval := VList (list_at d key @ vs)\<rparr>) d)"
  by (simp add: rpush_def split_beta push_back_all list_slot_list_at)

lemma lpush_eq:
  "lpush d key vs = (length vs + length (list_at d key),
     um_put key ((fst (list_slot d key))\<lparr>sval := VList (rev vs @ list_at d key)\<rparr>) d)"
  by (simp add: lpush_def split_beta push_front_all list_slot_list_at)

lemma llen_list_at: "llen d key = length (list_at d key)"
  by (simp add: llen_def list_at_def split: option.split value_variant.split)

lemma lpop_other: "k \<noteq> key \<Longrightarrow> um_find (snd (lpop d key n)) k = um_find d k"
  by (simp add: lpop_def Let_def split: option.split value_variant.split)

lemma filter_upt_interval: "filter (\<lambda>i. a \<le> int i \<and> int i \<le> b) [0..<n] = [nat a..<min (nat (b + 1)) n]"
proof (induction n)
  case (Suc n)
  have "[nat a..<min (nat (b + 1)) (Suc n)] =
      (if a \<le> int n \<and> int n \<le> b then [nat a..<min (nat (b + 1)) n] @ [n] else [nat a..<min (nat (b + 1)) n])"
  proof (cases "int n \<le> b")
    case True
    then have "min (nat (b + 1)) (Suc n) = Suc n" "min (nat (b + 1)) n = n" by auto
    with True show ?thesis by auto
  next
    case False
    then have "min (nat (b + 1)) (Suc n) = min (nat (b + 1)) n" by auto
    with False show ?thesis by simp
  qed
  with Suc show ?case by simp
qed simp

section \<open>An abstract specification: a map from keys to queues\<close>

datatype list_call =
    Call_rpush string "string list"
  | Call_lpush string "string list"
  | Call_lrange string int int
  | Call_llen string
  | Call_lpop string nat

datatype list_result = Res_len nat | Res_items "string list" | Res_pop "string + string list"

primrec exec_list :: "list_call \<Rightarrow> data \<Rightarrow> list_result \<times> data" where
  "exec_list (Call_rpush k vs) d = (case rpush d k vs of (n, d') \<Rightarrow> (Res_len n, d'))"
| "exec_list (Call_lpush k vs) d = (case lpush d k vs of (n, d') \<Rightarrow> (Res_len n, d'))"
| "exec_list (Call_lrange k i j) d = (Res_items (lrange d k i j), d)"
| "exec_list (Call_llen k) d = (Res_len (llen d k), d)"
| "exec_list (Call_lpop k n) d = (case lpop d k n of (r, d') \<Rightarrow> (Res_pop r, d'))"

text \<open>The index that an argument of LRANGE means in a list of a given length.\<close>

definition list_index :: "nat \<Rightarrow> int \<Rightarrow> int" where
  "list_index n i = (if i < 0 then i + int n else i)"

definition items_between :: "int \<Rightarrow> int \<Rightarrow> 'a list \<Rightarrow> 'a list" where
  "items_between i j xs =
     map (\<lambda>k. xs ! k) (filter (\<lambda>k. list_index (length xs) i \<le> int k \<and> int k \<le> list_index (length xs) j)
       [0..<length xs])"

primrec spec_list :: "list_call \<Rightarrow> (string \<Rightarrow> string list) \<Rightarrow> list_result \<times> (string \<Rightarrow> string list)" where
  "spec_list (Call_rpush k vs) q = (Res_len (length (q k) + length vs), q(k := q k @ vs))"
| "spec_list (Call_lpush k vs) q = (Res_len (length (q k) + length vs), q(k := rev vs @ q k))"
| "spec_list (Call_lrange k i j) q = (Res_items (items_between i j (q k)), q)"
| "spec_list (Call_llen k) q = (Res_len (length (q k)), q)"
| "spec_list (Call_lpop k n) q =
     (if q k = [] then (Res_pop (Inl ''Key not found''), q)
      else (Res_pop (Inr (take n (q k))), q(k := drop n (q k))))"

fun run_calls :: "('c \<Rightarrow> 's \<Rightarrow> 'r \<times> 's) \<Rightarrow> 'c list \<Rightarrow> 's \<Rightarrow> 'r list \<times> 's" where
  "run_calls f [] s = ([], s)"
| "run_calls f (c # cs) s = (case f c s of (r, s') \<Rightarrow> (case run_calls f cs s' of (rs, s'') \<Rightarrow> (r # rs, s'')))"

text \<open>Every key holds a non-empty list; the pushes have at least one value (the commands check it).\<close>

definition lists_only :: "data \<Rightarrow> bool" where
  "lists_only d = (\<forall>k v. um_find d k = Some v \<longrightarrow> (\<exists>xs. sval v = VList xs \<and> xs \<noteq> []))"

primrec pushes_values :: "list_call \<Rightarrow> bool" where
  "pushes_values (Call_rpush k vs) = (vs \<noteq> [])"
| "pushes_values (Call_lpush k vs) = (vs \<noteq> [])"
| "pushes_values (Call_lrange k i j) = True"
| "pushes_values (Call_llen k) = True"
| "pushes_values (Call_lpop k n) = True"

lemma resolve_list_indices_index:
  "resolve_list_indices i j (int n) =
     (let a = max 0 (list_index n i); b = list_index n j
      in if int n \<le> a \<or> b < a then \<lparr>r_start = 0, r_stop = 0, r_valid = False\<rparr>
         else \<lparr>r_start = a, r_stop = min b (int n - 1), r_valid = True\<rparr>)"
  by (auto simp: resolve_list_indices_def list_index_def Let_def)

lemma items_between_slice:
  "items_between i j xs = drop (nat (list_index (length xs) i)) (take (nat (list_index (length xs) j + 1)) xs)"
  unfolding items_between_def filter_upt_interval
  by (rule nth_equalityI) (auto simp: less_diff_conv add.commute)

lemma nat_max_0: "nat (max 0 i) = nat i"
  by (simp add: max_def)

lemma slice_take_drop:
  assumes "0 \<le> a" "a \<le> b" "a < int (length xs)"
  shows "take (nat (min b (int (length xs) - 1) + 1 - a)) (drop (nat a) xs) = drop (nat a) (take (nat (b + 1)) xs)"
proof (cases "b < int (length xs)")
  case True
  then have "nat (min b (int (length xs) - 1) + 1 - a) + nat a = nat (b + 1)"
    using assms by (simp add: min_def)
  then show ?thesis by (simp add: take_drop)
next
  case False
  then show ?thesis using assms by (simp add: min_def)
qed

lemma lrange_list: "um_find d key = Some v \<Longrightarrow> sval v = VList xs \<Longrightarrow> lrange d key i j = items_between i j xs"
  using slice_take_drop [of "max 0 (list_index (length xs) i)" "list_index (length xs) j" xs]
  by (auto simp: lrange_def resolve_list_indices_index items_between_slice nat_max_0 Let_def not_le not_less)

lemma lrange_items_between: "lrange d key i j = items_between i j (list_at d key)"
proof (cases "um_find d key")
  case None
  then show ?thesis by (simp add: lrange_def list_at_def items_between_def)
next
  case (Some v)
  then show ?thesis
    by (cases "sval v") (simp add: lrange_def list_at_def items_between_def,
        simp add: lrange_list list_at_def, simp add: lrange_def list_at_def items_between_def)
qed

lemma lists_only_put [simp]:
  "lists_only d \<Longrightarrow> xs \<noteq> [] \<Longrightarrow> lists_only (um_put key (v\<lparr>sval := VList xs\<rparr>) d)"
  by (auto simp: lists_only_def)

lemma lists_only_erase [simp]: "lists_only d \<Longrightarrow> lists_only (um_erase key d)"
  by (auto simp: lists_only_def)

lemma lpop_lists_only:
  assumes "lists_only d"
  shows "lpop d key n =
    (if list_at d key = [] then (Inl ''Key not found'', d)
     else (Inr (take n (list_at d key)),
       if drop n (list_at d key) = [] then um_erase key d
       else um_put key ((the (um_find d key))\<lparr>sval := VList (drop n (list_at d key))\<rparr>) d))"
  using assms [unfolded lists_only_def, rule_format, of key]
  by (auto simp: lpop_def list_at_def min_def Let_def split: option.split)

lemma exec_list_step:
  assumes "lists_only d" "pushes_values c"
  shows "spec_list c (list_at d) = (fst (exec_list c d), list_at (snd (exec_list c d)))"
    and "lists_only (snd (exec_list c d))"
  using assms
  by (cases c; simp add: rpush_eq lpush_eq llen_list_at lrange_items_between lpop_lists_only list_at_upd)+

section \<open>Properties\<close>

text \<open>
  C8. The list operations refine a map from keys to queues: over every sequence of calls on a store
  of lists, the calls return what the abstract operations return and the lists under the keys are
  those of the abstract map; an emptied list is removed, so that the key then reads as absent.
\<close>

theorem list_store_refines_queues:
  assumes "lists_only d" "list_all pushes_values cs" "run_calls exec_list cs d = (rs, d')"
  shows "run_calls spec_list cs (list_at d) = (rs, list_at d') \<and> lists_only d'"
  using assms
proof (induction cs arbitrary: d rs)
  case (Cons c cs)
  obtain r d1 rs' where "exec_list c d = (r, d1)" "run_calls exec_list cs d1 = (rs', d')" "rs = r # rs'"
    using Cons.prems by (auto split: prod.splits)
  with exec_list_step [of d c] Cons.IH [of d1 rs'] Cons.prems show ?case by simp
qed simp

theorem list_store_refines_queues_witness:
  "run_calls exec_list [Call_rpush ''l'' [''a'', ''b''], Call_lpush ''l'' [''c''], Call_lpop ''l'' 3, Call_llen ''l''] [] =
     ([Res_len 2, Res_len 3, Res_pop (Inr [''c'', ''a'', ''b'']), Res_len 0], []) \<and>
   run_calls spec_list [Call_rpush ''l'' [''a'', ''b''], Call_lpush ''l'' [''c''], Call_lpop ''l'' 3, Call_llen ''l'']
     (list_at []) = ([Res_len 2, Res_len 3, Res_pop (Inr [''c'', ''a'', ''b'']), Res_len 0], list_at [])"
proof -
  have r: "run_calls exec_list [Call_rpush ''l'' [''a'', ''b''], Call_lpush ''l'' [''c''], Call_lpop ''l'' 3, Call_llen ''l''] [] =
     ([Res_len 2, Res_len 3, Res_pop (Inr [''c'', ''a'', ''b'']), Res_len 0], [])"
    by code_simp
  moreover have "lists_only []" by (simp add: lists_only_def)
  ultimately show ?thesis
    using list_store_refines_queues [OF _ _ r] by (simp add: list_all_iff del: run_calls.simps)
qed

text \<open>
  C24. LRANGE returns exactly the elements whose index lies between the two bounds, a negative bound
  counting from the end of the list, for every pair of bounds.
\<close>

theorem lrange_between: "lrange d key start stop = items_between start stop (list_at d key)"
  by (rule lrange_items_between)



end
