(* ===== verification/Stream_Id.thy ===== *)
theory Stream_Id
  imports Redis_Prelude
begin

text \<open>
  Stream entry IDs (\<^verbatim>\<open>src/src/store/types/StreamIdUtils\<close>): reading the ID of an XADD, resolving and
  checking its sequence number against the last entry, and reading the bounds of XRANGE and
  XREAD. The code reads both numbers with \<^verbatim>\<open>std::stoull\<close> and casts them to \<^verbatim>\<open>long long\<close>, which is
  \<^const>\<open>sint\<close> of the word read; a bound keeps its sequence number unsigned.
\<close>

section \<open>Definitions\<close>

record stream_id_parts =
  sid_ms :: int
  sid_seq :: int
  auto_seq :: bool

record last_id_parts =
  last_ms :: int
  last_seq :: int
  last_valid :: bool

record stream_bound =
  b_ms :: int
  b_seq :: "64 word"

definition find_dash :: "string \<Rightarrow> nat option" where
  "find_dash s =
     (if CHR ''-'' \<in> set s then Some (length (takeWhile (\<lambda>c. c \<noteq> CHR ''-'') s)) else None)"

text \<open>\<open>wall\<close> is the system clock in milliseconds since the epoch.\<close>

definition parse_stream_id :: "int \<Rightarrow> string \<Rightarrow> cpp_exn + stream_id_parts" where
  "parse_stream_id wall s =
     (if s = ''*'' then Inr \<lparr>sid_ms = wall, sid_seq = 0, auto_seq = True\<rparr>
      else
        (case find_dash s of
           None \<Rightarrow> Inl (Invalid_argument ''Invalid stream ID specified'')
         | Some dash \<Rightarrow>
            (case stoull (take dash s) of
               Inl _ \<Rightarrow> Inl (Invalid_argument ''Invalid stream ID specified'')
             | Inr ms \<Rightarrow>
                 let seq_s = drop (dash + 1) s
                 in if seq_s = ''*'' then Inr \<lparr>sid_ms = sint ms, sid_seq = 0, auto_seq = True\<rparr>
                    else
                      (case stoull seq_s of
                         Inl _ \<Rightarrow> Inl (Invalid_argument ''Invalid stream ID specified'')
                       | Inr q \<Rightarrow> Inr \<lparr>sid_ms = sint ms, sid_seq = sint q, auto_seq = False\<rparr>))))"

definition parse_last_id :: "string \<Rightarrow> cpp_exn + last_id_parts" where
  "parse_last_id s =
     (if s = [] then Inr \<lparr>last_ms = 0, last_seq = 0, last_valid = False\<rparr>
      else
        (case find_dash s of
           None \<Rightarrow> Inr \<lparr>last_ms = 0, last_seq = 0, last_valid = False\<rparr>
         | Some dash \<Rightarrow>
            (case stoull (take dash s) of
               Inl e \<Rightarrow> Inl e
             | Inr ms \<Rightarrow>
                (case stoull (drop (dash + 1) s) of
                   Inl e \<Rightarrow> Inl e
                 | Inr q \<Rightarrow> Inr \<lparr>last_ms = sint ms, last_seq = sint q, last_valid = True\<rparr>))))"

text \<open>\<^verbatim>\<open>lastIdParts.seq + 1\<close> is a signed addition.\<close>

definition resolve_seq :: "stream_id_parts \<Rightarrow> last_id_parts \<Rightarrow> cpp_exn + int" where
  "resolve_seq i l =
     (if \<not> auto_seq i then Inr (sid_seq i)
      else if last_valid l \<and> sid_ms i = last_ms l then ll_checked (last_seq l + 1)
      else if sid_ms i = 0 then Inr 1
      else Inr 0)"

definition validate_id :: "int \<Rightarrow> int \<Rightarrow> last_id_parts \<Rightarrow> cpp_exn option" where
  "validate_id ms q l =
     (if ms = 0 \<and> q = 0 then Some (Invalid_argument ''The ID specified in XADD must be greater than 0-0'')
      else if last_valid l \<and> (ms < last_ms l \<or> ms = last_ms l \<and> q \<le> last_seq l)
        then Some (Invalid_argument ''The ID specified in XADD is equal or smaller than the target stream top item'')
      else None)"

definition id_str :: "int \<Rightarrow> int \<Rightarrow> string" where
  "id_str ms q = int_str ms @ CHR ''-'' # int_str q"

definition generate_stream_id :: "int \<Rightarrow> string \<Rightarrow> string \<Rightarrow> cpp_exn + string" where
  "generate_stream_id wall pattern last_id =
     (case parse_stream_id wall pattern of
        Inl e \<Rightarrow> Inl e
      | Inr i \<Rightarrow>
         (case parse_last_id last_id of
            Inl e \<Rightarrow> Inl e
          | Inr l \<Rightarrow>
             (case resolve_seq i l of
                Inl e \<Rightarrow> Inl e
              | Inr q \<Rightarrow>
                 (case validate_id (sid_ms i) q l of
                    Some e \<Rightarrow> Inl e
                  | None \<Rightarrow> Inr (id_str (sid_ms i) q)))))"

definition parse_stream_bound :: "string \<Rightarrow> bool \<Rightarrow> cpp_exn + stream_bound" where
  "parse_stream_bound s is_start =
     (if s = ''-'' then Inr \<lparr>b_ms = 0, b_seq = 0\<rparr>
      else if s = ''+'' then Inr \<lparr>b_ms = LLONG_MAX, b_seq = -1\<rparr>
      else
        (case find_dash s of
           None \<Rightarrow>
            (case stoull s of
               Inl e \<Rightarrow> Inl e
             | Inr ms \<Rightarrow> Inr \<lparr>b_ms = sint ms, b_seq = (if is_start then 0 else -1)\<rparr>)
         | Some dash \<Rightarrow>
            (case stoull (take dash s) of
               Inl e \<Rightarrow> Inl e
             | Inr ms \<Rightarrow>
                (case stoull (drop (dash + 1) s) of
                   Inl e \<Rightarrow> Inl e
                 | Inr q \<Rightarrow> Inr \<lparr>b_ms = sint ms, b_seq = q\<rparr>))))"

section \<open>The order of IDs\<close>

definition id_less :: "int \<times> int \<Rightarrow> int \<times> int \<Rightarrow> bool" where
  "id_less a b \<longleftrightarrow> fst a < fst b \<or> fst a = fst b \<and> snd a < snd b"

lemma id_less_trans: "id_less a b \<Longrightarrow> id_less b c \<Longrightarrow> id_less a c"
  by (auto simp: id_less_def)

lemma id_less_irrefl [simp]: "\<not> id_less a a"
  by (simp add: id_less_def)

section \<open>Printed IDs read back\<close>

lemma in_ll_sint [simp]: "in_ll (sint (w :: 64 word))"
  using sint_greater_eq [of w] sint_less [of w] by (simp add: ll_limits)

lemma digits_no_dash: "CHR ''-'' \<notin> set (nat_str n)"
  using nat_str_digits digit_neq by blast

lemma id_str_neq [simp]: "id_str m q \<noteq> []" "id_str m q \<noteq> ''-''" "id_str m q \<noteq> ''+''" "id_str m q \<noteq> ''*''"
  using digits_no_dash nat_str_digits [of _ "nat m"] nat_str_not_Nil [of "nat m"]
  by (auto simp: id_str_def int_str_def append_eq_Cons_conv)

lemma find_dash_id_str:
  "0 \<le> m \<Longrightarrow> find_dash (id_str m q) = Some (length (nat_str (nat m)))"
  using digits_no_dash [of "nat m"]
  by (auto simp: find_dash_def id_str_def int_str_def takeWhile_append)

lemma find_dash_id_str_neg: "m < 0 \<Longrightarrow> find_dash (id_str m q) = Some 0"
  by (simp add: find_dash_def id_str_def int_str_def)

lemma stoull_ms: "0 \<le> m \<Longrightarrow> in_ll m \<Longrightarrow> stoull (nat_str (nat m)) = Inr (of_int m)"
  using stoull_int_str [of m "[]"] by (simp add: int_str_def)

lemma stoull_seq: "in_ll q \<Longrightarrow> stoull (int_str q) = Inr (of_int q)"
  using stoull_int_str [of q "[]"] by simp

lemma parse_last_id_str:
  assumes "0 \<le> m" "in_ll m" "in_ll q"
  shows "parse_last_id (id_str m q) = Inr \<lparr>last_ms = m, last_seq = q, last_valid = True\<rparr>"
  using assms
  by (simp add: parse_last_id_def find_dash_id_str)
     (simp add: id_str_def int_str_def [of m] stoull_ms stoull_seq sint_of_int_id)

lemma parse_last_id_str_neg:
  "m < 0 \<Longrightarrow> parse_last_id (id_str m q) = Inl (Invalid_argument ''stoull'')"
  by (simp add: parse_last_id_def find_dash_id_str_neg stoull_Nil)

lemma parse_stream_bound_str:
  assumes "0 \<le> m" "in_ll m" "in_ll q"
  shows "parse_stream_bound (id_str m q) st = Inr \<lparr>b_ms = m, b_seq = of_int q\<rparr>"
  using assms
  by (simp add: parse_stream_bound_def find_dash_id_str)
     (simp add: id_str_def int_str_def [of m] stoull_ms stoull_seq sint_of_int_id)

lemma parse_stream_bound_str_neg:
  "m < 0 \<Longrightarrow> parse_stream_bound (id_str m q) st = Inl (Invalid_argument ''stoull'')"
  by (simp add: parse_stream_bound_def find_dash_id_str_neg stoull_Nil)

section \<open>Generated IDs\<close>

lemma parse_stream_id_in_ll:
  "parse_stream_id wall s = Inr i \<Longrightarrow> in_ll wall \<Longrightarrow> in_ll (sid_ms i) \<and> in_ll (sid_seq i)"
  by (auto simp: parse_stream_id_def Let_def split: if_splits option.splits sum.splits)
     (simp_all add: ll_limits)

lemma resolve_seq_in_ll: "resolve_seq i l = Inr q \<Longrightarrow> in_ll (sid_seq i) \<Longrightarrow> in_ll q"
  by (auto simp: resolve_seq_def split: if_splits) (simp_all add: ll_limits)

lemma generate_stream_id_cases:
  assumes "generate_stream_id wall pattern last_id = Inr new_id" "in_ll wall"
  obtains m q l where "parse_last_id last_id = Inr l" "new_id = id_str m q" "in_ll m" "in_ll q"
    "last_valid l \<Longrightarrow> id_less (last_ms l, last_seq l) (m, q)"
proof -
  from assms(1) obtain i l q where
      i: "parse_stream_id wall pattern = Inr i" and l: "parse_last_id last_id = Inr l"
      and q: "resolve_seq i l = Inr q" and v: "validate_id (sid_ms i) q l = None"
      and new: "new_id = id_str (sid_ms i) q"
    by (auto simp: generate_stream_id_def split: sum.splits option.splits)
  have "id_less (last_ms l, last_seq l) (sid_ms i, q)" if "last_valid l"
    using v that by (auto simp: validate_id_def id_less_def split: if_splits)
  with that [OF l new] parse_stream_id_in_ll [OF i assms(2)] resolve_seq_in_ll [OF q] show ?thesis by blast
qed

lemma generate_next_seq:
  assumes "n < 2 ^ 63" "0 \<le> m" "in_ll m" "0 \<le> q" "in_ll q"
  shows "generate_stream_id wall (nat_str n @ ''-*'') (id_str m q) =
     (if int n < m
        then Inl (Invalid_argument ''The ID specified in XADD is equal or smaller than the target stream top item'')
      else if int n = m then (if q = LLONG_MAX then Inl Signed_overflow else Inr (id_str m (q + 1)))
      else Inr (id_str (int n) 0))"
proof -
  have d: "find_dash (nat_str n @ ''-*'') = Some (length (nat_str n))"
    using digits_no_dash [of n] by (simp add: find_dash_def takeWhile_append)
  have "in_ll (int n)" using assms(1) by (simp add: ll_limits)
  then have i: "parse_stream_id wall (nat_str n @ ''-*'') =
      Inr \<lparr>sid_ms = int n, sid_seq = 0, auto_seq = True\<rparr>"
    using d stoull_nat_str [of n "[]"] assms(1) nat_str_digits [of "CHR ''*''" n] sint_of_int_id [of "int n"]
    by (auto simp: parse_stream_id_def append_eq_Cons_conv)
  show ?thesis
    using assms parse_last_id_str [of m q]
    by (auto simp: generate_stream_id_def i resolve_seq_def validate_id_def ll_checked_def ll_limits)
qed

section \<open>Properties\<close>

text \<open>
  C27. The ID generated for a new entry is larger than the ID of the last one, whatever the client
  asked for, and again a printed pair of 64-bit numbers.
\<close>

theorem generate_stream_id_greater:
  assumes "generate_stream_id wall pattern (id_str m q) = Inr new_id"
    and "in_ll wall" "0 \<le> m" "in_ll m" "in_ll q"
  shows "\<exists>m' q'. new_id = id_str m' q' \<and> in_ll m' \<and> in_ll q' \<and> id_less (m, q) (m', q')"
proof -
  from assms(1,2) obtain l m' q' where "parse_last_id (id_str m q) = Inr l" "new_id = id_str m' q'"
      "in_ll m'" "in_ll q'" "last_valid l \<Longrightarrow> id_less (last_ms l, last_seq l) (m', q')"
    by (rule generate_stream_id_cases) blast
  with parse_last_id_str [OF assms(3-5)] show ?thesis by auto
qed

theorem generate_stream_id_greater_witness:
  "generate_stream_id 0 ''5-*'' (id_str 5 7) = Inr ''5-8'' \<and> in_ll 0 \<and> (0::int) \<le> 5 \<and> in_ll 5 \<and> in_ll 7 \<and>
   (\<exists>m' q'. ''5-8'' = id_str m' q' \<and> in_ll m' \<and> in_ll q' \<and> id_less (5, 7) (m', q'))"
proof -
  have l: "in_ll 0" "in_ll 5" "in_ll 7" by (simp_all add: ll_limits)
  have g: "generate_stream_id 0 ''5-*'' (id_str 5 7) = Inr ''5-8''"
    using parse_last_id_str [of 5 7] l
    by (simp add: generate_stream_id_def parse_stream_id_def find_dash_def stoull_def sto_parts_def is_space_def
        is_digit_def digits_val_def digit_val_def resolve_seq_def validate_id_def)
       (simp add: id_str_def int_str_def nat_str.simps num_simps ll_checked_def ll_limits validate_id_def)
  show ?thesis using l g generate_stream_id_greater [OF g] by simp
qed

text \<open>
  The sequence number of \<^verbatim>\<open>ms-*\<close>: one more than the last entry's at the same time, zero at a
  later time, an error at an earlier one; at the largest sequence number the addition overflows.
\<close>

theorem generate_auto_seq:
  assumes "n < 2 ^ 63" "0 \<le> m" "in_ll m" "0 \<le> q" "in_ll q"
  shows "generate_stream_id wall (nat_str n @ ''-*'') (id_str m q) =
     (if int n < m
        then Inl (Invalid_argument ''The ID specified in XADD is equal or smaller than the target stream top item'')
      else if int n = m then (if q = LLONG_MAX then Inl Signed_overflow else Inr (id_str m (q + 1)))
      else Inr (id_str (int n) 0))"
  using assms by (rule generate_next_seq)

theorem generate_auto_seq_witness:
  "(5::nat) < 2 ^ 63 \<and> (0::int) \<le> 5 \<and> in_ll 5 \<and> (0::int) \<le> 7 \<and> in_ll 7 \<and>
   generate_stream_id 0 (nat_str 5 @ ''-*'') (id_str 5 7) = Inr (id_str 5 8)"
  using generate_auto_seq [of 5 5 7 0] by (simp add: ll_limits)

text \<open>
  C35. A time of \<open>2 ^ 63\<close> or more is cast to a negative number and accepted in an empty stream; the
  ID printed for it can be read back by neither XADD, which then fails for every request, nor by
  the bounds of XRANGE and XREAD.
\<close>

theorem stream_id_wraps:
  assumes "2 ^ 63 \<le> n" "n < 2 ^ 64"
  shows "generate_stream_id wall (nat_str n @ ''-1'') [] = Inr (id_str (int n - 2 ^ 64) 1) \<and>
    (\<exists>w. generate_stream_id wall' pattern (id_str (int n - 2 ^ 64) 1) = Inl (Invalid_argument w)) \<and>
    parse_stream_bound (id_str (int n - 2 ^ 64) 1) st = Inl (Invalid_argument ''stoull'')"
proof (intro conjI)
  let ?m = "int n - 2 ^ 64"
  have neg: "?m < 0" using assms by simp
  show "parse_stream_bound (id_str ?m 1) st = Inl (Invalid_argument ''stoull'')"
    using neg by (rule parse_stream_bound_str_neg)
  show "\<exists>w. generate_stream_id wall' pattern (id_str ?m 1) = Inl (Invalid_argument w)"
    using parse_last_id_str_neg [OF neg, of 1]
    by (auto simp: generate_stream_id_def parse_stream_id_def Let_def split: sum.splits option.splits if_splits)
  have d: "find_dash (nat_str n @ ''-1'') = Some (length (nat_str n))"
    using digits_no_dash [of n] by (simp add: find_dash_def takeWhile_append)
  have ms: "sint (of_nat n :: 64 word) = ?m"
  proof -
    have "(of_nat n :: 64 word) = of_int ?m" by simp
    moreover have "in_ll ?m" using assms by (simp add: ll_limits)
    ultimately show ?thesis by (metis sint_of_int_id)
  qed
  have one: "stoull ''1'' = Inr 1"
    by (simp add: stoull_def sto_parts_def is_space_def is_digit_def digits_val_def digit_val_def)
  have "nat_str n @ ''-1'' \<noteq> ''*''" by (simp add: append_eq_Cons_conv)
  then have "parse_stream_id wall (nat_str n @ ''-1'') = Inr \<lparr>sid_ms = ?m, sid_seq = 1, auto_seq = False\<rparr>"
    using d stoull_nat_str [of n "[]"] assms ms one by (simp add: parse_stream_id_def)
  then show "generate_stream_id wall (nat_str n @ ''-1'') [] = Inr (id_str ?m 1)"
    by (simp add: generate_stream_id_def parse_last_id_def resolve_seq_def validate_id_def)
qed

theorem stream_id_wraps_witness:
  "(2 ^ 63 :: nat) \<le> 2 ^ 63 \<and> (2 ^ 63 :: nat) < 2 ^ 64 \<and>
   generate_stream_id 0 (nat_str (2 ^ 63) @ ''-1'') [] = Inr (id_str (int (2 ^ 63) - 2 ^ 64) 1)"
  using stream_id_wraps [of "2 ^ 63" 0 0 "''*''" True] by simp

end
