(* ===== verification/Stream_Store.thy ===== *)
theory Stream_Store
  imports String_Store Stream_Id
begin

text \<open>
  Stream values (\<^verbatim>\<open>src/src/store/impl/StreamStore.cpp\<close>): appending an entry and reading ranges. \<open>wall\<close>
  is the system clock in milliseconds. XADD changes the data before it checks the ID, so its result
  carries the data also when it fails or throws.
\<close>

section \<open>Definitions\<close>

definition holds_stream :: "store_value \<Rightarrow> bool" where
  "holds_stream v = (case sval v of VStream _ \<Rightarrow> True | _ \<Rightarrow> False)"

text \<open>\<^verbatim>\<open>data_[storeKey]\<close>, made an empty stream when it is not one.\<close>

definition stream_slot :: "data \<Rightarrow> string \<Rightarrow> store_value \<times> stream_entry list" where
  "stream_slot d key =
     (let v = (case um_find d key of Some v \<Rightarrow> v | None \<Rightarrow> default_value)
      in case sval v of VStream es \<Rightarrow> (v, es) | _ \<Rightarrow> (v\<lparr>sval := VStream []\<rparr>, []))"

definition xadd ::
  "int \<Rightarrow> data \<Rightarrow> string \<Rightarrow> string \<Rightarrow> (string \<times> string) list \<Rightarrow> (cpp_exn + (string + string)) \<times> data" where
  "xadd wall d key stream_id fs =
     (if (case um_find d key of Some v \<Rightarrow> \<not> holds_stream v | None \<Rightarrow> False)
      then (Inr (Inl wrong_type_error), d)
      else
        (case stream_slot d key of (v, es) \<Rightarrow>
          let last_id = (if es = [] then [] else entry_id (last es))
          in case generate_stream_id wall stream_id last_id of
               Inr new_id \<Rightarrow>
                 (Inr (Inr new_id),
                  um_put key (v\<lparr>sval := VStream (es @ [\<lparr>entry_id = new_id, entry_fields = fs\<rparr>])\<rparr>) d)
             | Inl (Invalid_argument w) \<Rightarrow> (Inr (Inl (''-ERR '' @ w)), um_put key v d)
             | Inl e \<Rightarrow> (Inl e, um_put key v d)))"

fun xrange_loop ::
  "stream_bound \<Rightarrow> stream_bound \<Rightarrow> stream_entry list \<Rightarrow> stream_entry list \<Rightarrow> cpp_exn + stream_entry list" where
  "xrange_loop start_bound end_bound result [] = Inr result"
| "xrange_loop start_bound end_bound result (entry # entries) =
     (case parse_stream_bound (entry_id entry) True of
        Inl e \<Rightarrow> Inl e
      | Inr b \<Rightarrow>
          if b_ms b > b_ms end_bound \<or> b_ms b = b_ms end_bound \<and> b_seq b > b_seq end_bound then Inr result
          else if b_ms b > b_ms start_bound \<or> b_ms b = b_ms start_bound \<and> b_seq b \<ge> b_seq start_bound
          then xrange_loop start_bound end_bound (result @ [entry]) entries
          else xrange_loop start_bound end_bound result entries)"

definition xrange :: "data \<Rightarrow> string \<Rightarrow> string \<Rightarrow> string \<Rightarrow> cpp_exn + stream_entry list" where
  "xrange d key range_start range_end =
     (case um_find d key of
        None \<Rightarrow> Inr []
      | Some v \<Rightarrow>
         (case sval v of
            VStream es \<Rightarrow>
             (case parse_stream_bound range_start True of
                Inl e \<Rightarrow> Inl e
              | Inr start_bound \<Rightarrow>
                 (case parse_stream_bound range_end False of
                    Inl e \<Rightarrow> Inl e
                  | Inr end_bound \<Rightarrow> xrange_loop start_bound end_bound [] es))
          | _ \<Rightarrow> Inr []))"

fun xread_loop :: "stream_bound \<Rightarrow> stream_entry list \<Rightarrow> stream_entry list \<Rightarrow> cpp_exn + stream_entry list" where
  "xread_loop target_bound result [] = Inr result"
| "xread_loop target_bound result (entry # entries) =
     (case parse_stream_bound (entry_id entry) True of
        Inl e \<Rightarrow> Inl e
      | Inr b \<Rightarrow>
          if b_ms b > b_ms target_bound \<or> b_ms b = b_ms target_bound \<and> b_seq b > b_seq target_bound
          then xread_loop target_bound (result @ [entry]) entries
          else xread_loop target_bound result entries)"

text \<open>\<^verbatim>\<open>ids.at(i)\<close> throws when there are fewer IDs than keys.\<close>

fun xread :: "data \<Rightarrow> string list \<Rightarrow> string list \<Rightarrow> cpp_exn + (string \<times> stream_entry list) list" where
  "xread d [] ids = Inr []"
| "xread d (key # keys) [] = Inl (Out_of_range ''vector'')"
| "xread d (key # keys) (i # ids) =
     (case parse_stream_bound i True of
        Inl e \<Rightarrow> Inl e
      | Inr target_bound \<Rightarrow>
         (case um_find d key of
            None \<Rightarrow> xread d keys ids
          | Some v \<Rightarrow>
             (case sval v of
                VStream es \<Rightarrow>
                 (case xread_loop target_bound [] es of
                    Inl e \<Rightarrow> Inl e
                  | Inr entries \<Rightarrow>
                     (case xread d keys ids of
                        Inl e \<Rightarrow> Inl e
                      | Inr result \<Rightarrow> Inr (if entries = [] then result else (key, entries) # result)))
              | _ \<Rightarrow> xread d keys ids)))"

section \<open>The stream under a key\<close>

definition stream_at :: "data \<Rightarrow> string \<Rightarrow> stream_entry list" where
  "stream_at d key =
     (case um_find d key of
        Some v \<Rightarrow> (case sval v of VStream es \<Rightarrow> es | _ \<Rightarrow> [])
      | None \<Rightarrow> [])"

definition entry_key :: "stream_entry \<Rightarrow> int \<times> int" where
  "entry_key e = (case parse_last_id (entry_id e) of Inr l \<Rightarrow> (last_ms l, last_seq l) | Inl _ \<Rightarrow> (-1, 0))"

text \<open>
  What XADD keeps true of a stream: its IDs are printed pairs of 64-bit numbers in increasing order.
  An ID with a negative time, which only wrap-around produces, is the only entry of its stream.
\<close>

definition printed_ids :: "(int \<times> int) list \<Rightarrow> stream_entry list \<Rightarrow> bool" where
  "printed_ids ps es \<longleftrightarrow>
     map entry_id es = map (\<lambda>(m, q). id_str m q) ps \<and> sorted_wrt id_less ps \<and>
     (\<forall>(m, q) \<in> set ps. in_ll m \<and> in_ll q \<and> (m < 0 \<longrightarrow> length ps = 1))"

definition stream_ok :: "stream_entry list \<Rightarrow> bool" where
  "stream_ok es \<longleftrightarrow> (\<exists>ps. printed_ids ps es)"

text \<open>Streams in which no number has wrapped around.\<close>

definition canonical :: "stream_entry list \<Rightarrow> bool" where
  "canonical es \<longleftrightarrow>
     sorted_wrt id_less (map entry_key es) \<and>
     list_all (\<lambda>e. case entry_key e of (m, q) \<Rightarrow>
       entry_id e = id_str m q \<and> 0 \<le> m \<and> in_ll m \<and> 0 \<le> q \<and> in_ll q) es"

definition bound_key :: "stream_bound \<Rightarrow> int \<times> int" where
  "bound_key b = (b_ms b, uint (b_seq b))"

section \<open>Lemmas\<close>

lemma stream_slot_at:
  obtains v where "stream_slot d key = (v, stream_at d key)" "sval v = VStream (stream_at d key)"
  by (force simp: stream_slot_def stream_at_def default_value_def Let_def
      split: option.splits value_variant.splits)

lemma xadd_cases:
  assumes "xadd wall d key i fs = (r, d')"
  obtains (wrong) "r = Inr (Inl wrong_type_error)" "d' = d"
  | (ok) new_id v where "r = Inr (Inr new_id)"
      "generate_stream_id wall i (if stream_at d key = [] then [] else entry_id (last (stream_at d key))) = Inr new_id"
      "d' = um_put key (v\<lparr>sval := VStream (stream_at d key @ [\<lparr>entry_id = new_id, entry_fields = fs\<rparr>])\<rparr>) d"
  | (failed) v e where "sval v = VStream (stream_at d key)" "d' = um_put key v d"
      "generate_stream_id wall i (if stream_at d key = [] then [] else entry_id (last (stream_at d key))) = Inl e"
      "r = (case e of Invalid_argument w \<Rightarrow> Inr (Inl (''-ERR '' @ w)) | _ \<Rightarrow> Inl e)"
proof (cases "case um_find d key of Some v \<Rightarrow> \<not> holds_stream v | None \<Rightarrow> False")
  case True
  with assms wrong show ?thesis by (simp add: xadd_def)
next
  case False
  obtain v where v: "stream_slot d key = (v, stream_at d key)" "sval v = VStream (stream_at d key)"
    by (rule stream_slot_at)
  show ?thesis
  proof (cases "generate_stream_id wall i (if stream_at d key = [] then [] else entry_id (last (stream_at d key)))")
    case (Inr new_id)
    with False assms ok [of new_id v] show ?thesis by (simp add: xadd_def v Let_def)
  next
    case (Inl e)
    with False assms failed [of v e] show ?thesis
      by (cases e) (simp_all add: xadd_def v Let_def)
  qed
qed

lemma printed_ids_Nil: "printed_ids ps [] \<longleftrightarrow> ps = []"
  by (auto simp: printed_ids_def)

lemma printed_ids_last:
  assumes "printed_ids ps es" "es \<noteq> []"
  shows "ps \<noteq> []" "entry_id (last es) = id_str (fst (last ps)) (snd (last ps))"
    and "in_ll (fst (last ps))" "in_ll (snd (last ps))"
proof -
  have m: "map entry_id es = map (\<lambda>(m, q). id_str m q) ps" using assms(1) by (simp add: printed_ids_def)
  then show ne: "ps \<noteq> []" using assms(2) by auto
  from m ne assms(2) show "entry_id (last es) = id_str (fst (last ps)) (snd (last ps))"
    by (metis case_prod_unfold last_map)
  from assms(1) ne show "in_ll (fst (last ps))" "in_ll (snd (last ps))"
    by (auto simp: printed_ids_def case_prod_unfold)
qed

lemma sorted_wrt_snoc: "sorted_wrt P (xs @ [x]) \<longleftrightarrow> sorted_wrt P xs \<and> (\<forall>y \<in> set xs. P y x)"
  by (simp add: sorted_wrt_append)

lemma sorted_last_less:
  assumes "sorted_wrt id_less ps" "ps \<noteq> []" "id_less (last ps) p" "x \<in> set ps"
  shows "id_less x p"
proof (cases "x = last ps")
  case False
  have "sorted_wrt id_less (butlast ps @ [last ps])" "x \<in> set (butlast ps @ [last ps])"
    using assms(1,2,4) by simp_all
  with False have "id_less x (last ps)" by (simp only: sorted_wrt_snoc) auto
  with assms(3) show ?thesis by (rule id_less_trans [rotated])
qed (use assms(3) in simp)

text \<open>A new ID extends the printed IDs of a stream.\<close>

lemma generate_extends:
  assumes p: "printed_ids ps es" and wall: "in_ll wall"
    and g: "generate_stream_id wall i (if es = [] then [] else entry_id (last es)) = Inr new_id"
  shows "\<exists>m q. printed_ids (ps @ [(m, q)]) (es @ [\<lparr>entry_id = new_id, entry_fields = fs\<rparr>]) \<and> new_id = id_str m q"
proof -
  from g wall obtain m q l where l: "parse_last_id (if es = [] then [] else entry_id (last es)) = Inr l"
      and new: "new_id = id_str m q" "in_ll m" "in_ll q"
      and less: "last_valid l \<Longrightarrow> id_less (last_ms l, last_seq l) (m, q)"
    by (rule generate_stream_id_cases) blast
  have "printed_ids (ps @ [(m, q)]) (es @ [\<lparr>entry_id = new_id, entry_fields = fs\<rparr>])"
  proof (cases "es = []")
    case True
    then show ?thesis using p new by (simp add: printed_ids_Nil) (simp add: printed_ids_def)
  next
    case False
    note last = printed_ids_last [OF p False]
    have pos: "0 \<le> fst (last ps)"
      using l False last(2) parse_last_id_str_neg [of "fst (last ps)" "snd (last ps)"] by (cases "fst (last ps) < 0") auto
    then have le: "id_less (last ps) (m, q)"
      using l False last less parse_last_id_str [OF pos last(3,4)] by auto
    have all: "id_less x (m, q)" if "x \<in> set ps" for x
      using sorted_last_less [OF _ last(1) le that] p by (simp add: printed_ids_def)
    have nonneg: "0 \<le> fst x" if "x \<in> set ps" for x
    proof (rule ccontr)
      assume neg: "\<not> 0 \<le> fst x"
      with p that have "length ps = 1" by (auto simp: printed_ids_def)
      with that have "x = last ps" by (auto simp: length_Suc_conv)
      with neg pos show False by simp
    qed
    have "0 \<le> m" using le pos by (auto simp: id_less_def)
    then show ?thesis using p new all nonneg
      by (fastforce simp: printed_ids_def sorted_wrt_snoc)
  qed
  with new show ?thesis by blast
qed

section \<open>Reading canonical streams\<close>

lemma parse_entry_bound:
  assumes "canonical es" "e \<in> set es"
  shows "parse_stream_bound (entry_id e) st = Inr \<lparr>b_ms = fst (entry_key e), b_seq = of_int (snd (entry_key e))\<rparr>"
    and "0 \<le> snd (entry_key e)" "snd (entry_key e) \<le> LLONG_MAX"
proof -
  have e: "entry_id e = id_str (fst (entry_key e)) (snd (entry_key e))" "0 \<le> fst (entry_key e)"
      "in_ll (fst (entry_key e))" "0 \<le> snd (entry_key e)" "in_ll (snd (entry_key e))"
    using assms by (auto simp: canonical_def list_all_iff case_prod_unfold)
  with parse_stream_bound_str [OF e(2,3,5)]
  show "parse_stream_bound (entry_id e) st = Inr \<lparr>b_ms = fst (entry_key e), b_seq = of_int (snd (entry_key e))\<rparr>"
    by simp
  from e(4,5) show "0 \<le> snd (entry_key e)" "snd (entry_key e) \<le> LLONG_MAX"
    by (simp_all add: in_ll_def)
qed

lemma canonical_Cons:
  "canonical (e # es) \<Longrightarrow> canonical es \<and> (\<forall>x \<in> set es. id_less (entry_key e) (entry_key x))"
  by (auto simp: canonical_def)

lemma less_of_int_word:
  assumes "0 \<le> q" "q \<le> LLONG_MAX"
  shows "(w :: 64 word) < of_int q \<longleftrightarrow> uint w < q" "w \<le> of_int q \<longleftrightarrow> uint w \<le> q"
    "of_int q < w \<longleftrightarrow> q < uint w"
proof -
  have "uint (of_int q :: 64 word) = q"
    using assms by (simp add: uint_word_of_int ll_limits)
  then show "w < of_int q \<longleftrightarrow> uint w < q" "w \<le> of_int q \<longleftrightarrow> uint w \<le> q" "of_int q < w \<longleftrightarrow> q < uint w"
    by (simp_all add: word_less_def word_le_def)
qed

lemma xrange_loop_filter:
  assumes "canonical es"
  shows "xrange_loop sb eb acc es =
    Inr (acc @ filter (\<lambda>e. \<not> id_less (entry_key e) (bound_key sb) \<and> \<not> id_less (bound_key eb) (entry_key e)) es)"
  using assms
proof (induction es arbitrary: acc)
  case (Cons e es)
  note b = parse_entry_bound [OF Cons.prems, of e, simplified]
  note c = canonical_Cons [OF Cons.prems]
  show ?case
  proof (cases "id_less (bound_key eb) (entry_key e)")
    case True
    then have "\<forall>x \<in> set es. id_less (bound_key eb) (entry_key x)"
      using c id_less_trans by blast
    then have "filter (\<lambda>e. \<not> id_less (entry_key e) (bound_key sb) \<and> \<not> id_less (bound_key eb) (entry_key e)) es = []"
      by (simp add: filter_empty_conv)
    with True b show ?thesis
      by (auto simp: id_less_def bound_key_def less_of_int_word)
  next
    case False
    with b Cons.IH c show ?thesis
      by (auto simp: id_less_def bound_key_def less_of_int_word not_less not_le)
  qed
qed simp

lemma xread_loop_filter:
  "canonical es \<Longrightarrow> xread_loop tb acc es = Inr (acc @ filter (\<lambda>e. id_less (bound_key tb) (entry_key e)) es)"
proof (induction es arbitrary: acc)
  case (Cons e es)
  with parse_entry_bound [OF Cons.prems, of e, simplified] canonical_Cons [OF Cons.prems] show ?case
    by (auto simp: id_less_def bound_key_def less_of_int_word)
qed simp

lemma xread_Cons:
  assumes "parse_stream_bound i True = Inr b" "canonical (stream_at d k)"
  shows "xread d (k # ks) (i # ids) =
    (case xread d ks ids of
       Inl e \<Rightarrow> Inl e
     | Inr result \<Rightarrow>
        (let es = filter (\<lambda>e. id_less (bound_key b) (entry_key e)) (stream_at d k)
         in Inr (if es = [] then result else (k, es) # result)))"
proof (cases "um_find d k")
  case None
  with assms show ?thesis by (simp add: stream_at_def split: sum.split)
next
  case (Some v)
  with assms show ?thesis
    by (cases "sval v") (simp_all add: stream_at_def xread_loop_filter Let_def split: sum.split)
qed

lemma stream_at_put [simp]:
  "stream_at (um_put key v d) k =
     (if k = key then (case sval v of VStream es \<Rightarrow> es | _ \<Rightarrow> []) else stream_at d k)"
  by (simp add: stream_at_def)

lemma entry_key_printed:
  "0 \<le> m \<Longrightarrow> in_ll m \<Longrightarrow> in_ll q \<Longrightarrow> entry_id e = id_str m q \<Longrightarrow> entry_key e = (m, q)"
  by (simp add: entry_key_def parse_last_id_str)

lemma canonical_printed: "canonical es \<Longrightarrow> printed_ids (map entry_key es) es"
  by (auto simp: canonical_def printed_ids_def list_all_iff case_prod_unfold)

text \<open>Appending to a canonical stream: the new entry has the largest key.\<close>

lemma xadd_canonical:
  assumes "xadd wall d key i fs = (Inr (Inr new_id), d')" "in_ll wall"
    and "canonical (stream_at d key)"
  obtains m q where "new_id = id_str m q" "in_ll m" "in_ll q"
    "stream_at d' key = stream_at d key @ [\<lparr>entry_id = new_id, entry_fields = fs\<rparr>]"
    "\<And>e. e \<in> set (stream_at d key) \<Longrightarrow> id_less (entry_key e) (m, q)"
    "0 \<le> m \<Longrightarrow> 0 \<le> q \<Longrightarrow> canonical (stream_at d' key)"
proof -
  let ?es = "stream_at d key" and ?e = "\<lparr>entry_id = new_id, entry_fields = fs\<rparr>"
  from assms(1) have g: "generate_stream_id wall i (if ?es = [] then [] else entry_id (last ?es)) = Inr new_id"
    and at: "stream_at d' key = ?es @ [?e]"
    by (cases rule: xadd_cases; simp split: cpp_exn.splits)+
  from generate_extends [OF canonical_printed [OF assms(3)] assms(2) g] obtain m q
    where p: "printed_ids (map entry_key ?es @ [(m, q)]) (?es @ [?e])" and new: "new_id = id_str m q"
    by blast
  have ll: "in_ll m" "in_ll q" using p by (auto simp: printed_ids_def)
  have less: "id_less (entry_key e) (m, q)" if "e \<in> set ?es" for e
    using p that by (auto simp: printed_ids_def sorted_wrt_snoc)
  have "canonical (stream_at d' key)" if "0 \<le> m" "0 \<le> q"
    using assms(3) less ll new that entry_key_printed [of m q ?e]
    by (auto simp: at canonical_def sorted_wrt_snoc list_all_iff)
  with that new ll at less show ?thesis by blast
qed

text \<open>A concrete stream with one entry, for the examples.\<close>

lemma canonical_single:
  "0 \<le> m \<Longrightarrow> in_ll m \<Longrightarrow> 0 \<le> q \<Longrightarrow> in_ll q \<Longrightarrow> canonical [\<lparr>entry_id = id_str m q, entry_fields = fs\<rparr>]"
  using entry_key_printed [of m q "\<lparr>entry_id = id_str m q, entry_fields = fs\<rparr>"]
  by (simp add: canonical_def)

lemma stream_at_single [simp]: "stream_at [(k, \<lparr>sval = VStream es, expires_at = t\<rparr>)] k = es"
  by (simp add: stream_at_def um_find_def)

lemma xadd_next_seq:
  assumes "n < 2 ^ 63" "0 \<le> m" "in_ll m" "0 \<le> q" "in_ll q" "m < int n"
  shows "xadd wall [(k, \<lparr>sval = VStream [\<lparr>entry_id = id_str m q, entry_fields = fs\<rparr>], expires_at = t\<rparr>)] k
      (nat_str n @ ''-*'') fs' =
    (Inr (Inr (id_str (int n) 0)),
     [(k, \<lparr>sval = VStream [\<lparr>entry_id = id_str m q, entry_fields = fs\<rparr>,
         \<lparr>entry_id = id_str (int n) 0, entry_fields = fs'\<rparr>], expires_at = t\<rparr>)])"
  using generate_next_seq [OF assms(1-5), of wall] assms(6)
  by (simp add: xadd_def stream_slot_def holds_stream_def um_find_def um_put_def)

lemma ll_examples [simp]: "in_ll 0" "in_ll 1" "in_ll 2" "in_ll 5"
  by (simp_all add: ll_limits)

section \<open>Properties\<close>

text \<open>
  C16. XADD keeps every stream well formed: whatever IDs the clients ask for, the IDs of a stream
  are printed pairs of 64-bit numbers in strictly increasing order, and the other keys are left
  alone.
\<close>

theorem xadd_stream_ok:
  assumes "stream_ok (stream_at d key)" "in_ll wall" "xadd wall d key i fs = (r, d')"
  shows "stream_ok (stream_at d' key) \<and> (\<forall>k. k \<noteq> key \<longrightarrow> um_find d' k = um_find d k)"
  using assms(3)
proof (cases rule: xadd_cases)
  case (ok new_id v)
  with generate_extends [of _ "stream_at d key" wall i new_id fs] assms(1,2) show ?thesis
    by (fastforce simp: stream_ok_def)
qed (use assms(1) in simp_all)

theorem xadd_stream_ok_witness:
  "stream_ok (stream_at [(''s'', \<lparr>sval = VStream [\<lparr>entry_id = id_str 1 1, entry_fields = []\<rparr>], expires_at = None\<rparr>)] ''s'') \<and>
   stream_ok [\<lparr>entry_id = id_str 1 1, entry_fields = []\<rparr>, \<lparr>entry_id = id_str 5 0, entry_fields = []\<rparr>]"
proof -
  have ok: "stream_ok (stream_at [(''s'', \<lparr>sval = VStream [\<lparr>entry_id = id_str 1 1, entry_fields = []\<rparr>],
      expires_at = None\<rparr>)] ''s'')"
    using canonical_printed [OF canonical_single [of 1 1 "[]"]] by (auto simp: stream_ok_def)
  show ?thesis
    using ok xadd_stream_ok [OF ok _ xadd_next_seq [of 5 1 1 0 "''s''" "[]" None "[]"]] by simp
qed





text \<open>
  Reading after the last ID, as XREAD does for \<open>$\<close>, returns exactly the entry that is added
  next.
\<close>

theorem xread_after_xadd:
  assumes "xadd wall d key i fs = (Inr (Inr new_id), d')"
    and "canonical (stream_at d key)" "canonical (stream_at d' key)" "stream_at d key \<noteq> []" "in_ll wall"
  shows "xread d' [key] [entry_id (last (stream_at d key))] = Inr [(key, [\<lparr>entry_id = new_id, entry_fields = fs\<rparr>])]"
proof -
  let ?es = "stream_at d key" and ?new = "\<lparr>entry_id = new_id, entry_fields = fs\<rparr>"
  let ?b = "\<lparr>b_ms = fst (entry_key (last ?es)), b_seq = of_int (snd (entry_key (last ?es)))\<rparr>"
  have at: "stream_at d' key = ?es @ [?new]"
    using assms(1) by (cases rule: xadd_cases) (auto split: cpp_exn.splits)
  have b: "parse_stream_bound (entry_id (last ?es)) True = Inr ?b"
    and q: "0 \<le> snd (entry_key (last ?es))" "snd (entry_key (last ?es)) \<le> LLONG_MAX"
    using parse_entry_bound [OF assms(2), of "last ?es"] assms(4) by simp_all
  have key: "bound_key ?b = entry_key (last ?es)"
    using q by (simp add: bound_key_def uint_word_of_int ll_limits prod_eq_iff)
  have es: "?es = butlast ?es @ [last ?es]" using assms(4) by simp
  have "canonical ((butlast ?es @ [last ?es]) @ [?new])" using assms(3) at es by metis
  then have new: "id_less (entry_key (last ?es)) (entry_key ?new)"
    and old: "\<forall>e \<in> set (butlast ?es). id_less (entry_key e) (entry_key (last ?es))"
    by (simp_all add: canonical_def sorted_wrt_append)
  have "\<not> id_less (entry_key (last ?es)) (entry_key e)" if "e \<in> set ?es" for e
  proof
    assume l: "id_less (entry_key (last ?es)) (entry_key e)"
    have "e \<in> set (butlast ?es) \<or> e = last ?es"
      using that es by (metis Un_iff empty_iff empty_set insert_iff list.set(2) set_append)
    with old l id_less_trans id_less_irrefl show False by metis
  qed
  then have "filter (\<lambda>e. id_less (bound_key ?b) (entry_key e)) (stream_at d' key) = [?new]"
    using new unfolding key at by (simp add: filter_empty_conv)
  then show ?thesis using xread_Cons [OF b assms(3), of "[]" "[]"] by simp
qed

theorem xread_after_xadd_witness:
  "xread [(''s'', \<lparr>sval = VStream [\<lparr>entry_id = id_str 1 1, entry_fields = []\<rparr>, \<lparr>entry_id = id_str 5 0, entry_fields = []\<rparr>],
      expires_at = None\<rparr>)] [''s''] [id_str 1 1] = Inr [(''s'', [\<lparr>entry_id = id_str 5 0, entry_fields = []\<rparr>])]"
proof -
  note a = xadd_next_seq [of 5 1 1 0 "''s''" "[]" None "[]"]
  have "entry_key \<lparr>entry_id = id_str 1 1, entry_fields = []\<rparr> = (1, 1)"
      "entry_key \<lparr>entry_id = id_str 5 0, entry_fields = []\<rparr> = (5, 0)"
    by (simp_all add: entry_key_printed)
  then show ?thesis
    using xread_after_xadd [OF a] canonical_single [of 1 1] by (simp add: canonical_def id_less_def del: xread.simps)
qed

text \<open>
  C40. An XADD that fails leaves the entries of the stream as they were; on a key that did not
  exist it leaves an empty stream behind, so that the key then exists.
\<close>

theorem xadd_failed:
  assumes "xadd wall d key i fs = (r, d')" "\<nexists>new_id. r = Inr (Inr new_id)"
  shows "(\<forall>k. stream_at d' k = stream_at d k) \<and>
    (um_find d key = None \<longrightarrow> um_find d' key = Some \<lparr>sval = VStream [], expires_at = None\<rparr>)"
proof
  show "\<forall>k. stream_at d' k = stream_at d k"
    using assms(1) by (cases rule: xadd_cases) (use assms(2) in auto)
  show "um_find d key = None \<longrightarrow> um_find d' key = Some \<lparr>sval = VStream [], expires_at = None\<rparr>"
    using assms
    by (intro impI) (auto simp: xadd_def stream_slot_def default_value_def Let_def split: sum.splits cpp_exn.splits)
qed

theorem xadd_failed_witness:
  "xadd 0 [] ''k'' ''x'' [] =
     (Inr (Inl ''-ERR Invalid stream ID specified''), [(''k'', \<lparr>sval = VStream [], expires_at = None\<rparr>)]) \<and>
   um_find [(''k'', \<lparr>sval = VStream [], expires_at = None\<rparr>)] ''k'' = Some \<lparr>sval = VStream [], expires_at = None\<rparr>"
proof -
  have x: "xadd 0 [] ''k'' ''x'' [] =
     (Inr (Inl ''-ERR Invalid stream ID specified''), [(''k'', \<lparr>sval = VStream [], expires_at = None\<rparr>)])"
    by (simp add: xadd_def stream_slot_def default_value_def generate_stream_id_def parse_stream_id_def
        find_dash_def um_put_def)
  show ?thesis using x xadd_failed [OF x] by simp
qed

end
