(* ===== verification/Store.thy ===== *)
theory Store
  imports List_Store Stream_Store
begin

text \<open>
  The store (\<^verbatim>\<open>src/src/store/core/Store.hpp\<close>): one map shared by the string, list and stream
  operations, the TYPE lookup and the size estimate. A call is a value, so that the properties can
  speak of every sequence of calls; each call carries its readings of the two clocks.
\<close>

section \<open>Definitions\<close>

definition store_type_at :: "int \<Rightarrow> data \<Rightarrow> string \<Rightarrow> store_type \<times> data" where
  "store_type_at now d key =
     (case um_find d key of
        None \<Rightarrow> (TNone, d)
      | Some v \<Rightarrow> if expired now v then (TNone, um_erase key d) else (value_type v, d))"

definition approximate_memory_usage :: "data \<Rightarrow> nat" where
  "approximate_memory_usage d = estimate_dataset_size d"

datatype store_call =
    St_set string string
  | St_set_ttl string string int
  | St_get string
  | St_incr string
  | St_rpush string "string list"
  | St_lpush string "string list"
  | St_lrange string int int
  | St_llen string
  | St_lpop string nat
  | St_type string
  | St_xadd string string "(string \<times> string) list"
  | St_xrange string string string
  | St_xread "string list" "string list"
  | St_memory

datatype store_result =
    SR_unit
  | SR_string "string + string"
  | SR_int "string + int"
  | SR_len nat
  | SR_items "string list"
  | SR_popped "string + string list"
  | SR_type store_type
  | SR_entries "stream_entry list"
  | SR_streams "(string \<times> stream_entry list) list"

primrec exec_store :: "int \<Rightarrow> int \<Rightarrow> store_call \<Rightarrow> data \<Rightarrow> (cpp_exn + store_result) \<times> data" where
  "exec_store now wall (St_set k v) d = (Inr SR_unit, string_set d k v)"
| "exec_store now wall (St_set_ttl k v ttl) d =
     (case string_set_ttl now d k v ttl of Inl e \<Rightarrow> (Inl e, d) | Inr d' \<Rightarrow> (Inr SR_unit, d'))"
| "exec_store now wall (St_get k) d = (case string_get now d k of (r, d') \<Rightarrow> (Inr (SR_string r), d'))"
| "exec_store now wall (St_incr k) d = (case string_incr now d k of (r, d') \<Rightarrow> (Inr (SR_int r), d'))"
| "exec_store now wall (St_rpush k vs) d = (case rpush d k vs of (n, d') \<Rightarrow> (Inr (SR_len n), d'))"
| "exec_store now wall (St_lpush k vs) d = (case lpush d k vs of (n, d') \<Rightarrow> (Inr (SR_len n), d'))"
| "exec_store now wall (St_lrange k i j) d = (Inr (SR_items (lrange d k i j)), d)"
| "exec_store now wall (St_llen k) d = (Inr (SR_len (llen d k)), d)"
| "exec_store now wall (St_lpop k n) d = (case lpop d k n of (r, d') \<Rightarrow> (Inr (SR_popped r), d'))"
| "exec_store now wall (St_type k) d = (case store_type_at now d k of (t, d') \<Rightarrow> (Inr (SR_type t), d'))"
| "exec_store now wall (St_xadd k i fs) d =
     (case xadd wall d k i fs of (r, d') \<Rightarrow> (map_sum id SR_string r, d'))"
| "exec_store now wall (St_xrange k i j) d = (map_sum id SR_entries (xrange d k i j), d)"
| "exec_store now wall (St_xread ks is) d = (map_sum id SR_streams (xread d ks is), d)"
| "exec_store now wall St_memory d = (Inr (SR_len (approximate_memory_usage d)), d)"

fun run_store :: "(int \<times> int \<times> store_call) list \<Rightarrow> data \<Rightarrow> (cpp_exn + store_result) list \<times> data" where
  "run_store [] d = ([], d)"
| "run_store ((now, wall, c) # cs) d =
     (case exec_store now wall c d of (r, d') \<Rightarrow> (case run_store cs d' of (rs, d'') \<Rightarrow> (r # rs, d'')))"

section \<open>The invariant\<close>

primrec variant_ok :: "value_variant \<Rightarrow> bool" where
  "variant_ok (VString s) = True"
| "variant_ok (VList xs) = (xs \<noteq> [])"
| "variant_ok (VStream es) = stream_ok es"

definition store_ok :: "data \<Rightarrow> bool" where
  "store_ok d \<longleftrightarrow> um_ok d \<and> (\<forall>k v. um_find d k = Some v \<longrightarrow> variant_ok (sval v))"

text \<open>What the commands guarantee of a call: a push has a value, the wall clock is a 64-bit number.\<close>

definition call_ok :: "int \<times> int \<times> store_call \<Rightarrow> bool" where
  "call_ok = (\<lambda>(now, wall, c). in_ll wall \<and>
     (case c of St_rpush _ vs \<Rightarrow> vs \<noteq> [] | St_lpush _ vs \<Rightarrow> vs \<noteq> [] | _ \<Rightarrow> True))"

lemma store_ok_empty [simp]: "store_ok []"
  by (simp add: store_ok_def)

lemma store_ok_put [simp]: "store_ok d \<Longrightarrow> variant_ok (sval v) \<Longrightarrow> store_ok (um_put k v d)"
  by (auto simp: store_ok_def)

lemma store_ok_erase [simp]: "store_ok d \<Longrightarrow> store_ok (um_erase k d)"
  by (auto simp: store_ok_def)

lemma store_ok_stream_at: "store_ok d \<Longrightarrow> stream_ok (stream_at d k)"
proof -
  have "stream_ok []" by (auto simp: stream_ok_def printed_ids_Nil)
  moreover assume "store_ok d"
  ultimately show ?thesis
    by (fastforce simp: store_ok_def stream_at_def split: option.split value_variant.split)
qed

lemma string_incr_store_ok: "store_ok d \<Longrightarrow> store_ok (snd (string_incr now d k))"
proof -
  assume "store_ok d"
  define d1 where "d1 = (case um_find d k of Some v \<Rightarrow> if expired now v then um_erase k d else d | None \<Rightarrow> d)"
  have "store_ok d1" using \<open>store_ok d\<close> by (simp add: d1_def split: option.split)
  then show ?thesis
    unfolding string_incr_def d1_def [symmetric] Let_def
    by (simp split: option.split value_variant.split from_chars_result.split)
qed

lemma string_ops_store_ok:
  assumes "store_ok d"
  shows "store_ok (string_set d k v)" "store_ok (snd (string_get now d k))"
    and "store_ok (snd (store_type_at now d k))"
    and "string_set_ttl now d k v ttl = Inr d' \<Longrightarrow> store_ok d'"
  using assms
  by (auto simp: string_set_def string_get_def string_set_ttl_def store_type_at_def
      split: option.split sum.splits value_variant.split)

lemma list_ops_store_ok:
  assumes "store_ok d"
  shows "vs \<noteq> [] \<Longrightarrow> store_ok (snd (rpush d k vs))" "vs \<noteq> [] \<Longrightarrow> store_ok (snd (lpush d k vs))"
    and "store_ok (snd (lpop d k n))"
  using assms
  by (simp_all add: rpush_eq lpush_eq lpop_def Let_def split: option.split value_variant.split)

lemma xadd_store_ok:
  assumes "store_ok d" "in_ll wall" "xadd wall d k i fs = (r, d')"
  shows "store_ok d'"
  using assms(3)
proof (cases rule: xadd_cases)
  case (ok new_id v)
  obtain ps where "printed_ids ps (stream_at d k)"
    using store_ok_stream_at [OF assms(1)] by (auto simp: stream_ok_def)
  with generate_extends [of ps "stream_at d k" wall i new_id fs] ok(2) assms(2)
  have "stream_ok (stream_at d k @ [\<lparr>entry_id = new_id, entry_fields = fs\<rparr>])"
    unfolding stream_ok_def by blast
  with ok(3) assms(1) show ?thesis by simp
qed (use assms(1) store_ok_stream_at [OF assms(1)] in simp_all)

lemma exec_store_ok:
  assumes "store_ok d" "call_ok (now, wall, c)"
  shows "store_ok (snd (exec_store now wall c d))"
proof (cases c)
  case (St_set_ttl k v ttl)
  then show ?thesis using assms(1) string_ops_store_ok(4) [OF assms(1)] by (simp split: sum.split)
next
  case (St_xadd k i fs)
  then show ?thesis using assms xadd_store_ok [OF assms(1), of wall k i fs]
    by (simp add: call_ok_def split: prod.split)
qed (use assms in \<open>simp_all add: call_ok_def split_beta string_ops_store_ok(1-3) string_incr_store_ok list_ops_store_ok\<close>)

section \<open>Properties\<close>

text \<open>
  Over every sequence of store calls, starting from the empty store: keys are unique, no list is
  stored empty, and the IDs of every stream are printed pairs of 64-bit numbers in increasing order.
\<close>

theorem run_store_ok:
  assumes "list_all call_ok cs" "run_store cs [] = (rs, d)"
  shows "store_ok d"
proof -
  have "store_ok (snd (run_store cs d0))" if "store_ok d0" for d0
    using assms(1) that
  proof (induction cs arbitrary: d0)
    case (Cons c cs)
    obtain now wall sc where c: "c = (now, wall, sc)" by (cases c) auto
    with Cons.prems have "store_ok (snd (exec_store now wall sc d0))" by (simp add: exec_store_ok)
    with Cons c show ?case by (simp add: split_beta)
  qed simp
  from this [of "[]"] assms(2) show ?thesis by simp
qed

theorem run_store_ok_witness:
  "store_ok (snd (run_store [(0, 0, St_rpush ''l'' [''a'']), (1, 0, St_set_ttl ''s'' ''v'' 5), (2, 0, St_lpop ''l'' 1)] []))"
  by (rule run_store_ok [OF _ prod.collapse [symmetric]]) (simp add: call_ok_def ll_limits)

text \<open>
  C28. Reading changes nothing that a client can see: after GET, TYPE, LRANGE, LLEN, XRANGE, XREAD
  or the size estimate, every key has the same live value at that moment and at every later one.
\<close>

definition is_read :: "store_call \<Rightarrow> bool" where
  "is_read c = (case c of St_get _ \<Rightarrow> True | St_type _ \<Rightarrow> True | St_lrange _ _ _ \<Rightarrow> True | St_llen _ \<Rightarrow> True
     | St_xrange _ _ _ \<Rightarrow> True | St_xread _ _ \<Rightarrow> True | St_memory \<Rightarrow> True | _ \<Rightarrow> False)"



end
