(* ===== verification/Framing.thy ===== *)
theory Framing
  imports Redis_Prelude "HOL-Library.Sublist"
begin

text \<open>
  Messages on a byte stream: the interface between a wire format and a reader that takes messages
  off a buffer as they become complete. The provider is the RESP parser; the client is the loop of
  a replica over the commands of its master.
\<close>

section \<open>Taking messages off a buffer\<close>

text \<open>
  The messages at the start of a buffer with the bytes each of them took, what is left, and the
  error that ended the search, if there was one.
\<close>

function frames :: "(string \<Rightarrow> 'e + ('a \<times> nat) option) \<Rightarrow> string \<Rightarrow> ('a \<times> nat) list \<times> string \<times> 'e option" where
  "frames dec buffer =
     (case dec buffer of
        Inl e \<Rightarrow> ([], buffer, Some e)
      | Inr None \<Rightarrow> ([], buffer, None)
      | Inr (Some (v, n)) \<Rightarrow>
          if 0 < n \<and> n \<le> length buffer
          then (case frames dec (drop n buffer) of (vs, rest, err) \<Rightarrow> ((v, n) # vs, rest, err))
          else ([], buffer, None))"
  by pat_completeness auto

termination
  by (relation "measure (length \<circ> snd)") auto

declare frames.simps [simp del]

locale framed_codec =
  fixes enc :: "'a \<Rightarrow> string"
    and dec :: "string \<Rightarrow> 'e + ('a \<times> nat) option"
    and valid :: "'a \<Rightarrow> bool"
  assumes dec_Nil: "dec [] = Inr None"
    and dec_enc: "valid v \<Longrightarrow> dec (enc v @ r) = Inr (Some (v, length (enc v)))"
    and dec_short: "valid v \<Longrightarrow> strict_prefix p (enc v) \<Longrightarrow> dec p = Inr None"
    and dec_grow: "dec s \<noteq> Inr None \<Longrightarrow> dec (s @ t) = dec s"
    and dec_takes: "dec s = Inr (Some (v, n)) \<Longrightarrow> 0 < n \<and> n \<le> length s"
begin

lemma frames_step:
  "dec s = Inr (Some (v, n)) \<Longrightarrow>
     frames dec s = (case frames dec (drop n s) of (vs, rest, err) \<Rightarrow> ((v, n) # vs, rest, err))"
  using dec_takes by (subst frames.simps) simp

lemma frames_stop: "dec s = Inr None \<Longrightarrow> frames dec s = ([], s, None)"
  by (subst frames.simps) simp

lemma dec_message: "dec s = Inr (Some (v, n)) \<Longrightarrow> dec (s @ t) = Inr (Some (v, n))"
  using dec_grow [of s t] by simp

text \<open>Whatever was taken off the first part of a stream stays taken when the rest arrives.\<close>

lemma frames_append:
  "frames dec s = (vs, rest, None) \<Longrightarrow>
     frames dec (s @ t) = (case frames dec (rest @ t) of (ws, rest', err) \<Rightarrow> (vs @ ws, rest', err))"
proof (induction "length s" arbitrary: s vs rule: less_induct)
  case less
  consider (err) e where "dec s = Inl e" | (stop) "dec s = Inr None" | (msg) v n where "dec s = Inr (Some (v, n))"
    by (cases "dec s") (auto split: option.splits, metis not_Some_eq surj_pair)
  then show ?case
  proof cases
    case err
    with less.prems show ?thesis by (simp add: frames.simps)
  next
    case stop
    with less.prems show ?thesis by (simp add: frames_stop split: prod.split)
  next
    case (msg v n)
    obtain vs' where vs: "frames dec (drop n s) = (vs', rest, None)" "vs = (v, n) # vs'"
      using less.prems frames_step [OF msg] by (auto split: prod.splits)
    have "length (drop n s) < length s" using dec_takes [OF msg] by auto
    from less.hyps [OF this vs(1)] frames_step [OF dec_message [OF msg], of t] dec_takes [OF msg] vs(2)
    show ?thesis by (simp split: prod.split)
  qed
qed

text \<open>A stream of encoded messages, complete or cut short, gives exactly the complete ones.\<close>

lemma frames_enc:
  "list_all valid vs \<Longrightarrow>
     frames dec (concat (map enc vs) @ t) =
       (case frames dec t of (ws, rest, err) \<Rightarrow> (map (\<lambda>v. (v, length (enc v))) vs @ ws, rest, err))"
proof (induction vs)
  case (Cons v vs)
  then have d: "dec (enc v @ concat (map enc vs) @ t) = Inr (Some (v, length (enc v)))" by (simp add: dec_enc)
  show ?case using frames_step [OF d] Cons by (simp split: prod.split)
qed (simp split: prod.split)

lemma frames_cut:
  assumes "list_all valid vs" "p = [] \<or> valid v \<and> strict_prefix p (enc v)"
  shows "frames dec (concat (map enc vs) @ p) = (map (\<lambda>v. (v, length (enc v))) vs, p, None)"
  using frames_enc [OF assms(1), of p] frames_stop [of p] dec_short dec_Nil assms(2) by auto

end

end
