(* ===== verification/Resp.thy ===== *)
theory Resp
  imports Framing
begin

text \<open>
  The RESP2 value, its parser and its serializer (\<^verbatim>\<open>src/src/resp\<close>). The parser keeps the code's
  shape: a position into the input, a stack of arrays under construction and the value just read,
  in one loop. The stack is a list with \<^verbatim>\<open>stack.back()\<close> at its head.
\<close>

section \<open>Values\<close>

datatype resp_type = SimpleString | Integer | BulkString | Array | Null

datatype resp_value = RespValue (rtype: resp_type) (rstr: string) (elements: "resp_value list")

abbreviation Bulk :: "string \<Rightarrow> resp_value" where
  "Bulk s \<equiv> RespValue BulkString s []"

abbreviation NullValue :: resp_value where
  "NullValue \<equiv> RespValue Null [] []"

section \<open>Serializer\<close>

definition bulk_reply :: "string \<Rightarrow> string" where
  "bulk_reply s = CHR ''$'' # nat_str (length s) @ crlf @ s @ crlf"

fun serialize :: "resp_value \<Rightarrow> string" where
  "serialize (RespValue SimpleString s es) = CHR ''+'' # s @ crlf"
| "serialize (RespValue Integer s es) = CHR '':'' # s @ crlf"
| "serialize (RespValue BulkString s es) = bulk_reply s"
| "serialize (RespValue Null s es) = ''$-1'' @ crlf"
| "serialize (RespValue Array s es) =
     CHR ''*'' # nat_str (length es) @ crlf @ concat (map serialize es)"

section \<open>Parser\<close>

record array_frame =
  fvalue :: resp_value
  remaining :: int

text \<open>The position of the first CR LF, as \<^verbatim>\<open>find("\r\n")\<close>.\<close>

fun find_crlf :: "string \<Rightarrow> nat option" where
  "find_crlf (a # b # r) = (if a = CR \<and> b = LF then Some 0 else map_option Suc (find_crlf (b # r)))"
| "find_crlf _ = None"

definition read_line :: "string \<Rightarrow> nat \<Rightarrow> (string \<times> nat) option" where
  "read_line input pos =
     (case find_crlf (drop pos input) of
        None \<Rightarrow> None
      | Some e \<Rightarrow> Some (take e (drop pos input), pos + e + 2))"

definition parse_int :: "string \<Rightarrow> int option" where
  "parse_int line = (case from_chars_int line of Num_ok v _ \<Rightarrow> Some v | _ \<Rightarrow> None)"

text \<open>
  A header with a count below \<open>-1\<close> reaches \<^verbatim>\<open>reserve(static_cast<std::size_t>(count))\<close>, far above
  \<^verbatim>\<open>max_size()\<close>, which throws. The result is the new position, stack and current value.
\<close>

definition handle_array_header ::
    "string \<Rightarrow> nat \<Rightarrow> array_frame list \<Rightarrow> cpp_exn + (nat \<times> array_frame list \<times> resp_value option) option" where
  "handle_array_header input pos stack =
     (case read_line input pos of
        None \<Rightarrow> Inr None
      | Some (line, pos') \<Rightarrow>
         (case parse_int line of
            None \<Rightarrow> Inr None
          | Some count \<Rightarrow>
              if count = -1 then Inr (Some (pos', stack, Some NullValue))
              else if count = 0 then Inr (Some (pos', stack, Some (RespValue Array [] [])))
              else if count < 0 then Inl (Length_error ''vector::reserve'')
              else Inr (Some (pos', \<lparr>fvalue = RespValue Array [] [], remaining = count\<rparr> # stack, None))))"

definition push_element :: "array_frame \<Rightarrow> resp_value \<Rightarrow> array_frame" where
  "push_element f v =
     \<lparr>fvalue = (case fvalue f of RespValue t s es \<Rightarrow> RespValue t s (es @ [v])), remaining = remaining f - 1\<rparr>"

text \<open>The loop of \<^verbatim>\<open>process_stack\<close>: close every array that is complete.\<close>

fun close_complete :: "array_frame list \<Rightarrow> array_frame list \<times> resp_value option" where
  "close_complete [] = ([], None)"
| "close_complete [f] = (if remaining f = 0 then ([], Some (fvalue f)) else ([f], None))"
| "close_complete (f # g # fs) =
     (if remaining f = 0 then close_complete (push_element g (fvalue f) # fs) else (f # g # fs, None))"

definition process_stack ::
    "array_frame \<Rightarrow> array_frame list \<Rightarrow> resp_value \<Rightarrow> array_frame list \<times> resp_value option" where
  "process_stack f fs v = close_complete (push_element f v # fs)"

definition parse_simple_string :: "string \<Rightarrow> nat \<Rightarrow> (resp_value \<times> nat) option" where
  "parse_simple_string input pos =
     (case read_line input pos of
        None \<Rightarrow> None
      | Some (line, pos') \<Rightarrow> Some (RespValue SimpleString line [], pos'))"

definition parse_integer :: "string \<Rightarrow> nat \<Rightarrow> (resp_value \<times> nat) option" where
  "parse_integer input pos =
     (case read_line input pos of
        None \<Rightarrow> None
      | Some (line, pos') \<Rightarrow> Some (RespValue Integer line [], pos'))"

text \<open>\<^verbatim>\<open>length + 2\<close> is an \<^verbatim>\<open>int\<close> addition.\<close>

definition parse_bulk_string :: "string \<Rightarrow> nat \<Rightarrow> cpp_exn + (resp_value \<times> nat) option" where
  "parse_bulk_string input pos =
     (case read_line input pos of
        None \<Rightarrow> Inr None
      | Some (line, pos') \<Rightarrow>
         (case parse_int line of
            None \<Rightarrow> Inr None
          | Some len \<Rightarrow>
              if len < 0 then Inr (Some (NullValue, pos'))
              else if length input < pos' + nat len + 2 then Inr None
              else if INT_MAX < len + 2 then Inl Signed_overflow
              else Inr (Some (Bulk (take (nat len) (drop pos' input)), pos' + nat len + 2))))"

text \<open>
  The part of the loop under \<^verbatim>\<open>if (!current_value)\<close>: read one value, or the header of an array.
  No current value in the result is the \<^verbatim>\<open>continue\<close> after an array header.
\<close>

definition fetch_value ::
    "string \<Rightarrow> nat \<Rightarrow> array_frame list \<Rightarrow> cpp_exn + (nat \<times> array_frame list \<times> resp_value option) option" where
  "fetch_value input pos stack =
     (if length input \<le> pos then Inr None
      else
        let type = input ! pos; pos1 = pos + 1
        in if type = CHR ''*'' then handle_array_header input pos1 stack
           else
             (case (if type = CHR '':'' then Inr (parse_integer input pos1)
                    else if type = CHR ''$'' then parse_bulk_string input pos1
                    else if type = CHR ''+'' then Inr (parse_simple_string input pos1)
                    else Inr None) of
                Inl e \<Rightarrow> Inl e
              | Inr None \<Rightarrow> Inr None
              | Inr (Some (v, pos')) \<Rightarrow> Inr (Some (pos', stack, Some v))))"

lemma handle_array_header_pos:
  "handle_array_header input pos stack = Inr (Some (pos', stack', cur)) \<Longrightarrow> pos < pos'"
  by (auto simp: handle_array_header_def read_line_def split: option.splits if_splits)

lemma parse_bulk_string_pos: "parse_bulk_string input pos = Inr (Some (v, pos')) \<Longrightarrow> pos < pos'"
  by (auto simp: parse_bulk_string_def read_line_def split: option.splits if_splits)

lemma fetch_value_pos:
  assumes "fetch_value input pos stack = Inr (Some (pos', stack', cur))"
  shows "pos < pos' \<and> pos < length input"
  using assms handle_array_header_pos parse_bulk_string_pos
  by (fastforce simp: fetch_value_def Let_def parse_integer_def parse_simple_string_def read_line_def
      split: if_splits option.splits sum.splits prod.splits)

lemma close_complete_result: "close_complete fs = (fs', Some v) \<Longrightarrow> fs' = []"
  by (induction fs rule: close_complete.induct) (auto split: if_splits)

function parse_loop ::
    "string \<Rightarrow> nat \<Rightarrow> array_frame list \<Rightarrow> resp_value option \<Rightarrow> cpp_exn + (resp_value \<times> nat) option" where
  "parse_loop input pos stack cur =
     (if \<not> (pos < length input \<or> stack \<noteq> []) then Inr (map_option (\<lambda>v. (v, pos)) cur)
      else
        (case (case cur of Some v \<Rightarrow> Inr (Some (pos, stack, Some v)) | None \<Rightarrow> fetch_value input pos stack) of
           Inl e \<Rightarrow> Inl e
         | Inr None \<Rightarrow> Inr None
         | Inr (Some (pos', stack', cur')) \<Rightarrow>
            (case cur' of
               None \<Rightarrow> parse_loop input pos' stack' None
             | Some v \<Rightarrow>
                (case stack' of
                   [] \<Rightarrow> Inr (Some (v, pos'))
                 | f # fs \<Rightarrow>
                    (case process_stack f fs v of (stack'', cur'') \<Rightarrow> parse_loop input pos' stack'' cur'')))))"
  by pat_completeness auto
termination
proof (relation "measure (\<lambda>(input, pos, stack, cur).
    3 * (length input - pos) + (case cur of None \<Rightarrow> 0 | Some _ \<Rightarrow> if stack = [] then 1 else 2))", goal_cases)
  case 1
  then show ?case by simp
next
  case (2 input pos stack cur b x pos')
  then show ?case
    by (cases cur) (auto dest: fetch_value_pos)
next
  case prems: (3 input pos stack cur b x pos' y stack' cur' v f fs stack'' cur'')
  show ?case
  proof (cases cur)
    case None
    with prems have "pos < pos'" "pos < length input" by (auto dest: fetch_value_pos)
    then show ?thesis using None by (auto split: option.split)
  next
    case (Some w)
    with prems have "pos' = pos" "stack = f # fs" by auto
    moreover have "stack'' = []" if "cur'' = Some u" for u
      using prems that by (metis process_stack_def close_complete_result)
    ultimately show ?thesis using Some by (auto split: option.split)
  qed
qed

declare parse_loop.simps [simp del]

text \<open>\<^verbatim>\<open>RespParser::parse\<close>: the value and the number of bytes it took.\<close>

definition parse :: "string \<Rightarrow> cpp_exn + (resp_value \<times> nat) option" where
  "parse input = (if input = [] then Inr None else parse_loop input 0 [] None)"

section \<open>Well-formed values\<close>

text \<open>
  The values the wire format can carry: a line holds no CR LF, lengths fit the parser's
  \<^verbatim>\<open>int\<close>, and the unused fields are empty, as \<^verbatim>\<open>RespValue.hpp\<close> says they are.
\<close>

fun wf_resp :: "resp_value \<Rightarrow> bool" where
  "wf_resp (RespValue SimpleString s es) \<longleftrightarrow> find_crlf s = None \<and> es = []"
| "wf_resp (RespValue Integer s es) \<longleftrightarrow> find_crlf s = None \<and> es = []"
| "wf_resp (RespValue BulkString s es) \<longleftrightarrow> length s < 2 ^ 31 - 2 \<and> es = []"
| "wf_resp (RespValue Null s es) \<longleftrightarrow> s = [] \<and> es = []"
| "wf_resp (RespValue Array s es) \<longleftrightarrow> s = [] \<and> length es < 2 ^ 31 \<and> list_all wf_resp es"

section \<open>Lines\<close>

lemma find_crlf_append: "find_crlf s = None \<Longrightarrow> find_crlf (s @ CR # LF # r) = Some (length s)"
  by (induction s rule: find_crlf.induct) (auto split: if_splits)

lemma find_crlf_Some_append: "find_crlf s = Some e \<Longrightarrow> find_crlf (s @ r) = Some e"
  by (induction s arbitrary: e rule: find_crlf.induct) (auto split: if_splits)

lemma find_crlf_bound: "find_crlf s = Some e \<Longrightarrow> e + 2 \<le> length s"
  by (induction s arbitrary: e rule: find_crlf.induct) (auto split: if_splits)

lemma find_crlf_no_LF: "LF \<notin> set s \<Longrightarrow> find_crlf s = None"
  by (induction s rule: find_crlf.induct) auto

lemma find_crlf_no_CR: "CR \<notin> set s \<Longrightarrow> find_crlf s = None"
  by (induction s rule: find_crlf.induct) auto

lemma find_crlf_prefix: "find_crlf s = None \<Longrightarrow> prefix p (s @ [CR]) \<Longrightarrow> find_crlf p = None"
proof (rule ccontr)
  assume s: "find_crlf s = None" and p: "prefix p (s @ [CR])" and "find_crlf p \<noteq> None"
  then obtain e where e: "find_crlf p = Some e" by auto
  from p obtain t where t: "s @ [CR] = p @ t" by (auto simp: prefix_def)
  have "find_crlf (s @ [CR, LF]) = Some e"
    using find_crlf_Some_append [OF e, of "t @ [LF]"] t by (metis append.assoc append_Cons append_Nil)
  with find_crlf_append [OF s, of "[]"] have "e = length s" by simp
  with find_crlf_bound [OF e] have "length s + 2 \<le> length p" by simp
  with prefix_length_le [OF p] show False by simp
qed

lemma nat_str_no_crlf [simp]: "find_crlf (nat_str n) = None"
  by (rule find_crlf_no_CR) (use nat_str_digits digit_neq in blast)

lemma read_line_append:
  assumes "drop pos input = s @ CR # LF # r" "find_crlf s = None"
  shows "read_line input pos = Some (s, pos + length s + 2)"
  using assms by (simp add: read_line_def find_crlf_append)

lemma parse_int_nat_str: "n < 2 ^ 31 \<Longrightarrow> parse_int (nat_str n) = Some (int n)"
  using from_chars_int_nat_str [of n "[]"] by (simp add: parse_int_def)

section \<open>The loop, one value at a time\<close>

text \<open>What the loop does once a value is complete: return it, or give it to the array on top.\<close>

definition parse_after ::
    "string \<Rightarrow> nat \<Rightarrow> array_frame list \<Rightarrow> resp_value \<Rightarrow> cpp_exn + (resp_value \<times> nat) option" where
  "parse_after input pos stack v =
     (case stack of
        [] \<Rightarrow> Inr (Some (v, pos))
      | f # fs \<Rightarrow> (case process_stack f fs v of (stack', cur) \<Rightarrow> parse_loop input pos stack' cur))"

lemma parse_loop_done: "parse_loop input pos [] (Some v) = Inr (Some (v, pos))"
  by (simp add: parse_loop.simps [of input pos "[]"])

lemma parse_loop_value:
  "fetch_value input pos stack = Inr (Some (pos', stack', Some v)) \<Longrightarrow>
   parse_loop input pos stack None = parse_after input pos' stack' v"
  using fetch_value_pos [of input pos stack]
  by (auto simp: parse_loop.simps [of input pos stack] parse_after_def split: list.split)

lemma parse_loop_header:
  "fetch_value input pos stack = Inr (Some (pos', stack', None)) \<Longrightarrow>
   parse_loop input pos stack None = parse_loop input pos' stack' None"
  using fetch_value_pos [of input pos stack] by (auto simp: parse_loop.simps [of input pos stack])

lemma parse_loop_short:
  "fetch_value input pos stack = Inr None \<Longrightarrow> parse_loop input pos stack None = Inr None"
  by (simp add: parse_loop.simps [of input pos stack])

lemma parse_loop_Some: "parse_loop input pos stack (Some v) = parse_after input pos stack v"
  by (simp add: parse_loop.simps [of input pos stack] parse_after_def split: list.split)

lemma parse_loop_None:
  "parse_loop input pos stack None =
     (case fetch_value input pos stack of
        Inl e \<Rightarrow> Inl e
      | Inr None \<Rightarrow> Inr None
      | Inr (Some (pos', stack', cur)) \<Rightarrow> parse_loop input pos' stack' cur)"
proof (cases "pos < length input \<or> stack \<noteq> []")
  case True
  then show ?thesis
    by (auto simp: parse_loop.simps [of input pos stack] parse_loop_Some parse_after_def
        split: sum.split option.split list.split)
next
  case False
  then show ?thesis by (simp add: parse_loop.simps [of input pos "[]"] fetch_value_def)
qed

text \<open>Induction along the loop: read a value, return it, or give it to the array on top.\<close>

lemma parse_loop_steps [case_names fetch return close]:
  assumes fetch: "\<And>pos stack. (\<And>pos' stack' c. fetch_value input pos stack = Inr (Some (pos', stack', c)) \<Longrightarrow>
      P pos' stack' c) \<Longrightarrow> P pos stack None"
    and return: "\<And>pos v. P pos [] (Some v)"
    and close: "\<And>pos f fs v stack' c. process_stack f fs v = (stack', c) \<Longrightarrow> P pos stack' c \<Longrightarrow> P pos (f # fs) (Some v)"
  shows "P pos stack cur"
proof (induction "3 * (length input - pos) + (case cur of None \<Rightarrow> 0 | Some _ \<Rightarrow> if stack = [] then 1 else 2)"
    arbitrary: pos stack cur rule: less_induct)
  case less
  show ?case
  proof (cases cur)
    case None
    have "P pos' stack' c" if f: "fetch_value input pos stack = Inr (Some (pos', stack', c))" for pos' stack' c
      using fetch_value_pos [OF f] None by (intro less) (auto split: option.split)
    then show ?thesis unfolding None by (rule fetch)
  next
    case (Some v)
    show ?thesis
    proof (cases stack)
      case Nil
      then show ?thesis unfolding Some by (simp add: return)
    next
      case (Cons f fs)
      obtain stack' c where p: "process_stack f fs v = (stack', c)" by fastforce
      have "P pos stack' c"
        using close_complete_result [of "push_element f v # fs" stack'] p Cons Some
        by (intro less) (auto simp: process_stack_def split: option.split)
      with close [OF p] show ?thesis by (simp add: Cons Some)
    qed
  qed
qed

lemma close_complete_full:
  "remaining f = 0 \<Longrightarrow>
   (case close_complete (f # stack) of (st, c) \<Rightarrow> parse_loop input pos st c) = parse_after input pos stack (fvalue f)"
  by (cases stack) (simp_all add: parse_after_def parse_loop_done process_stack_def)

lemma close_complete_open: "remaining f \<noteq> 0 \<Longrightarrow> close_complete (f # stack) = (f # stack, None)"
  by (cases stack) simp_all

lemma drop_ConsD:
  assumes "drop pos input = c # r"
  shows "pos < length input" "input ! pos = c" "drop (Suc pos) input = r"
proof -
  show p: "pos < length input" using assms by (metis drop_all leI list.distinct(1))
  then show "input ! pos = c" "drop (Suc pos) input = r"
    using assms Cons_nth_drop_Suc [OF p] by simp_all
qed

lemma drop_appendD: "drop p xs = a @ b \<Longrightarrow> drop (p + length a) xs = b"
  by (metis append_eq_conv_conj drop_drop add.commute)

lemma drop_append_bound: "drop p xs = a @ b \<Longrightarrow> a \<noteq> [] \<Longrightarrow> p + length a \<le> length xs"
  by (drule arg_cong [where f = length], cases a) auto

text \<open>Reading one value that is no array, or an empty one.\<close>

lemma fetch_scalar:
  assumes "wf_resp v" "rtype v \<noteq> Array \<or> elements v = []" "drop pos input = serialize v @ r"
  shows "fetch_value input pos stack = Inr (Some (pos + length (serialize v), stack, Some v))"
  using assms
proof (induction v rule: wf_resp.induct)
  case (1 s es)
  then have d: "drop pos input = CHR ''+'' # s @ CR # LF # r" by simp
  from read_line_append [OF drop_ConsD(3) [OF d]] 1 drop_ConsD(1,2) [OF d] show ?case
    by (simp add: fetch_value_def parse_simple_string_def Let_def)
next
  case (2 s es)
  then have d: "drop pos input = CHR '':'' # s @ CR # LF # r" by simp
  from read_line_append [OF drop_ConsD(3) [OF d]] 2 drop_ConsD(1,2) [OF d] show ?case
    by (simp add: fetch_value_def parse_integer_def Let_def)
next
  case (3 s es)
  then have d: "drop pos input = CHR ''$'' # nat_str (length s) @ CR # LF # s @ CR # LF # r"
    by (simp add: bulk_reply_def)
  let ?p = "Suc pos + length (nat_str (length s)) + 2"
  have l: "read_line input (Suc pos) = Some (nat_str (length s), ?p)"
    by (rule read_line_append [OF drop_ConsD(3) [OF d]]) simp
  have b: "drop ?p input = s @ CR # LF # r"
    using drop_appendD [of "Suc pos" input "nat_str (length s) @ crlf"] drop_ConsD(3) [OF d] by simp
  then have "?p + (length s + 2) \<le> length input"
    using drop_append_bound [of ?p input "s @ crlf" r] by simp
  with l b 3 drop_ConsD(1,2) [OF d] show ?case
    by (simp add: fetch_value_def parse_bulk_string_def parse_int_nat_str Let_def bulk_reply_def ll_limits)
next
  case (4 s es)
  then have d: "drop pos input = CHR ''$'' # ''-1'' @ CR # LF # r" by simp
  have "read_line input (Suc pos) = Some (''-1'', Suc pos + 4)"
    using read_line_append [OF drop_ConsD(3) [OF d]] by simp
  moreover have "parse_int ''-1'' = Some (-1)" by code_simp
  ultimately show ?case using 4 drop_ConsD(1,2) [OF d]
    by (simp add: fetch_value_def parse_bulk_string_def Let_def)
next
  case (5 s es)
  then have d: "drop pos input = CHR ''*'' # nat_str 0 @ CR # LF # r" by simp
  with read_line_append [OF drop_ConsD(3) [OF d]] 5 drop_ConsD(1,2) [OF d] parse_int_nat_str [of 0] show ?case
    by (simp add: fetch_value_def handle_array_header_def Let_def)
qed

lemma fetch_array_header:
  assumes "0 < n" "n < 2 ^ 31" "drop pos input = CHR ''*'' # nat_str n @ CR # LF # r"
  shows "fetch_value input pos stack =
      Inr (Some (pos + length (nat_str n) + 3,
                 \<lparr>fvalue = RespValue Array [] [], remaining = int n\<rparr> # stack, None))"
    and "drop (pos + length (nat_str n) + 3) input = r"
proof -
  note d = assms(3)
  from read_line_append [OF drop_ConsD(3) [OF d]] assms drop_ConsD(1,2) [OF d]
  show "fetch_value input pos stack =
      Inr (Some (pos + length (nat_str n) + 3,
                 \<lparr>fvalue = RespValue Array [] [], remaining = int n\<rparr> # stack, None))"
    by (simp add: fetch_value_def handle_array_header_def parse_int_nat_str Let_def)
  show "drop (pos + length (nat_str n) + 3) input = r"
    using drop_appendD [of pos input "CHR ''*'' # nat_str n @ crlf"] d by (simp add: numeral_3_eq_3)
qed

text \<open>The elements of an array, given that the loop reads each of them.\<close>

lemma parse_elements:
  assumes reads: "\<And>e pos stack r. e \<in> set es \<Longrightarrow> drop pos input = serialize e @ r \<Longrightarrow>
      parse_loop input pos stack None = parse_after input (pos + length (serialize e)) stack e"
    and "es \<noteq> []" "remaining f = int (length es)" "fvalue f = RespValue Array s ds"
    and "drop pos input = concat (map serialize es) @ r"
  shows "parse_loop input pos (f # stack) None =
      parse_after input (pos + length (concat (map serialize es))) stack (RespValue Array s (ds @ es))"
  using assms
proof (induction es arbitrary: f pos ds)
  case Nil
  then show ?case by simp
next
  case (Cons e es)
  let ?p = "pos + length (serialize e)" and ?f = "push_element f e"
  have f: "remaining ?f = int (length es)" "fvalue ?f = RespValue Array s (ds @ [e])"
    using Cons.prems by (simp_all add: push_element_def)
  have d: "drop pos input = serialize e @ concat (map serialize es) @ r"
    using Cons.prems(5) by simp
  have step: "parse_loop input pos (f # stack) None =
      (case close_complete (?f # stack) of (st, c) \<Rightarrow> parse_loop input ?p st c)"
    using Cons.prems(1) [OF _ d] by (simp add: parse_after_def process_stack_def)
  show ?case
  proof (cases "es = []")
    case True
    with step f show ?thesis by (simp add: close_complete_full)
  next
    case False
    have "parse_loop input ?p (?f # stack) None =
        parse_after input (?p + length (concat (map serialize es))) stack (RespValue Array s ((ds @ [e]) @ es))"
      using Cons.prems(1) False f drop_appendD [OF d] by (intro Cons.IH) auto
    with step False f show ?thesis by (simp add: close_complete_open add.assoc)
  qed
qed

lemma parse_loop_serialize:
  assumes "wf_resp v" "drop pos input = serialize v @ r"
  shows "parse_loop input pos stack None = parse_after input (pos + length (serialize v)) stack v"
  using assms
proof (induction v arbitrary: pos stack r)
  case (RespValue t s es)
  show ?case
  proof (cases "t = Array \<and> es \<noteq> []")
    case False
    then show ?thesis
      using fetch_scalar [OF RespValue.prems(1) _ RespValue.prems(2)] by (auto intro: parse_loop_value)
  next
    case True
    with RespValue.prems have wf: "s = []" "length es < 2 ^ 31" "\<And>e. e \<in> set es \<Longrightarrow> wf_resp e"
      by (auto simp: list_all_iff)
    then have d: "drop pos input = CHR ''*'' # nat_str (length es) @ CR # LF # concat (map serialize es) @ r"
      using RespValue.prems(2) True by simp
    note hd = fetch_array_header [OF _ wf(2) d]
    have "parse_loop input pos stack None =
        parse_after input (pos + length (nat_str (length es)) + 3 + length (concat (map serialize es)))
          stack (RespValue Array [] ([] @ es))"
      using True wf hd RespValue.IH
      by (subst parse_loop_header [OF hd(1)], simp) (intro parse_elements, auto)
    with True wf show ?thesis by (simp add: numeral_3_eq_3 add.assoc)
  qed
qed

section \<open>Incomplete input\<close>

lemma strict_prefix_line:
  assumes "strict_prefix q (s @ CR # LF # t)"
  obtains "prefix q (s @ [CR])" | q' where "q = s @ CR # LF # q'" "strict_prefix q' t"
proof -
  have "prefix q (s @ [CR]) \<or> (\<exists>q'. q = (s @ [CR]) @ q' \<and> q' \<noteq> [])"
    using assms by (auto simp: strict_prefix_def prefix_append prefix_Cons)
  moreover have "\<exists>q''. q' = LF # q'' \<and> strict_prefix q'' t" if "q = (s @ [CR]) @ q'" "q' \<noteq> []" for q'
    using assms that by (cases q') (auto simp: strict_prefix_def)
  ultimately show ?thesis using that by force
qed

lemma read_line_short:
  "find_crlf s = None \<Longrightarrow> prefix (drop pos input) (s @ [CR]) \<Longrightarrow> read_line input pos = None"
  by (simp add: read_line_def find_crlf_prefix)

lemma fetch_scalar_short:
  assumes "wf_resp v" "rtype v \<noteq> Array \<or> elements v = []" "strict_prefix (drop pos input) (serialize v)"
  shows "fetch_value input pos stack = Inr None"
proof (cases "drop pos input")
  case Nil
  then show ?thesis by (simp add: fetch_value_def)
next
  case (Cons c q)
  note d = drop_ConsD [OF Cons]
  show ?thesis using assms
  proof (induction v rule: wf_resp.induct)
    case (1 s es)
    with Cons have "c = CHR ''+''" "strict_prefix q (s @ CR # LF # [])" by (auto simp: strict_prefix_def)
    with 1 d read_line_short [of s "Suc pos" input] show ?case
      by (elim strict_prefix_line) (auto simp: fetch_value_def parse_simple_string_def)
  next
    case (2 s es)
    with Cons have "c = CHR '':''" "strict_prefix q (s @ CR # LF # [])" by (auto simp: strict_prefix_def)
    with 2 d read_line_short [of s "Suc pos" input] show ?case
      by (elim strict_prefix_line) (auto simp: fetch_value_def parse_integer_def)
  next
    case (3 s es)
    let ?n = "nat_str (length s)"
    from 3 Cons have "c = CHR ''$''" and q: "strict_prefix q (?n @ CR # LF # s @ crlf)"
      by (auto simp: strict_prefix_def bulk_reply_def)
    from q show ?case
    proof (cases rule: strict_prefix_line)
      case 1
      with \<open>c = _\<close> d read_line_short [of ?n "Suc pos" input] show ?thesis
        by (simp add: fetch_value_def parse_bulk_string_def)
    next
      case (2 q')
      then have "read_line input (Suc pos) = Some (?n, Suc pos + length ?n + 2)"
        using d by (intro read_line_append) auto
      moreover have "length input < Suc pos + length ?n + 2 + length s + 2"
        using 2 d(1) arg_cong [OF d(3), of length] prefix_length_less [OF 2(2)] by simp
      ultimately show ?thesis using \<open>c = _\<close> d 3
        by (simp add: fetch_value_def parse_bulk_string_def parse_int_nat_str Let_def)
    qed
  next
    case (4 s es)
    with Cons have "c = CHR ''$''" "strict_prefix q (''-1'' @ CR # LF # [])" by (auto simp: strict_prefix_def)
    with 4 d read_line_short [of "''-1''" "Suc pos" input] show ?case
      by (elim strict_prefix_line) (auto simp: fetch_value_def parse_bulk_string_def)
  next
    case (5 s es)
    with Cons have "c = CHR ''*''" "strict_prefix q (nat_str 0 @ CR # LF # [])" by (auto simp: strict_prefix_def)
    with 5 d read_line_short [of "nat_str 0" "Suc pos" input] show ?case
      by (elim strict_prefix_line) (auto simp: fetch_value_def handle_array_header_def)
  qed
qed

lemma strict_prefix_appendE:
  assumes "strict_prefix q (a @ b)"
  obtains "strict_prefix q a" | q' where "q = a @ q'" "strict_prefix q' b"
  using assms by (cases "q = a") (force simp: strict_prefix_def prefix_append)+

lemma parse_elements_short:
  assumes short: "\<And>e pos stack. e \<in> set es \<Longrightarrow> strict_prefix (drop pos input) (serialize e) \<Longrightarrow>
      parse_loop input pos stack None = Inr None"
    and "\<And>e. e \<in> set es \<Longrightarrow> wf_resp e"
    and "remaining f = int (length es)" "strict_prefix (drop pos input) (concat (map serialize es))"
  shows "parse_loop input pos (f # stack) None = Inr None"
  using assms
proof (induction es arbitrary: f pos)
  case Nil
  then show ?case by simp
next
  case (Cons e es)
  from Cons.prems(4) have "strict_prefix (drop pos input) (serialize e @ concat (map serialize es))" by simp
  then show ?case
  proof (cases rule: strict_prefix_appendE)
    case 1
    then show ?thesis by (intro Cons.prems(1)) auto
  next
    case (2 q')
    let ?f = "push_element f e"
    have "remaining ?f = int (length es)" "es \<noteq> []"
      using Cons.prems(3) 2(2) by (auto simp: push_element_def)
    moreover have "parse_loop input (pos + length (serialize e)) (?f # stack) None = Inr None"
      using Cons.prems calculation drop_appendD [OF 2(1)] 2(2) by (intro Cons.IH) auto
    ultimately show ?thesis
      using parse_loop_serialize [of e pos input q' "f # stack"] Cons.prems(2) 2(1)
      by (simp add: parse_after_def process_stack_def close_complete_open)
  qed
qed

lemma parse_loop_short_input:
  assumes "wf_resp v" "strict_prefix (drop pos input) (serialize v)"
  shows "parse_loop input pos stack None = Inr None"
  using assms
proof (induction v arbitrary: pos stack)
  case (RespValue t s es)
  show ?case
  proof (cases "t = Array \<and> es \<noteq> []")
    case False
    then show ?thesis
      using fetch_scalar_short [OF RespValue.prems(1) _ RespValue.prems(2)] by (auto intro: parse_loop_short)
  next
    case True
    with RespValue.prems have wf: "s = []" "length es < 2 ^ 31" "\<And>e. e \<in> set es \<Longrightarrow> wf_resp e"
      by (auto simp: list_all_iff)
    let ?n = "nat_str (length es)"
    show ?thesis
    proof (cases "drop pos input")
      case Nil
      then show ?thesis by (simp add: parse_loop_short fetch_value_def)
    next
      case (Cons c q)
      with RespValue.prems True have c: "c = CHR ''*''"
        and q: "strict_prefix q (?n @ CR # LF # concat (map serialize es))"
        by (auto simp: strict_prefix_def)
      from q show ?thesis
      proof (cases rule: strict_prefix_line)
        case 1
        with c drop_ConsD [OF Cons] read_line_short [of ?n "Suc pos" input] show ?thesis
          by (intro parse_loop_short) (simp add: fetch_value_def handle_array_header_def)
      next
        case (2 q')
        with Cons c have "drop pos input = CHR ''*'' # ?n @ CR # LF # q'" by simp
        note hd = fetch_array_header [OF _ wf(2) this]
        from True wf hd 2 RespValue.IH show ?thesis
          by (subst parse_loop_header [OF hd(1)], simp) (intro parse_elements_short, auto)
      qed
    qed
  qed
qed

section \<open>More input\<close>

lemma read_line_extend:
  assumes "read_line input pos = Some (line, pos')"
  shows "read_line (input @ t) pos = Some (line, pos')" and "pos' \<le> length input"
proof -
  from assms obtain e where e: "find_crlf (drop pos input) = Some e"
      and r: "line = take e (drop pos input)" "pos' = pos + e + 2"
    by (auto simp: read_line_def split: option.splits)
  from find_crlf_bound [OF e] have b: "e + 2 \<le> length input - pos" by simp
  then show "pos' \<le> length input" using r by simp
  show "read_line (input @ t) pos = Some (line, pos')"
    using find_crlf_Some_append [OF e] b r by (simp add: read_line_def)
qed

lemma fetch_value_extend:
  assumes "fetch_value input pos stack = r" "r \<noteq> Inr None"
  shows "fetch_value (input @ t) pos stack = r"
proof -
  have p: "pos < length input"
    by (rule ccontr) (use assms in \<open>simp add: fetch_value_def\<close>)
  have n: "(input @ t) ! pos = input ! pos" using p by (simp add: nth_append)
  have rl: "read_line input (Suc pos) \<noteq> None"
    by (rule notI) (use assms p in \<open>simp add: fetch_value_def Let_def handle_array_header_def
      parse_integer_def parse_simple_string_def parse_bulk_string_def split: if_splits\<close>)
  then obtain line pos' where l: "read_line input (Suc pos) = Some (line, pos')" by auto
  note x = read_line_extend(1) [OF l, of t] read_line_extend(2) [OF l]
  show ?thesis
    using assms p n l x
    by (auto simp: fetch_value_def Let_def handle_array_header_def parse_integer_def
        parse_simple_string_def parse_bulk_string_def split: option.splits if_splits)
qed

lemma fetch_value_bound:
  assumes "fetch_value input pos stack = Inr (Some (pos', stack', cur))"
  shows "pos' \<le> length input"
  using assms read_line_extend(2) [of input "Suc pos"]
  by (auto simp: fetch_value_def Let_def handle_array_header_def parse_integer_def
      parse_simple_string_def parse_bulk_string_def split: option.splits if_splits sum.splits)

lemma parse_loop_extend:
  "parse_loop input pos stack cur \<noteq> Inr None \<Longrightarrow> parse_loop (input @ t) pos stack cur = parse_loop input pos stack cur"
proof (induction pos stack cur rule: parse_loop_steps [of input])
  case (fetch pos stack)
  then have ne: "fetch_value input pos stack \<noteq> Inr None" by (auto simp: parse_loop_None)
  note f = fetch_value_extend [OF refl ne, of t]
  show ?case
  proof (cases "fetch_value input pos stack")
    case (Inl e)
    with f show ?thesis by (simp add: parse_loop_None)
  next
    case (Inr m)
    with ne obtain pos' stack' c where m: "fetch_value input pos stack = Inr (Some (pos', stack', c))" by (cases m) auto
    with fetch.prems have "parse_loop input pos' stack' c \<noteq> Inr None" by (auto simp: parse_loop_None)
    from fetch.IH [OF m this] m f show ?thesis by (simp add: parse_loop_None)
  qed
qed (simp_all add: parse_loop_Some parse_after_def)

lemma parse_loop_bound:
  "parse_loop input pos stack cur = Inr (Some (v, n)) \<Longrightarrow> pos \<le> length input \<Longrightarrow>
   pos \<le> n \<and> n \<le> length input \<and> (cur = None \<longrightarrow> pos < n)"
proof (induction pos stack cur rule: parse_loop_steps [of input])
  case (fetch pos stack)
  then obtain pos' stack' c where f: "fetch_value input pos stack = Inr (Some (pos', stack', c))"
      and l: "parse_loop input pos' stack' c = Inr (Some (v, n))"
    by (auto simp: parse_loop_None split: sum.splits option.splits)
  from fetch.IH [OF f l] fetch_value_pos [OF f] fetch_value_bound [OF f] show ?case by auto
qed (auto simp: parse_loop_Some parse_after_def)

lemma parse_wf:
  assumes "wf_resp v"
  shows "parse (serialize v @ r) = Inr (Some (v, length (serialize v)))"
proof -
  have "serialize v \<noteq> []" by (induction v rule: serialize.induct) (simp_all add: bulk_reply_def)
  then show ?thesis
    using parse_loop_serialize [OF assms, of 0 "serialize v @ r" r "[]"]
    by (simp add: parse_def parse_after_def)
qed

lemma parse_grow: "parse input \<noteq> Inr None \<Longrightarrow> parse (input @ t) = parse input"
  using parse_loop_extend [of input 0 "[]" None t] by (auto simp: parse_def split: if_splits)

lemma parse_takes: "parse input = Inr (Some (v, n)) \<Longrightarrow> 0 < n \<and> n \<le> length input"
  using parse_loop_bound [of input 0 "[]" None v n] by (auto simp: parse_def split: if_splits)

text \<open>The parser and the serializer are a codec of messages.\<close>

interpretation resp: framed_codec serialize parse wf_resp
proof
  show "parse [] = Inr None" by (simp add: parse_def)
  show "parse p = Inr None" if "wf_resp v" "strict_prefix p (serialize v)" for v p
    using parse_loop_short_input [of v 0 p "[]"] that by (simp add: parse_def)
qed (use parse_wf parse_grow parse_takes in blast)+

section \<open>Properties\<close>

text \<open>
  C5. Whatever follows a serialized value on the wire, the parser returns that value and the
  number of bytes it takes: the bytes of the value and none of what follows.
\<close>

theorem parse_serialize:
  assumes "wf_resp v"
  shows "parse (serialize v @ r) = Inr (Some (v, length (serialize v)))"
  using assms by (rule resp.dec_enc)

theorem parse_serialize_witness:
  "wf_resp (RespValue Array [] [Bulk ''GET'', Bulk ''k'']) \<and>
   parse (serialize (RespValue Array [] [Bulk ''GET'', Bulk ''k'']) @ ''*1'') =
     Inr (Some (RespValue Array [] [Bulk ''GET'', Bulk ''k''],
                length (serialize (RespValue Array [] [Bulk ''GET'', Bulk ''k'']))))"
proof -
  have wf: "wf_resp (RespValue Array [] [Bulk ''GET'', Bulk ''k''])" by simp
  show ?thesis using wf parse_serialize [OF wf] by blast
qed

text \<open>
  No proper prefix of a serialized value is taken for a value or for an error: the parser
  reports that more bytes are needed.
\<close>

theorem parse_incomplete:
  assumes "wf_resp v" "strict_prefix p (serialize v)"
  shows "parse p = Inr None"
  using assms by (rule resp.dec_short)

theorem parse_incomplete_witness:
  "wf_resp (Bulk ''ab'') \<and> strict_prefix (CHR ''$'' # ''2'') (serialize (Bulk ''ab'')) \<and>
   parse (CHR ''$'' # ''2'') = Inr None"
proof -
  have wf: "wf_resp (Bulk ''ab'')" by simp
  have p: "strict_prefix (CHR ''$'' # ''2'') (serialize (Bulk ''ab''))"
    by (simp add: bulk_reply_def nat_str.simps num_simps)
  show ?thesis using wf p parse_incomplete [OF wf p] by blast
qed

text \<open>
  A result is final, be it a value or an exception: bytes that arrive later do not change it. A
  value takes at least one byte and at most those that were there.
\<close>

theorem parse_extend:
  assumes "parse input \<noteq> Inr None"
  shows "parse (input @ t) = parse input \<and> (\<forall>v n. parse input = Inr (Some (v, n)) \<longrightarrow> 0 < n \<and> n \<le> length input)"
  using resp.dec_grow [OF assms] resp.dec_takes by blast

theorem parse_extend_witness:
  "parse (''+OK'' @ crlf) = Inr (Some (RespValue SimpleString ''OK'' [], 5)) \<and>
   parse ((''+OK'' @ crlf) @ '':1'') = Inr (Some (RespValue SimpleString ''OK'' [], 5))"
proof -
  have p: "parse (''+OK'' @ crlf) = Inr (Some (RespValue SimpleString ''OK'' [], 5))" by code_simp
  show ?thesis using p parse_extend [of "''+OK'' @ crlf"] by simp
qed

text \<open>
  C34. An array header with a count below \<open>-1\<close> makes the parser throw, whatever follows: the count
  is cast to an unsigned size and reserved.
\<close>

theorem parse_negative_array:
  assumes "2 \<le> n" "n \<le> 2 ^ 31"
  shows "parse (''*-'' @ nat_str n @ crlf @ r) = Inl (Length_error ''vector::reserve'')"
proof -
  let ?i = "''*-'' @ nat_str n @ crlf @ r"
  have "CR \<notin> set (CHR ''-'' # nat_str n)" using nat_str_digits digit_neq by auto
  then have "read_line ?i (Suc 0) = Some (CHR ''-'' # nat_str n, Suc 0 + length (CHR ''-'' # nat_str n) + 2)"
    by (intro read_line_append [where r = r] find_crlf_no_CR) simp_all
  moreover have "parse_int (CHR ''-'' # nat_str n) = Some (- int n)"
    using from_chars_signed_int_str [of INT_MIN "- int n" INT_MAX "[]"] assms
    by (simp add: parse_int_def from_chars_int_def int_str_def ll_limits)
  ultimately show ?thesis using assms
    by (simp add: parse_def parse_loop_None fetch_value_def handle_array_header_def)
qed

theorem parse_negative_array_witness:
  "(2::nat) \<le> 2 \<and> (2::nat) \<le> 2 ^ 31 \<and>
   parse (''*-'' @ nat_str 2 @ crlf @ []) = Inl (Length_error ''vector::reserve'')"
  using parse_negative_array [of 2 "[]"] by simp

end
