(* ===== verification/Replica_Registry.thy ===== *)
theory Replica_Registry
  imports Resp
begin

text \<open>
  The registry of connected replicas (\<^verbatim>\<open>src/src/replication/ReplicaRegistry\<close>). A replica's write
  callback posts the bytes to its connection, so the model keeps the connection's number and
  \<open>propagate\<close> returns the writes it posts. Every operation holds the registry's mutex, so operations
  of different threads interleave as whole steps.
\<close>

section \<open>Definitions\<close>

record replica_state =
  write_conn :: nat
  acked_offset :: int

record replica_registry =
  replicas :: "(nat, replica_state) umap"
  next_replica_id :: nat
  master_offset :: int

definition empty_replicas :: replica_registry where
  "empty_replicas = \<lparr>replicas = [], next_replica_id = 0, master_offset = 0\<rparr>"

definition add_replica :: "nat \<Rightarrow> replica_registry \<Rightarrow> nat \<times> replica_registry" where
  "add_replica conn r =
     (let replica_id = next_replica_id r
      in (replica_id,
          r\<lparr>replicas := um_put replica_id \<lparr>write_conn = conn, acked_offset = 0\<rparr> (replicas r),
            next_replica_id := next_replica_id r + 1\<rparr>))"

definition remove_replica :: "nat \<Rightarrow> replica_registry \<Rightarrow> replica_registry" where
  "remove_replica replica_id r = r\<lparr>replicas := um_erase replica_id (replicas r)\<rparr>"

definition propagate :: "string \<Rightarrow> replica_registry \<Rightarrow> (nat \<times> string) list \<times> replica_registry" where
  "propagate bytes r =
     (map (\<lambda>(_, st). (write_conn st, bytes)) (replicas r),
      r\<lparr>master_offset := master_offset r + int (length bytes)\<rparr>)"

definition record_ack :: "nat \<Rightarrow> int \<Rightarrow> replica_registry \<Rightarrow> replica_registry" where
  "record_ack replica_id offset r =
     (case um_find (replicas r) replica_id of
        Some st \<Rightarrow> r\<lparr>replicas := um_put replica_id (st\<lparr>acked_offset := offset\<rparr>) (replicas r)\<rparr>
      | None \<Rightarrow> r)"

definition acked_offset_of :: "nat \<Rightarrow> replica_registry \<Rightarrow> int option" where
  "acked_offset_of replica_id r = map_option acked_offset (um_find (replicas r) replica_id)"

definition acked_offsets :: "replica_registry \<Rightarrow> int list" where
  "acked_offsets r = map (\<lambda>(_, st). acked_offset st) (replicas r)"

definition replica_count :: "replica_registry \<Rightarrow> nat" where
  "replica_count r = length (replicas r)"

definition getack_command :: resp_value where
  "getack_command = RespValue Array [] [Bulk ''REPLCONF'', Bulk ''GETACK'', Bulk ''*'']"

definition request_getack :: "replica_registry \<Rightarrow> (nat \<times> string) list \<times> replica_registry" where
  "request_getack r = propagate (serialize getack_command) r"

definition count_acked_at_least :: "int \<Rightarrow> replica_registry \<Rightarrow> nat" where
  "count_acked_at_least offset r = length (filter (\<lambda>(_, st). acked_offset st \<ge> offset) (replicas r))"

section \<open>Histories of a registry\<close>

datatype replica_op =
    Op_add nat
  | Op_remove nat
  | Op_propagate string
  | Op_getack
  | Op_ack nat int

primrec exec_replica :: "replica_op \<Rightarrow> replica_registry \<Rightarrow> (nat \<times> string) list \<times> replica_registry" where
  "exec_replica (Op_add conn) r = ([], snd (add_replica conn r))"
| "exec_replica (Op_remove i) r = ([], remove_replica i r)"
| "exec_replica (Op_propagate bytes) r = propagate bytes r"
| "exec_replica Op_getack r = request_getack r"
| "exec_replica (Op_ack i n) r = ([], record_ack i n r)"

fun run_replica :: "replica_op list \<Rightarrow> replica_registry \<Rightarrow> (nat \<times> string) list \<times> replica_registry" where
  "run_replica [] r = ([], r)"
| "run_replica (p # ps) r =
     (case exec_replica p r of (w, r') \<Rightarrow> (case run_replica ps r' of (ws, r'') \<Rightarrow> (w @ ws, r'')))"

text \<open>The bytes posted to a connection, in order.\<close>

definition sent_to :: "nat \<Rightarrow> (nat \<times> string) list \<Rightarrow> string" where
  "sent_to conn ws = concat (map snd (filter (\<lambda>w. fst w = conn) ws))"

text \<open>The stream that a history of operations propagates.\<close>

primrec op_bytes :: "replica_op \<Rightarrow> string" where
  "op_bytes (Op_add conn) = []"
| "op_bytes (Op_remove i) = []"
| "op_bytes (Op_propagate bytes) = bytes"
| "op_bytes Op_getack = serialize getack_command"
| "op_bytes (Op_ack i n) = []"

lemma sent_to_simps [simp]:
  "sent_to c [] = []"
  "sent_to c (ws @ vs) = sent_to c ws @ sent_to c vs"
  by (simp_all add: sent_to_def)

text \<open>A replica is registered under one ID for its connection.\<close>

definition serves :: "nat \<Rightarrow> nat \<Rightarrow> replica_registry \<Rightarrow> bool" where
  "serves i conn r \<longleftrightarrow>
     um_ok (replicas r) \<and> i < next_replica_id r \<and>
     map_option write_conn (um_find (replicas r) i) = Some conn \<and>
     (\<forall>(j, st) \<in> set (replicas r). j < next_replica_id r \<and> (write_conn st = conn \<longrightarrow> j = i))"

definition keeps_replica :: "nat \<Rightarrow> nat \<Rightarrow> replica_op \<Rightarrow> bool" where
  "keeps_replica i conn p = (case p of Op_add c \<Rightarrow> c \<noteq> conn | Op_remove j \<Rightarrow> j \<noteq> i | _ \<Rightarrow> True)"

lemma filter_unique_key:
  assumes "distinct (map fst l)" "(i, st) \<in> set l" "P st" "\<forall>(j, s) \<in> set l. P s \<longrightarrow> j = i"
  shows "filter (\<lambda>x. P (snd x)) l = [(i, st)]"
  using assms
proof (induction l)
  case (Cons x l)
  show ?case
  proof (cases "P (snd x)")
    case True
    with Cons.prems have "fst x = i" by (auto split: prod.splits)
    with Cons.prems have "x = (i, st)" "filter (\<lambda>x. P (snd x)) l = []"
      by (force simp: filter_empty_conv)+
    with True show ?thesis by simp
  next
    case False
    with Cons show ?thesis by auto
  qed
qed simp

lemma sent_to_propagate:
  assumes "serves i conn r"
  shows "sent_to conn (fst (propagate bytes r)) = bytes"
proof -
  obtain st where st: "um_find (replicas r) i = Some st" "write_conn st = conn"
    using assms by (auto simp: serves_def)
  then have "filter (\<lambda>x. write_conn (snd x) = conn) (replicas r) = [(i, st)]"
    using assms by (intro filter_unique_key) (auto simp: serves_def um_ok_def um_find_def dest: map_of_SomeD)
  then show ?thesis by (simp add: sent_to_def propagate_def filter_map comp_def split_beta)
qed

lemma exec_replica_serves:
  assumes "serves i conn r" "keeps_replica i conn p"
  shows "serves i conn (snd (exec_replica p r))"
    and "sent_to conn (fst (exec_replica p r)) = op_bytes p"
    and "master_offset (snd (exec_replica p r)) = master_offset r + int (length (op_bytes p))"
proof -
  have ok: "um_ok (replicas r)" using assms(1) by (simp add: serves_def)
  show "sent_to conn (fst (exec_replica p r)) = op_bytes p"
    using assms(1) by (cases p) (simp_all add: request_getack_def sent_to_propagate)
  show "master_offset (snd (exec_replica p r)) = master_offset r + int (length (op_bytes p))"
    by (cases p) (simp_all add: request_getack_def propagate_def add_replica_def remove_replica_def record_ack_def
        Let_def split: option.split)
  show "serves i conn (snd (exec_replica p r))"
  proof (cases p)
    case (Op_ack j n)
    show ?thesis
    proof (cases "um_find (replicas r) j")
      case (Some st)
      then have "(j, st) \<in> set (replicas r)" by (simp add: um_find_def map_of_SomeD)
      with Some Op_ack assms ok show ?thesis by (fastforce simp: serves_def record_ack_def set_um_put)
    qed (use assms Op_ack in \<open>simp add: record_ack_def\<close>)
  qed (use assms ok in \<open>auto simp: serves_def keeps_replica_def add_replica_def remove_replica_def propagate_def
      request_getack_def set_um_put set_um_erase Let_def\<close>)
qed

text \<open>
  While a replica stays registered, whatever other replicas join, leave or acknowledge: the
  bytes posted to its connection are exactly the propagated stream, in order, and the master's
  offset advances by their number.
\<close>

theorem replica_stream:
  assumes "serves i conn r" "list_all (keeps_replica i conn) ps" "run_replica ps r = (ws, r')"
  shows "sent_to conn ws = concat (map op_bytes ps) \<and>
    master_offset r' = master_offset r + int (length (sent_to conn ws)) \<and> serves i conn r'"
  using assms
proof (induction ps arbitrary: r ws)
  case (Cons p ps)
  obtain w r1 ws' where e: "exec_replica p r = (w, r1)" "run_replica ps r1 = (ws', r')" "ws = w @ ws'"
    using Cons.prems(3) by (auto split: prod.splits)
  with Cons.prems exec_replica_serves [of i conn r p] Cons.IH [of r1 ws'] show ?case by simp
qed simp

theorem replica_stream_witness:
  "run_replica [Op_propagate ''ab'', Op_add 8, Op_propagate ''c'']
     \<lparr>replicas = [(0, \<lparr>write_conn = 7, acked_offset = 0\<rparr>)], next_replica_id = 1, master_offset = 5\<rparr> =
   ([(7, ''ab''), (7, ''c''), (8, ''c'')],
    \<lparr>replicas = [(0, \<lparr>write_conn = 7, acked_offset = 0\<rparr>), (1, \<lparr>write_conn = 8, acked_offset = 0\<rparr>)],
     next_replica_id = 2, master_offset = 8\<rparr>) \<and>
   sent_to 7 [(7, ''ab''), (7, ''c''), (8, ''c'')] = concat (map op_bytes [Op_propagate ''ab'', Op_add 8, Op_propagate ''c''])"
proof -
  have r: "run_replica [Op_propagate ''ab'', Op_add 8, Op_propagate ''c'']
     \<lparr>replicas = [(0, \<lparr>write_conn = 7, acked_offset = 0\<rparr>)], next_replica_id = 1, master_offset = 5\<rparr> =
   ([(7, ''ab''), (7, ''c''), (8, ''c'')],
    \<lparr>replicas = [(0, \<lparr>write_conn = 7, acked_offset = 0\<rparr>), (1, \<lparr>write_conn = 8, acked_offset = 0\<rparr>)],
     next_replica_id = 2, master_offset = 8\<rparr>)"
    by (simp add: propagate_def add_replica_def um_put_def)
  have "serves 0 7 \<lparr>replicas = [(0, \<lparr>write_conn = 7, acked_offset = 0\<rparr>)], next_replica_id = 1, master_offset = 5\<rparr>"
    by (simp add: serves_def um_ok_def um_find_def)
  from replica_stream [OF this _ r] r show ?thesis by (simp add: keeps_replica_def)
qed

end
