(* ===== verification/Registries.thy ===== *)
theory Registries
  imports Redis_Prelude
begin

text \<open>
  The registries of callbacks by key: the watches of \<^verbatim>\<open>src/src/state/WatchManager\<close> and the waiting
  clients of \<^verbatim>\<open>src/src/state/BlockingManager.hpp\<close>. Both keep a queue of registrations per key, the
  keys of every registration and a counter for its ID. A callback is a value of type \<open>'cb\<close>, what the
  code's closure captures.
\<close>

section \<open>Definitions\<close>

record 'cb registry =
  callbacks :: "(string, (nat \<times> 'cb) list) umap"
  id_to_keys :: "(nat, string list) umap"
  next_id :: nat

definition empty_registry :: "'cb registry" where
  "empty_registry = \<lparr>callbacks = [], id_to_keys = [], next_id = 1\<rparr>"

subsection \<open>Watches\<close>

definition watch :: "string \<Rightarrow> 'cb \<Rightarrow> 'cb registry \<Rightarrow> nat \<times> 'cb registry" where
  "watch key cb r =
     (let watch_id = next_id r
      in (watch_id,
          \<lparr>callbacks = um_put key (um_list (callbacks r) key @ [(watch_id, cb)]) (callbacks r),
           id_to_keys = um_put watch_id (um_list (id_to_keys r) watch_id @ [key]) (id_to_keys r),
           next_id = next_id r + 1\<rparr>))"

definition remove_watcher ::
  "nat \<Rightarrow> (string, (nat \<times> 'cb) list) umap \<Rightarrow> string \<Rightarrow> (string, (nat \<times> 'cb) list) umap" where
  "remove_watcher watch_id m key =
     (case um_find m key of
        None \<Rightarrow> m
      | Some regs \<Rightarrow>
         (let regs' = filter (\<lambda>reg. fst reg \<noteq> watch_id) regs
          in if regs' = [] then um_erase key m else um_put key regs' m))"

definition unwatch :: "nat \<Rightarrow> 'cb registry \<Rightarrow> 'cb registry" where
  "unwatch watch_id r =
     (case um_find (id_to_keys r) watch_id of
        None \<Rightarrow> r
      | Some keys \<Rightarrow>
          r\<lparr>callbacks := foldl (remove_watcher watch_id) (callbacks r) keys,
            id_to_keys := um_erase watch_id (id_to_keys r)\<rparr>)"

text \<open>The callbacks that \<^verbatim>\<open>notify_write\<close> invokes, in the order of registration.\<close>

definition notified :: "string \<Rightarrow> 'cb registry \<Rightarrow> 'cb list" where
  "notified key r = (case um_find (callbacks r) key of None \<Rightarrow> [] | Some regs \<Rightarrow> map snd regs)"

subsection \<open>Waiting clients\<close>

definition push_callback ::
  "nat \<Rightarrow> 'cb \<Rightarrow> (string, (nat \<times> 'cb) list) umap \<Rightarrow> string \<Rightarrow> (string, (nat \<times> 'cb) list) umap" where
  "push_callback cid cb m key = um_put key (um_list m key @ [(cid, cb)]) m"

definition register_callbacks :: "string list \<Rightarrow> 'cb \<Rightarrow> 'cb registry \<Rightarrow> nat \<times> 'cb registry" where
  "register_callbacks keys cb r =
     (let cid = next_id r
      in (cid,
          \<lparr>callbacks = foldl (push_callback cid cb) (callbacks r) keys,
           id_to_keys = um_put cid keys (id_to_keys r),
           next_id = next_id r + 1\<rparr>))"

definition remove_callback ::
  "nat \<Rightarrow> (string, (nat \<times> 'cb) list) umap \<Rightarrow> string \<Rightarrow> (string, (nat \<times> 'cb) list) umap" where
  "remove_callback cid m key =
     (let callbackList = filter (\<lambda>reg. fst reg \<noteq> cid) (um_list m key)
      in if callbackList = [] then um_erase key m else um_put key callbackList m)"

definition unregister :: "nat \<Rightarrow> 'cb registry \<Rightarrow> 'cb registry" where
  "unregister cid r =
     (case um_find (id_to_keys r) cid of
        None \<Rightarrow> r
      | Some keys \<Rightarrow>
          r\<lparr>callbacks := foldl (remove_callback cid) (callbacks r) keys,
            id_to_keys := um_erase cid (id_to_keys r)\<rparr>)"

text \<open>The registrations under a key, oldest first.\<close>

definition regs_at :: "'cb registry \<Rightarrow> string \<Rightarrow> (nat \<times> 'cb) list" where
  "regs_at r key = um_list (callbacks r) key"

section \<open>The contract\<close>

locale key_registry =
  fixes regs :: "'r \<Rightarrow> string \<Rightarrow> (nat \<times> 'cb) list"
    and keys_of :: "'k \<Rightarrow> string list"
    and reg :: "'k \<Rightarrow> 'cb \<Rightarrow> 'r \<Rightarrow> nat \<times> 'r"
    and unreg :: "nat \<Rightarrow> 'r \<Rightarrow> 'r"
    and inv :: "'r \<Rightarrow> bool"
  assumes inv_reg: "inv r \<Longrightarrow> inv (snd (reg ks cb r))"
    and inv_unreg: "inv r \<Longrightarrow> inv (unreg i r)"
    and reg_fresh: "inv r \<Longrightarrow> (i, c) \<in> set (regs r k) \<Longrightarrow> i \<noteq> fst (reg ks cb r)"
    and regs_reg: "inv r \<Longrightarrow>
      regs (snd (reg ks cb r)) k = regs r k @ replicate (count_list (keys_of ks) k) (fst (reg ks cb r), cb)"
    and regs_unreg: "inv r \<Longrightarrow> regs (unreg i r) k = filter (\<lambda>x. fst x \<noteq> i) (regs r k)"
begin

lemma reg_unreg:
  assumes "inv r"
  shows "regs (unreg (fst (reg ks cb r)) (snd (reg ks cb r))) k = regs r k"
proof -
  have "filter (\<lambda>x. fst x \<noteq> fst (reg ks cb r)) (regs r k) = regs r k"
    using reg_fresh [OF assms, of _ _ k ks cb] by (auto simp: filter_id_conv)
  with assms show ?thesis by (simp add: regs_unreg inv_reg regs_reg)
qed

lemma unreg_gone: "inv r \<Longrightarrow> (i, c) \<notin> set (regs (unreg i r) k)"
  by (simp add: regs_unreg)

lemma unreg_others: "inv r \<Longrightarrow> i \<noteq> j \<Longrightarrow> (j, c) \<in> set (regs (unreg i r) k) \<longleftrightarrow> (j, c) \<in> set (regs r k)"
  by (auto simp: regs_unreg)

text \<open>A later registration never overtakes an earlier one.\<close>

lemma reg_keeps_front: "inv r \<Longrightarrow> regs r k = x # xs \<Longrightarrow> \<exists>ys. regs (snd (reg ks cb r)) k = x # xs @ ys"
  by (simp add: regs_reg)

lemma unreg_fewer:
  assumes "inv r" "(i, c) \<in> set (regs r k)"
  shows "length (regs (unreg i r) k) < length (regs r k)"
  using assms by (simp add: regs_unreg) (metis (mono_tags, lifting) fst_conv length_filter_less)

end

section \<open>The invariant and the interpretations\<close>

definition registry_ok :: "'cb registry \<Rightarrow> bool" where
  "registry_ok r \<longleftrightarrow>
     (\<forall>k i c. (i, c) \<in> set (regs_at r k) \<longrightarrow> i < next_id r \<and> k \<in> set (um_list (id_to_keys r) i)) \<and>
     (\<forall>i. um_find (id_to_keys r) i \<noteq> None \<longrightarrow> i < next_id r)"

lemma registry_ok_empty [simp]: "registry_ok empty_registry"
  by (simp add: registry_ok_def empty_registry_def regs_at_def)

lemma regs_at_empty: "regs_at empty_registry key = []"
  by (simp add: empty_registry_def regs_at_def)

lemma um_list_fresh: "registry_ok r \<Longrightarrow> um_list (id_to_keys r) (next_id r) = []"
  by (auto simp: registry_ok_def um_list_def split: option.split)

lemma um_list_push_all:
  "um_list (foldl (push_callback cid cb) m keys) k = um_list m k @ replicate (count_list keys k) (cid, cb)"
  by (induction keys arbitrary: m) (auto simp: push_callback_def)

lemma um_list_remove:
  "um_list (remove_watcher i m key) k = (if k = key then filter (\<lambda>x. fst x \<noteq> i) (um_list m k) else um_list m k)"
  "um_list (remove_callback i m key) k = (if k = key then filter (\<lambda>x. fst x \<noteq> i) (um_list m k) else um_list m k)"
  by (auto simp: remove_watcher_def remove_callback_def um_list_def Let_def split: option.split)

lemma um_list_remove_all:
  "um_list (foldl (remove_watcher i) m keys) k =
     (if k \<in> set keys then filter (\<lambda>x. fst x \<noteq> i) (um_list m k) else um_list m k)"
  "um_list (foldl (remove_callback i) m keys) k =
     (if k \<in> set keys then filter (\<lambda>x. fst x \<noteq> i) (um_list m k) else um_list m k)"
  by (induction keys arbitrary: m) (auto simp: um_list_remove)

lemma registry_ok_filter:
  assumes "registry_ok r" "k \<notin> set (um_list (id_to_keys r) i)"
  shows "filter (\<lambda>x. fst x \<noteq> i) (regs_at r k) = regs_at r k"
  using assms by (fastforce simp: registry_ok_def filter_id_conv)

lemma regs_at_watch:
  "regs_at (snd (watch key cb r)) k = regs_at r k @ replicate (count_list [key] k) (fst (watch key cb r), cb)"
  by (simp add: watch_def regs_at_def Let_def)

lemma regs_at_register:
  "regs_at (snd (register_callbacks keys cb r)) k =
     regs_at r k @ replicate (count_list keys k) (fst (register_callbacks keys cb r), cb)"
  by (simp add: register_callbacks_def regs_at_def Let_def um_list_push_all)

lemma regs_at_unwatch: "registry_ok r \<Longrightarrow> regs_at (unwatch i r) k = filter (\<lambda>x. fst x \<noteq> i) (regs_at r k)"
  using registry_ok_filter [of r k i]
  by (auto simp: unwatch_def regs_at_def um_list_remove_all um_list_def [of "id_to_keys r"] split: option.split)

lemma regs_at_unregister: "registry_ok r \<Longrightarrow> regs_at (unregister i r) k = filter (\<lambda>x. fst x \<noteq> i) (regs_at r k)"
  using registry_ok_filter [of r k i]
  by (auto simp: unregister_def regs_at_def um_list_remove_all um_list_def [of "id_to_keys r"] split: option.split)

lemma unreg_keys:
  "next_id (unwatch i r) = next_id r" "next_id (unregister i r) = next_id r"
  "id_to_keys (unwatch i r) = (if um_find (id_to_keys r) i = None then id_to_keys r else um_erase i (id_to_keys r))"
  "id_to_keys (unregister i r) = (if um_find (id_to_keys r) i = None then id_to_keys r else um_erase i (id_to_keys r))"
  by (auto simp: unwatch_def unregister_def split: option.split)

lemma registry_ok_reg:
  assumes "registry_ok r"
    and "\<And>k. regs_at r' k = regs_at r k @ replicate (count_list ks k) (next_id r, cb)"
    and "id_to_keys r' = um_put (next_id r) ks (id_to_keys r)" "next_id r' = Suc (next_id r)"
  shows "registry_ok r'"
  using assms count_list_0_iff [of ks] unfolding registry_ok_def
  by (fastforce simp: less_Suc_eq split: if_splits)

lemma registry_ok_watch: "registry_ok r \<Longrightarrow> registry_ok (snd (watch key cb r))"
  by (rule registry_ok_reg [where ks = "[key]" and cb = cb], assumption, subst regs_at_watch)
     (simp_all add: watch_def Let_def um_list_fresh)

lemma registry_ok_register: "registry_ok r \<Longrightarrow> registry_ok (snd (register_callbacks keys cb r))"
  by (rule registry_ok_reg [where ks = keys and cb = cb], assumption, subst regs_at_register)
     (simp_all add: register_callbacks_def Let_def)

lemma registry_ok_unwatch: "registry_ok r \<Longrightarrow> registry_ok (unwatch i r)"
  using regs_at_unwatch [of r i] unfolding registry_ok_def
  by (auto simp: unreg_keys split: if_splits)

lemma registry_ok_unregister: "registry_ok r \<Longrightarrow> registry_ok (unregister i r)"
  using regs_at_unregister [of r i] unfolding registry_ok_def
  by (auto simp: unreg_keys split: if_splits)

lemma registered_fresh:
  assumes "registry_ok r" "(i, c) \<in> set (regs_at r k)"
  shows "i \<noteq> fst (watch key cb r)" "i \<noteq> fst (register_callbacks keys cb r)"
  using assms by (auto simp: registry_ok_def watch_def register_callbacks_def Let_def)

interpretation wm: key_registry regs_at "\<lambda>key. [key]" watch unwatch registry_ok
  by unfold_locales
     (rule registry_ok_watch registry_ok_unwatch registered_fresh(1) regs_at_watch regs_at_unwatch; assumption)+

interpretation bm: key_registry regs_at "\<lambda>keys. keys" register_callbacks unregister registry_ok
  by unfold_locales
     (rule registry_ok_register registry_ok_unregister registered_fresh(2) regs_at_register regs_at_unregister; assumption)+

section \<open>Properties\<close>

text \<open>
  A waiting client is registered under all its keys at once and leaves all of them at once: when
  its registration, for any list of keys and also with repetitions, is taken back, every queue is
  what it was before, and no other client has lost or changed its place.
\<close>

theorem blocking_register_unregister:
  assumes "registry_ok r" "register_callbacks keys cb r = (cid, r')"
  shows "regs_at (unregister cid r') k = regs_at r k \<and>
    regs_at r' k = regs_at r k @ replicate (count_list keys k) (cid, cb)"
  using bm.reg_unreg [OF assms(1), of keys cb k] regs_at_register [of keys cb r k] assms(2) by simp

theorem blocking_register_unregister_witness:
  "regs_at (unregister 1 (snd (register_callbacks [''a'', ''b'', ''a''] (0::nat) empty_registry))) ''a'' = [] \<and>
   regs_at (snd (register_callbacks [''a'', ''b'', ''a''] (0::nat) empty_registry)) ''a'' = [(1, 0), (1, 0)]"
proof -
  have "register_callbacks [''a'', ''b'', ''a''] (0::nat) empty_registry =
      (1, snd (register_callbacks [''a'', ''b'', ''a''] (0::nat) empty_registry))"
    by (simp add: register_callbacks_def empty_registry_def)
  from blocking_register_unregister [OF registry_ok_empty this, of "''a''"] show ?thesis
    by (simp add: regs_at_def empty_registry_def numeral_2_eq_2)
qed

end
