(* ===== verification/Command.thy ===== *)
theory Command
  imports Complex_Main Resp
begin

text \<open>
  Requests as commands (\<^verbatim>\<open>src/src/command/core/Command.hpp\<close>, \<^verbatim>\<open>CommandHandler::parse_command\<close>), the two
  command registries (\<^verbatim>\<open>src/src/command/core/CommandRegistry.cpp\<close>), the helpers of
  \<^verbatim>\<open>src/src/util/CommandUtils.hpp\<close> and \<^verbatim>\<open>StringUtils.hpp\<close>, the configuration, and the reading of
  floating-point arguments. A double is its exact rational value; its rounding is not modelled.
\<close>

section \<open>Command types\<close>

datatype command_type =
    Ping | Info | Echo | Set | Get | TypeCmd | RPush | LPush | LRange | LLen | LPop | BLPop
  | XAdd | XRange | XRead | Incr | Multi | Watch | Unwatch | Exec | Discard | Replconf | Psync
  | Wait | Unknown

record command =
  ctype :: command_type
  cname :: string
  cargs :: "string list"

definition to_lower :: "char \<Rightarrow> char" where
  "to_lower c =
     (let n = (of_char c :: nat) in if 65 \<le> n \<and> n \<le> 90 then char_of (n + 32) else c)"

definition lowercase :: "string \<Rightarrow> string" where
  "lowercase s = map to_lower s"

text \<open>\<^verbatim>\<open>::toupper\<close> in the C locale.\<close>

definition to_upper :: "char \<Rightarrow> char" where
  "to_upper c =
     (let n = (of_char c :: nat) in if 97 \<le> n \<and> n \<le> 122 then char_of (n - 32) else c)"

definition command_names :: "(string \<times> command_type) list" where
  "command_names =
     [(''ping'', Ping), (''info'', Info), (''echo'', Echo), (''set'', Set), (''get'', Get), (''type'', TypeCmd),
      (''rpush'', RPush), (''lpush'', LPush), (''lrange'', LRange), (''llen'', LLen), (''lpop'', LPop),
      (''blpop'', BLPop), (''xadd'', XAdd), (''xrange'', XRange), (''xread'', XRead), (''incr'', Incr),
      (''multi'', Multi), (''watch'', Watch), (''unwatch'', Unwatch), (''exec'', Exec), (''discard'', Discard),
      (''replconf'', Replconf), (''psync'', Psync), (''wait'', Wait)]"

definition parse_type :: "string \<Rightarrow> command_type" where
  "parse_type s = (case map_of command_names (map to_lower s) of Some t \<Rightarrow> t | None \<Rightarrow> Unknown)"

definition is_replication_command :: "command_type \<Rightarrow> bool" where
  "is_replication_command t \<longleftrightarrow> t \<in> {Replconf, Psync}"

definition is_write_command :: "command_type \<Rightarrow> bool" where
  "is_write_command t \<longleftrightarrow> t \<in> {Set, Incr, RPush, LPush, LPop, BLPop, XAdd}"

text \<open>\<^verbatim>\<open>elements.at(0)\<close> throws on an empty request.\<close>

definition parse_command :: "resp_value \<Rightarrow> cpp_exn + command" where
  "parse_command request =
     (case elements request of
        [] \<Rightarrow> Inl (Out_of_range ''vector'')
      | e # es \<Rightarrow> Inr \<lparr>ctype = parse_type (rstr e), cname = rstr e, cargs = map rstr es\<rparr>)"

section \<open>Registries\<close>

datatype registry_kind = ClientRegistry | ReplicationRegistry

primrec registry_find :: "registry_kind \<Rightarrow> command_type \<Rightarrow> bool" where
  "registry_find ClientRegistry t =
     (t \<in> {Ping, Info, Echo, Set, Get, TypeCmd, Incr, RPush, LPush, LRange, LLen, LPop, BLPop, XAdd, XRange,
        XRead, Watch, Unwatch, Wait, Multi, Exec, Discard})"
| "registry_find ReplicationRegistry t = (t \<in> {Ping, Replconf, Psync})"

section \<open>Configuration\<close>

record server_config =
  is_replica :: bool
  replicaof :: "string option"
  master_replid :: string
  master_repl_offset :: int

definition role_str :: "server_config \<Rightarrow> string" where
  "role_str config = (if is_replica config then ''slave'' else ''master'')"

section \<open>Arguments\<close>

definition check_args :: "command \<Rightarrow> nat \<Rightarrow> string option" where
  "check_args cmd min_args =
     (if length (cargs cmd) < min_args
      then Some (''-ERR wrong number of arguments for '' @ [CHR 0x27] @ cname cmd @ [CHR 0x27] @ '' command'' @ crlf)
      else None)"

text \<open>The loop over the option pairs after key and value; \<open>rest\<close> starts at index \<open>i\<close>.\<close>

fun parse_expiry_from :: "string list \<Rightarrow> cpp_exn + int option" where
  "parse_expiry_from (opt # v # rest) =
     (if lowercase opt = ''ex'' then
        (case stoll v of
           Inl e \<Rightarrow> Inl e
         | Inr seconds \<Rightarrow>
            (case ll_checked (seconds * 1000) of Inl e \<Rightarrow> Inl e | Inr ms \<Rightarrow> Inr (Some ms)))
      else if lowercase opt = ''px'' then
        (case stoll v of Inl e \<Rightarrow> Inl e | Inr ms \<Rightarrow> Inr (Some ms))
      else parse_expiry_from rest)"
| "parse_expiry_from _ = Inr None"

definition parse_expiry :: "command \<Rightarrow> cpp_exn + int option" where
  "parse_expiry cmd = parse_expiry_from (drop 2 (cargs cmd))"

definition parse_nonnegative :: "string \<Rightarrow> int option" where
  "parse_nonnegative s =
     (case from_chars_ll s of
        Num_ok n rest \<Rightarrow> if rest = [] \<and> n \<ge> 0 then Some n else None
      | _ \<Rightarrow> None)"

section \<open>Floating-point arguments\<close>

datatype double_val = Finite rat | Infinite bool | NotANumber

definition hex_digit :: "char \<Rightarrow> nat option" where
  "hex_digit c =
     (let n = (of_char c :: nat)
      in if 48 \<le> n \<and> n \<le> 57 then Some (n - 48)
         else if 65 \<le> n \<and> n \<le> 70 then Some (n - 55)
         else if 97 \<le> n \<and> n \<le> 102 then Some (n - 87)
         else None)"

definition in_base :: "nat \<Rightarrow> char \<Rightarrow> bool" where
  "in_base base c = (case hex_digit c of Some d \<Rightarrow> d < base | None \<Rightarrow> False)"

definition base_val :: "nat \<Rightarrow> string \<Rightarrow> nat" where
  "base_val base = foldl (\<lambda>a c. base * a + (case hex_digit c of Some d \<Rightarrow> d | None \<Rightarrow> 0)) 0"

definition scale :: "nat \<Rightarrow> int \<Rightarrow> rat" where
  "scale b e = (if 0 \<le> e then of_nat b ^ nat e else 1 / of_nat b ^ nat (- e))"

text \<open>The exponent after a mantissa: zero when it is missing or has no digits.\<close>

definition exponent_part :: "char list \<Rightarrow> string \<Rightarrow> int" where
  "exponent_part marks s =
     (case s of
        c # t \<Rightarrow>
          if c \<in> set marks then
            (let neg = (take 1 t = ''-'');
                 u = (if take 1 t = ''-'' \<or> take 1 t = ''+'' then drop 1 t else t);
                 ds = takeWhile is_digit u
             in if neg then - int (digits_val ds) else int (digits_val ds))
          else 0
      | [] \<Rightarrow> 0)"

text \<open>A mantissa with optional fraction and exponent; \<^const>\<open>None\<close> when it has no digit.\<close>

definition parse_mantissa :: "nat \<Rightarrow> nat \<Rightarrow> char list \<Rightarrow> string \<Rightarrow> rat option" where
  "parse_mantissa base exp_base marks s =
     (let ip = takeWhile (in_base base) s;
          r = dropWhile (in_base base) s;
          has_point = (take 1 r = ''.'');
          fp = (if has_point then takeWhile (in_base base) (drop 1 r) else []);
          r' = (if has_point then dropWhile (in_base base) (drop 1 r) else r)
      in if ip = [] \<and> fp = [] then None
         else Some (of_nat (base_val base (ip @ fp)) * scale base (- int (length fp)) *
                scale exp_base (exponent_part marks r')))"

definition strtod_magnitude :: "string \<Rightarrow> double_val option" where
  "strtod_magnitude s =
     (if lowercase (take 3 s) = ''inf'' then Some (Infinite False)
      else if lowercase (take 3 s) = ''nan'' then Some NotANumber
      else
        (case (if lowercase (take 2 s) = ''0x'' then parse_mantissa 16 2 ''pP'' (drop 2 s) else None) of
           Some v \<Rightarrow> Some (Finite v)
         | None \<Rightarrow> map_option Finite (parse_mantissa 10 10 ''eE'' s)))"

text \<open>
  \<^verbatim>\<open>std::stod\<close>: \<^verbatim>\<open>strtod\<close> after white space and a sign; no digits is \<^verbatim>\<open>invalid_argument\<close>, a value
  beyond the range of normal doubles is \<^verbatim>\<open>out_of_range\<close>.
\<close>

definition stod :: "string \<Rightarrow> cpp_exn + double_val" where
  "stod s =
     (let t = dropWhile is_space s;
          neg = (take 1 t = ''-'');
          u = (if take 1 t = ''-'' \<or> take 1 t = ''+'' then drop 1 t else t)
      in case strtod_magnitude u of
           None \<Rightarrow> Inl (Invalid_argument ''stod'')
         | Some (Finite v) \<Rightarrow>
             if v \<ge> 2 ^ 1024 - 2 ^ 970 \<or> v \<noteq> 0 \<and> v < 1 / 2 ^ 1022 then Inl (Out_of_range ''stod'')
             else Inr (Finite (if neg then - v else v))
         | Some (Infinite _) \<Rightarrow> Inr (Infinite neg)
         | Some NotANumber \<Rightarrow> Inr NotANumber)"

definition is_positive :: "double_val \<Rightarrow> bool" where
  "is_positive x = (case x of Finite v \<Rightarrow> v > 0 | Infinite neg \<Rightarrow> \<not> neg | NotANumber \<Rightarrow> False)"

text \<open>Conversion to \<^verbatim>\<open>long long\<close> truncates; outside the range it is undefined.\<close>

definition double_to_ll :: "double_val \<Rightarrow> cpp_exn + int" where
  "double_to_ll x =
     (case x of
        Finite v \<Rightarrow> ll_checked (if v < 0 then - \<lfloor>- v\<rfloor> else \<lfloor>v\<rfloor>)
      | _ \<Rightarrow> Inl Signed_overflow)"

section \<open>Lemmas\<close>

lemma is_write_command_simps [simp]:
  "is_write_command Set" "is_write_command Incr" "is_write_command RPush" "is_write_command LPush"
  "is_write_command LPop" "is_write_command BLPop" "is_write_command XAdd" "\<not> is_write_command Get"
  "\<not> is_write_command Ping" "\<not> is_write_command Unknown"
  by (simp_all add: is_write_command_def)

lemma stod_zero: "stod ''0'' = Inr (Finite 0)"
proof -
  have "lowercase ''0'' = ''0''" "takeWhile (in_base 10) ''0'' = ''0''" "dropWhile (in_base 10) ''0'' = []"
      "base_val 10 ''0'' = 0" "\<not> is_space CHR ''0''"
    by code_simp+
  then show ?thesis by (simp add: stod_def strtod_magnitude_def parse_mantissa_def Let_def)
qed

end
