(* ===== verification/Transaction_Manager.thy ===== *)
theory Transaction_Manager
  imports Registries Command
begin

text \<open>
  The transaction state of one command handler (\<^verbatim>\<open>src/src/command/execution/TransactionManager\<close>) and
  its watches in the shared \<^verbatim>\<open>WatchManager\<close>. The callback of a watch marks its transaction manager
  dirty; it is the number of the handler that owns it.
\<close>

section \<open>Definitions\<close>

record tm =
  in_transaction :: bool
  dirty :: bool
  queued_commands :: "resp_value list"
  watched_keys :: "(string, nat) umap"

definition empty_tm :: tm where
  "empty_tm = \<lparr>in_transaction = False, dirty = False, queued_commands = [], watched_keys = []\<rparr>"

definition begin_tm :: "tm \<Rightarrow> tm" where
  "begin_tm t = t\<lparr>in_transaction := True, queued_commands := []\<rparr>"

definition clear_watches :: "tm \<Rightarrow> nat registry \<Rightarrow> tm \<times> nat registry" where
  "clear_watches t w =
     (t\<lparr>watched_keys := []\<rparr>, foldl (\<lambda>w (key, watch_id). unwatch watch_id w) w (watched_keys t))"

definition finish_transaction :: "tm \<Rightarrow> tm" where
  "finish_transaction t = t\<lparr>in_transaction := False, dirty := False\<rparr>"

definition reset_tm :: "tm \<Rightarrow> nat registry \<Rightarrow> tm \<times> nat registry" where
  "reset_tm t w =
     (case clear_watches t w of (t', w') \<Rightarrow> ((finish_transaction t')\<lparr>queued_commands := []\<rparr>, w'))"

definition mark_dirty :: "tm \<Rightarrow> tm" where
  "mark_dirty t = t\<lparr>dirty := True\<rparr>"

text \<open>\<^verbatim>\<open>emplace\<close> keeps an existing entry.\<close>

definition watch_key :: "string \<Rightarrow> tm \<Rightarrow> bool \<times> tm" where
  "watch_key key t =
     (case um_find (watched_keys t) key of
        Some _ \<Rightarrow> (False, t)
      | None \<Rightarrow> (True, t\<lparr>watched_keys := um_put key 0 (watched_keys t)\<rparr>))"

definition associate_watch_id :: "string \<Rightarrow> nat \<Rightarrow> tm \<Rightarrow> tm" where
  "associate_watch_id key watch_id t =
     (case um_find (watched_keys t) key of
        Some _ \<Rightarrow> t\<lparr>watched_keys := um_put key watch_id (watched_keys t)\<rparr>
      | None \<Rightarrow> t)"

definition queue_command :: "resp_value \<Rightarrow> tm \<Rightarrow> tm" where
  "queue_command request t = t\<lparr>queued_commands := queued_commands t @ [request]\<rparr>"

definition pop_queued_commands :: "tm \<Rightarrow> resp_value list \<times> tm" where
  "pop_queued_commands t = (queued_commands t, t\<lparr>queued_commands := []\<rparr>)"

text \<open>The loop of \<^verbatim>\<open>WatchCommand::execute\<close> over its keys, for the handler \<open>h\<close>.\<close>

fun watch_all :: "nat \<Rightarrow> string list \<Rightarrow> tm \<times> nat registry \<Rightarrow> tm \<times> nat registry" where
  "watch_all h [] tw = tw"
| "watch_all h (key # keys) (t, w) =
     (case watch_key key t of
        (False, t') \<Rightarrow> watch_all h keys (t', w)
      | (True, t') \<Rightarrow>
         (case watch key h w of (watch_id, w') \<Rightarrow>
            watch_all h keys (associate_watch_id key watch_id t', w')))"

section \<open>A handler's watches\<close>

text \<open>
  The manager knows the registrations of its handler: every watched key has one with the ID it
  remembers, and it remembers every one.
\<close>

definition watches_ok :: "nat \<Rightarrow> tm \<Rightarrow> nat registry \<Rightarrow> bool" where
  "watches_ok h t w \<longleftrightarrow> registry_ok w \<and> um_ok (watched_keys t) \<and>
     (\<forall>key i. (i, h) \<in> set (regs_at w key) \<longleftrightarrow> um_find (watched_keys t) key = Some i)"

lemma watches_ok_empty [simp]: "watches_ok h empty_tm empty_registry"
  by (simp add: watches_ok_def empty_tm_def empty_registry_def regs_at_def registry_ok_def)

lemma watch_new:
  assumes "watches_ok h t w" "um_find (watched_keys t) key = None"
  shows "watches_ok h (t\<lparr>watched_keys := um_put key (fst (watch key h w)) (um_put key 0 (watched_keys t))\<rparr>)
    (snd (watch key h w))"
  using assms registered_fresh(1) [of w _ h key key h]
  by (auto simp: watches_ok_def wm.inv_reg regs_at_watch)

lemma watches_ok_watch_all:
  "watches_ok h t w \<Longrightarrow> case watch_all h keys (t, w) of (t', w') \<Rightarrow> watches_ok h t' w' \<and>
     (\<forall>key. um_find (watched_keys t') key \<noteq> None \<longleftrightarrow> key \<in> set keys \<or> um_find (watched_keys t) key \<noteq> None) \<and>
     in_transaction t' = in_transaction t \<and> dirty t' = dirty t \<and> queued_commands t' = queued_commands t"
proof (induction keys arbitrary: t w)
  case (Cons key keys)
  show ?case
  proof (cases "um_find (watched_keys t) key")
    case None
    let ?t = "t\<lparr>watched_keys := um_put key (fst (watch key h w)) (um_put key 0 (watched_keys t))\<rparr>"
    from Cons.IH [OF watch_new [OF Cons.prems None]] None show ?thesis
      by (auto simp: watch_key_def associate_watch_id_def split: prod.splits)
  next
    case (Some i)
    with Cons.IH [OF Cons.prems] show ?thesis by (auto simp: watch_key_def split: prod.splits)
  qed
qed simp

lemma regs_at_unwatch_all:
  "registry_ok w \<Longrightarrow>
   registry_ok (foldl (\<lambda>w (key, watch_id). unwatch watch_id w) w l) \<and>
   regs_at (foldl (\<lambda>w (key, watch_id). unwatch watch_id w) w l) k =
     filter (\<lambda>x. fst x \<notin> snd ` set l) (regs_at w k)"
proof (induction l arbitrary: w)
  case (Cons x l)
  obtain key i where x: "x = (key, i)" by (cases x)
  with Cons.IH [OF registry_ok_unwatch [OF Cons.prems, of i]] Cons.prems show ?case
    by (simp add: regs_at_unwatch)
qed simp

lemma clear_watches_none:
  assumes "watches_ok h t w" "clear_watches t w = (t', w')"
  shows "(i, h) \<notin> set (regs_at w' key)"
proof
  assume "(i, h) \<in> set (regs_at w' key)"
  then have i: "(i, h) \<in> set (regs_at w key)" "i \<notin> snd ` set (watched_keys t)"
    using assms regs_at_unwatch_all [of w "watched_keys t" key]
    by (auto simp: clear_watches_def watches_ok_def)
  then have "um_find (watched_keys t) key = Some i" using assms(1) by (auto simp: watches_ok_def)
  then have "(key, i) \<in> set (watched_keys t)" by (simp add: um_find_def map_of_SomeD)
  with i(2) show False by force
qed

end
