(* ===== verification/Server_State.thy ===== *)
theory Server_State
  imports Store Replica_Registry Transaction_Manager
begin

text \<open>
  The state that the commands share on the store thread, and the calls in progress. The code runs
  on callbacks: a command gets an \<^verbatim>\<open>on_reply\<close> closure and may call it at once, keep it in a registry
  or hand it to a timer. Here a closure is a value that says what it captures (\<open>reply_k\<close>, the
  waiters, the timer tasks), and a call that is still to be made is a frame. A frame is executed by
  one step, which pushes the calls it makes; the frames below it are what the C++ call stack has
  still to do. An exception unwinds the frames to the nearest handler.
\<close>

section \<open>Closures\<close>

text \<open>
  \<open>K_write c\<close> posts the reply to connection \<open>c\<close> (\<^verbatim>\<open>write_response\<close>), \<open>K_ignore\<close> drops it (a replica's
  handler), \<open>K_propagate k raw\<close> is the \<^verbatim>\<open>propagating_reply\<close> of the dispatcher, \<open>K_exec c t request\<close>
  the callback of a queued command in the EXEC context \<open>c\<close>.
\<close>

datatype reply_k =
    K_write nat
  | K_ignore
  | K_propagate reply_k string
  | K_exec nat command_type resp_value

record blpop_waiter =
  bw_timer :: nat
  bw_reply :: reply_k

record xread_waiter =
  xw_timer :: nat
  xw_keys :: "string list"
  xw_ids :: "string list"
  xw_reply :: reply_k

record exec_ctx =
  cx_index :: nat
  cx_results :: "string list"
  cx_commands :: "resp_value list"
  cx_handler :: nat
  cx_reply :: reply_k

text \<open>The completion handlers of timers: the time-outs of BLPOP and XREAD and the poll of WAIT.\<close>

datatype timer_task =
    T_blpop nat reply_k
  | T_xread nat reply_k
  | T_poll int int "int option" reply_k

text \<open>
  A timer with no expiry never fires. A cancelled timer does not run its task unless its expiry has
  already queued it (\<open>t_ready\<close>).
\<close>

record timer =
  t_after :: "int option"
  t_ready :: bool
  t_task :: timer_task

section \<open>State\<close>

text \<open>
  A command handler: its registry, whether it was given the replica registry and the statistics
  callbacks, and its transaction manager.
\<close>

record handler =
  h_kind :: registry_kind
  h_replicas :: bool
  h_stats :: bool
  h_tm :: tm

record server =
  config :: server_config
  version :: string
  clock :: int
  wall :: int
  connected_clients :: "64 word"
  store :: data
  blpop_reg :: "blpop_waiter registry"
  xread_reg :: "xread_waiter registry"
  watch_reg :: "nat registry"
  replica_reg :: replica_registry
  handlers :: "(nat, handler) umap"
  ctxs :: "(nat, exec_ctx) umap"
  next_ctx :: nat
  timers :: "(nat, timer) umap"
  next_timer :: nat
  posted :: "(nat \<times> string) list"

definition default_handler :: handler where
  "default_handler = \<lparr>h_kind = ClientRegistry, h_replicas = False, h_stats = False, h_tm = empty_tm\<rparr>"

definition get_handler :: "server \<Rightarrow> nat \<Rightarrow> handler" where
  "get_handler s h = (case um_find (handlers s) h of Some x \<Rightarrow> x | None \<Rightarrow> default_handler)"

definition get_tm :: "server \<Rightarrow> nat \<Rightarrow> tm" where
  "get_tm s h = h_tm (get_handler s h)"

definition put_tm :: "nat \<Rightarrow> tm \<Rightarrow> server \<Rightarrow> server" where
  "put_tm h t s = s\<lparr>handlers := um_put h ((get_handler s h)\<lparr>h_tm := t\<rparr>) (handlers s)\<rparr>"

text \<open>\<^verbatim>\<open>watch_manager_.notify_write(key)\<close>: every callback marks its transaction manager dirty.\<close>

definition mark_handler :: "server \<Rightarrow> nat \<Rightarrow> server" where
  "mark_handler s h = put_tm h (mark_dirty (get_tm s h)) s"

definition notify_write :: "string \<Rightarrow> server \<Rightarrow> server" where
  "notify_write key s = foldl mark_handler s (notified key (watch_reg s))"

definition post_propagate :: "string \<Rightarrow> server \<Rightarrow> server" where
  "post_propagate bytes s =
     (case propagate bytes (replica_reg s) of (ws, r) \<Rightarrow> s\<lparr>replica_reg := r, posted := posted s @ ws\<rparr>)"

definition new_timer :: "int option \<Rightarrow> timer_task \<Rightarrow> server \<Rightarrow> server" where
  "new_timer after task s =
     s\<lparr>timers := um_put (next_timer s) \<lparr>t_after = after, t_ready = False, t_task = task\<rparr> (timers s),
       next_timer := next_timer s + 1\<rparr>"

definition cancel_timer :: "nat \<Rightarrow> server \<Rightarrow> server" where
  "cancel_timer tid s =
     (case um_find (timers s) tid of
        Some t \<Rightarrow> if t_ready t then s else s\<lparr>timers := um_erase tid (timers s)\<rparr>
      | None \<Rightarrow> s)"

section \<open>Calls in progress\<close>

datatype frame =
    F_exec nat command reply_k
  | F_reply reply_k string
  | F_propagate string
  | F_serve_blpop string
  | F_serve_xread "(nat \<times> xread_waiter) list"
  | F_run_next nat
  | F_catch reply_k
  | F_poll int int "int option" reply_k

datatype step_result =
    Next "frame list" server
  | Throw cpp_exn server

primrec result_state :: "step_result \<Rightarrow> server" where
  "result_state (Next gs s) = s"
| "result_state (Throw e s) = s"

primrec result_frames :: "step_result \<Rightarrow> frame list" where
  "result_frames (Next gs s) = gs"
| "result_frames (Throw e s) = []"

abbreviation reply :: "reply_k \<Rightarrow> string \<Rightarrow> server \<Rightarrow> step_result" where
  "reply k r s \<equiv> Next [F_reply k r] s"

definition with_args :: "command \<Rightarrow> nat \<Rightarrow> reply_k \<Rightarrow> server \<Rightarrow> step_result \<Rightarrow> step_result" where
  "with_args cmd n k s body = (case check_args cmd n of Some err \<Rightarrow> reply k err s | None \<Rightarrow> body)"

text \<open>\<^verbatim>\<open>catch (const std::exception& e)\<close> around a call that fails.\<close>

definition catch_reply :: "cpp_exn \<Rightarrow> reply_k \<Rightarrow> server \<Rightarrow> step_result" where
  "catch_reply e k s =
     (if is_std_exception e then reply k (''-ERR '' @ exn_what e @ crlf) s else Throw e s)"

definition array_header :: "nat \<Rightarrow> string" where
  "array_header n = CHR ''*'' # nat_str n @ crlf"

definition null_array :: string where
  "null_array = ''*-1'' @ crlf"

definition null_bulk :: string where
  "null_bulk = ''$-1'' @ crlf"

section \<open>What the updates keep\<close>

text \<open>
  \<open>notify_write\<close>, the timers and propagation are calls that most commands make; the simplifier sees
  through them with these equations.
\<close>

lemma put_tm_fields [simp]:
  "config (put_tm h t s) = config s" "clock (put_tm h t s) = clock s" "wall (put_tm h t s) = wall s"
  "store (put_tm h t s) = store s" "blpop_reg (put_tm h t s) = blpop_reg s" "xread_reg (put_tm h t s) = xread_reg s"
  "watch_reg (put_tm h t s) = watch_reg s" "replica_reg (put_tm h t s) = replica_reg s"
  "ctxs (put_tm h t s) = ctxs s" "next_ctx (put_tm h t s) = next_ctx s" "timers (put_tm h t s) = timers s"
  "next_timer (put_tm h t s) = next_timer s" "posted (put_tm h t s) = posted s"
  by (simp_all add: put_tm_def)

lemma get_handler_put_tm [simp]:
  "get_handler (put_tm h t s) h' = (if h' = h then (get_handler s h)\<lparr>h_tm := t\<rparr> else get_handler s h')"
  by (simp add: put_tm_def get_handler_def)

lemma get_tm_put_tm [simp]: "get_tm (put_tm h t s) h' = (if h' = h then t else get_tm s h')"
  by (simp add: get_tm_def)

lemma get_handler_update [simp]:
  "get_handler (s\<lparr>store := d\<rparr>) h = get_handler s h" "get_handler (s\<lparr>watch_reg := w\<rparr>) h = get_handler s h"
  "get_handler (s\<lparr>posted := ps\<rparr>) h = get_handler s h" "get_handler (s\<lparr>replica_reg := r\<rparr>) h = get_handler s h"
  "get_handler (s\<lparr>ctxs := cs\<rparr>) h = get_handler s h" "get_handler (s\<lparr>next_ctx := n\<rparr>) h = get_handler s h"
  "get_handler (s\<lparr>timers := ts\<rparr>) h = get_handler s h" "get_handler (s\<lparr>next_timer := n\<rparr>) h = get_handler s h"
  "get_handler (s\<lparr>blpop_reg := b\<rparr>) h = get_handler s h" "get_handler (s\<lparr>xread_reg := x\<rparr>) h = get_handler s h"
  by (simp_all add: get_handler_def)

lemma get_tm_update [simp]:
  "get_tm (s\<lparr>store := d\<rparr>) h = get_tm s h" "get_tm (s\<lparr>watch_reg := w\<rparr>) h = get_tm s h"
  "get_tm (s\<lparr>posted := ps\<rparr>) h = get_tm s h" "get_tm (s\<lparr>replica_reg := r\<rparr>) h = get_tm s h"
  "get_tm (s\<lparr>ctxs := cs\<rparr>) h = get_tm s h" "get_tm (s\<lparr>next_ctx := n\<rparr>) h = get_tm s h"
  "get_tm (s\<lparr>timers := ts\<rparr>) h = get_tm s h" "get_tm (s\<lparr>next_timer := n\<rparr>) h = get_tm s h"
  "get_tm (s\<lparr>blpop_reg := b\<rparr>) h = get_tm s h" "get_tm (s\<lparr>xread_reg := x\<rparr>) h = get_tm s h"
  by (simp_all add: get_tm_def)

text \<open>A property of the state that marking transactions dirty keeps is kept by \<open>notify_write\<close>.\<close>

lemma notify_write_induct:
  assumes "P s" "\<And>s h. P s \<Longrightarrow> P (put_tm h (mark_dirty (get_tm s h)) s)"
  shows "P (notify_write key s)"
proof -
  have "P (foldl mark_handler s hs)" for hs
    using assms(1) by (induction hs arbitrary: s) (simp_all add: mark_handler_def assms(2))
  then show ?thesis by (simp add: notify_write_def)
qed

lemma notify_write_fields [simp]:
  "config (notify_write key s) = config s" "clock (notify_write key s) = clock s"
  "wall (notify_write key s) = wall s" "store (notify_write key s) = store s"
  "blpop_reg (notify_write key s) = blpop_reg s" "xread_reg (notify_write key s) = xread_reg s"
  "watch_reg (notify_write key s) = watch_reg s" "replica_reg (notify_write key s) = replica_reg s"
  "ctxs (notify_write key s) = ctxs s" "next_ctx (notify_write key s) = next_ctx s"
  "timers (notify_write key s) = timers s" "next_timer (notify_write key s) = next_timer s"
  "posted (notify_write key s) = posted s"
  by (rule notify_write_induct [where P = "\<lambda>s'. f s' = f s" for f]; simp)+

lemma notify_write_tm:
  "get_tm (notify_write key s) h =
     (if h \<in> set (notified key (watch_reg s)) then mark_dirty (get_tm s h) else get_tm s h)"
proof -
  have "get_tm (foldl mark_handler s hs) h = (if h \<in> set hs then mark_dirty (get_tm s h) else get_tm s h)" for hs
    by (induction hs arbitrary: s) (auto simp: mark_handler_def mark_dirty_def)
  then show ?thesis by (simp add: notify_write_def)
qed

lemma notify_write_handler [simp]:
  "h_kind (get_handler (notify_write key s) h) = h_kind (get_handler s h)"
  "h_replicas (get_handler (notify_write key s) h) = h_replicas (get_handler s h)"
  by (rule notify_write_induct [where P = "\<lambda>s'. f (get_handler s' h) = f (get_handler s h)" for f]; auto)+

lemma cancel_timer_fields [simp]:
  "config (cancel_timer t s) = config s" "clock (cancel_timer t s) = clock s" "wall (cancel_timer t s) = wall s"
  "store (cancel_timer t s) = store s" "blpop_reg (cancel_timer t s) = blpop_reg s"
  "xread_reg (cancel_timer t s) = xread_reg s" "watch_reg (cancel_timer t s) = watch_reg s"
  "replica_reg (cancel_timer t s) = replica_reg s" "handlers (cancel_timer t s) = handlers s"
  "ctxs (cancel_timer t s) = ctxs s" "next_ctx (cancel_timer t s) = next_ctx s"
  "next_timer (cancel_timer t s) = next_timer s" "posted (cancel_timer t s) = posted s"
  by (simp_all add: cancel_timer_def split: option.split)

lemma new_timer_fields [simp]:
  "config (new_timer a t s) = config s" "clock (new_timer a t s) = clock s" "wall (new_timer a t s) = wall s"
  "store (new_timer a t s) = store s" "blpop_reg (new_timer a t s) = blpop_reg s"
  "xread_reg (new_timer a t s) = xread_reg s" "watch_reg (new_timer a t s) = watch_reg s"
  "replica_reg (new_timer a t s) = replica_reg s" "handlers (new_timer a t s) = handlers s"
  "ctxs (new_timer a t s) = ctxs s" "next_ctx (new_timer a t s) = next_ctx s" "posted (new_timer a t s) = posted s"
  by (simp_all add: new_timer_def)

lemma post_propagate_fields [simp]:
  "config (post_propagate b s) = config s" "clock (post_propagate b s) = clock s" "wall (post_propagate b s) = wall s"
  "store (post_propagate b s) = store s" "blpop_reg (post_propagate b s) = blpop_reg s"
  "xread_reg (post_propagate b s) = xread_reg s" "watch_reg (post_propagate b s) = watch_reg s"
  "handlers (post_propagate b s) = handlers s" "ctxs (post_propagate b s) = ctxs s"
  "next_ctx (post_propagate b s) = next_ctx s" "timers (post_propagate b s) = timers s"
  "next_timer (post_propagate b s) = next_timer s"
  by (simp_all add: post_propagate_def split: prod.split)

end
