(* ===== verification/Basic_Commands.thy ===== *)
theory Basic_Commands
  imports Server_State
begin

text \<open>
  PING, INFO, ECHO, SET, GET, TYPE and INCR (\<^verbatim>\<open>src/src/command/impl/BasicCommands.cpp\<close>): the whole body
  of each \<^verbatim>\<open>execute\<close>, from the argument check to the reply.
\<close>

section \<open>INFO\<close>

definition append_section :: "string \<Rightarrow> string \<Rightarrow> bool \<Rightarrow> string" where
  "append_section payload section first_section =
     (if \<not> first_section then payload @ crlf else payload) @ section"

definition build_server_section :: "server \<Rightarrow> string" where
  "build_server_section s =
     ''# Server'' @ crlf @ ''redis_version:'' @ version s @ crlf @ ''redis_mode:standalone'' @ crlf"

definition build_clients_section :: "handler \<Rightarrow> server \<Rightarrow> string" where
  "build_clients_section h s =
     ''# Clients'' @ crlf @ ''connected_clients:'' @ nat_str (if h_stats h then unat (connected_clients s) else 0) @ crlf"

definition build_memory_section :: "handler \<Rightarrow> server \<Rightarrow> string" where
  "build_memory_section h s =
     ''# Memory'' @ crlf @ ''used_memory:'' @
     nat_str (if h_stats h then approximate_memory_usage (store s) else 0) @ crlf"

fun slave_lines :: "nat \<Rightarrow> int list \<Rightarrow> string" where
  "slave_lines i [] = []"
| "slave_lines i (n # ns) = ''slave'' @ nat_str i @ '':offset='' @ int_str n @ crlf @ slave_lines (i + 1) ns"

definition build_replication_section :: "handler \<Rightarrow> server \<Rightarrow> string" where
  "build_replication_section h s =
     ''# Replication'' @ crlf @ ''role:'' @ role_str (config s) @ crlf @
     (if \<not> is_replica (config s) then
        ''connected_slaves:'' @ nat_str (if h_replicas h then replica_count (replica_reg s) else 0) @ crlf @
        slave_lines 0 (if h_replicas h then acked_offsets (replica_reg s) else [])
      else []) @
     ''master_replid:'' @ master_replid (config s) @ crlf @
     ''master_repl_offset:'' @
       int_str (if \<not> is_replica (config s) \<and> h_replicas h then master_offset (replica_reg s)
                else master_repl_offset (config s)) @ crlf @
     ''second_repl_offset:-1'' @ crlf @
     ''repl_backlog_active:0'' @ crlf @ ''repl_backlog_size:1048576'' @ crlf @
     ''repl_backlog_first_byte_offset:0'' @ crlf @ ''repl_backlog_histlen:'' @ crlf"

definition build_info_payload :: "string \<Rightarrow> handler \<Rightarrow> server \<Rightarrow> string" where
  "build_info_payload section h s =
     (let normalized = lowercase section
      in if normalized = [] \<or> normalized = ''all'' then
           append_section
             (append_section
               (append_section (append_section [] (build_server_section s) True) (build_clients_section h s) False)
               (build_memory_section h s) False)
             (build_replication_section h s) False
         else if normalized = ''server'' then build_server_section s
         else if normalized = ''clients'' then build_clients_section h s
         else if normalized = ''memory'' then build_memory_section h s
         else if normalized = ''replication'' then build_replication_section h s
         else [])"

definition exec_info :: "nat \<Rightarrow> command \<Rightarrow> reply_k \<Rightarrow> server \<Rightarrow> step_result" where
  "exec_info h cmd k s =
     (if length (cargs cmd) > 1 then
        reply k (''-ERR wrong number of arguments for '' @ [CHR 0x27] @ ''INFO'' @ [CHR 0x27] @ '' command'' @ crlf) s
      else
        (let section = (case cargs cmd of [] \<Rightarrow> [] | a # _ \<Rightarrow> a)
         in reply k (bulk_reply (build_info_payload section (get_handler s h) s)) s))"

section \<open>The other commands\<close>

definition exec_ping :: "command \<Rightarrow> reply_k \<Rightarrow> server \<Rightarrow> step_result" where
  "exec_ping cmd k s =
     (case cargs cmd of
        msg # _ \<Rightarrow> reply k (bulk_reply msg) s
      | [] \<Rightarrow> reply k (''+PONG'' @ crlf) s)"

definition exec_echo :: "command \<Rightarrow> reply_k \<Rightarrow> server \<Rightarrow> step_result" where
  "exec_echo cmd k s = with_args cmd 1 k s (reply k (bulk_reply (cargs cmd ! 0)) s)"

definition exec_set :: "command \<Rightarrow> reply_k \<Rightarrow> server \<Rightarrow> step_result" where
  "exec_set cmd k s = with_args cmd 2 k s
     (case parse_expiry cmd of
        Inl e \<Rightarrow> Throw e s
      | Inr ttl \<Rightarrow>
          let key = cargs cmd ! 0; v = cargs cmd ! 1
          in case ttl of
               Some ms \<Rightarrow>
                 if ms \<le> 0 then
                   reply k (''-ERR invalid expire time in '' @ [CHR 0x27] @ ''SET'' @ [CHR 0x27] @ '' command'' @ crlf) s
                 else
                   (case string_set_ttl (clock s) (store s) key v ms of
                      Inl e \<Rightarrow> Throw e s
                    | Inr d \<Rightarrow> reply k (''+OK'' @ crlf) (notify_write key (s\<lparr>store := d\<rparr>)))
             | None \<Rightarrow>
                 reply k (''+OK'' @ crlf) (notify_write key (s\<lparr>store := string_set (store s) key v\<rparr>)))"

definition exec_get :: "command \<Rightarrow> reply_k \<Rightarrow> server \<Rightarrow> step_result" where
  "exec_get cmd k s = with_args cmd 1 k s
     (case string_get (clock s) (store s) (cargs cmd ! 0) of
        (Inl err, d) \<Rightarrow> reply k (if sublist ''-WRONGTYPE'' err then err else null_bulk) (s\<lparr>store := d\<rparr>)
      | (Inr v, d) \<Rightarrow> reply k (bulk_reply v) (s\<lparr>store := d\<rparr>))"

definition exec_type :: "command \<Rightarrow> reply_k \<Rightarrow> server \<Rightarrow> step_result" where
  "exec_type cmd k s = with_args cmd 1 k s
     (case store_type_at (clock s) (store s) (cargs cmd ! 0) of
        (t, d) \<Rightarrow> reply k (CHR ''+'' # store_type_str t @ crlf) (s\<lparr>store := d\<rparr>))"

definition exec_incr :: "command \<Rightarrow> reply_k \<Rightarrow> server \<Rightarrow> step_result" where
  "exec_incr cmd k s = with_args cmd 1 k s
     (let key = cargs cmd ! 0
      in case string_incr (clock s) (store s) key of
           (Inr n, d) \<Rightarrow> reply k (CHR '':'' # int_str n @ crlf) (notify_write key (s\<lparr>store := d\<rparr>))
         | (Inl err, d) \<Rightarrow> reply k err (s\<lparr>store := d\<rparr>))"

end
