(* ===== verification/List_Commands.thy ===== *)
theory List_Commands
  imports Server_State
begin

text \<open>
  RPUSH, LPUSH, LRANGE, LLEN, LPOP and BLPOP (\<^verbatim>\<open>src/src/command/impl/ListCommands.cpp\<close>) and the serving
  of waiting BLPOP clients (\<^verbatim>\<open>BlockingManager::serve_blpop_waiters\<close>). A push first changes the list,
  then serves the waiters, then replies.
\<close>

section \<open>Definitions\<close>

definition length_reply :: "nat \<Rightarrow> string" where
  "length_reply n = CHR '':'' # nat_str n @ crlf"

definition items_reply :: "string list \<Rightarrow> string" where
  "items_reply xs = array_header (length xs) @ concat (map bulk_reply xs)"

definition exec_rpush :: "command \<Rightarrow> reply_k \<Rightarrow> server \<Rightarrow> step_result" where
  "exec_rpush cmd k s = with_args cmd 2 k s
     (let key = cargs cmd ! 0; vs = drop 1 (cargs cmd)
      in case rpush (store s) key vs of
           (n, d) \<Rightarrow> Next [F_serve_blpop key, F_reply k (length_reply n)] (notify_write key (s\<lparr>store := d\<rparr>)))"

definition exec_lpush :: "command \<Rightarrow> reply_k \<Rightarrow> server \<Rightarrow> step_result" where
  "exec_lpush cmd k s = with_args cmd 2 k s
     (let key = cargs cmd ! 0; vs = drop 1 (cargs cmd)
      in case lpush (store s) key vs of
           (n, d) \<Rightarrow> Next [F_serve_blpop key, F_reply k (length_reply n)] (notify_write key (s\<lparr>store := d\<rparr>)))"

definition exec_lrange :: "command \<Rightarrow> reply_k \<Rightarrow> server \<Rightarrow> step_result" where
  "exec_lrange cmd k s = with_args cmd 3 k s
     (case stoll (cargs cmd ! 1) of
        Inl e \<Rightarrow> Throw e s
      | Inr start \<Rightarrow>
         (case stoll (cargs cmd ! 2) of
            Inl e \<Rightarrow> Throw e s
          | Inr stop \<Rightarrow> reply k (items_reply (lrange (store s) (cargs cmd ! 0) start stop)) s))"

definition exec_llen :: "command \<Rightarrow> reply_k \<Rightarrow> server \<Rightarrow> step_result" where
  "exec_llen cmd k s = with_args cmd 1 k s (reply k (length_reply (llen (store s) (cargs cmd ! 0))) s)"

definition lpop_count :: "command \<Rightarrow> cpp_exn + nat" where
  "lpop_count cmd =
     (if length (cargs cmd) \<ge> 2 then
        (case stoull (cargs cmd ! 1) of Inl e \<Rightarrow> Inl e | Inr n \<Rightarrow> Inr (unat n))
      else Inr 1)"

definition exec_lpop :: "command \<Rightarrow> reply_k \<Rightarrow> server \<Rightarrow> step_result" where
  "exec_lpop cmd k s = with_args cmd 1 k s
     (case lpop_count cmd of
        Inl e \<Rightarrow> Throw e s
      | Inr n \<Rightarrow>
          let key = cargs cmd ! 0
          in case lpop (store s) key n of
               (Inl err, d) \<Rightarrow> reply k (if sublist ''-WRONGTYPE'' err then err else null_bulk) (s\<lparr>store := d\<rparr>)
             | (Inr values, d) \<Rightarrow>
                 let s' = notify_write key (s\<lparr>store := d\<rparr>)
                 in if length (cargs cmd) < 2 then
                      (case values of
                         [] \<Rightarrow> Throw Front_of_empty s'
                       | v # _ \<Rightarrow> reply k (bulk_reply v) s')
                    else reply k (items_reply values) s')"

text \<open>The search for a list that has an element; \<^verbatim>\<open>values->at(0)\<close> throws on an empty result.\<close>

fun blpop_try :: "string list \<Rightarrow> data \<Rightarrow> (cpp_exn + (string \<times> string) option) \<times> data" where
  "blpop_try [] d = (Inr None, d)"
| "blpop_try (key # keys) d =
     (case lpop d key 1 of
        (Inl _, d') \<Rightarrow> blpop_try keys d'
      | (Inr [], d') \<Rightarrow> (Inl (Out_of_range ''vector''), d')
      | (Inr (v # _), d') \<Rightarrow> (Inr (Some (key, v)), d'))"

definition blpop_reply :: "string \<Rightarrow> string \<Rightarrow> string" where
  "blpop_reply key v = ''*2'' @ crlf @ bulk_reply key @ bulk_reply v"

text \<open>The nanoseconds until the timeout of BLPOP; no positive timeout is \<^verbatim>\<open>time_point::max()\<close>.\<close>

definition blpop_expiry :: "double_val \<Rightarrow> cpp_exn + int option" where
  "blpop_expiry timeout =
     (if is_positive timeout then
        (case double_to_ll (case timeout of Finite v \<Rightarrow> Finite (v * 1000000000) | x \<Rightarrow> x) of
           Inl e \<Rightarrow> Inl e
         | Inr ns \<Rightarrow> Inr (Some ns))
      else Inr None)"

definition exec_blpop :: "command \<Rightarrow> reply_k \<Rightarrow> server \<Rightarrow> step_result" where
  "exec_blpop cmd k s = with_args cmd 2 k s
     (case stod (last (cargs cmd)) of
        Inl e \<Rightarrow> Throw e s
      | Inr timeout \<Rightarrow>
         (case blpop_try (butlast (cargs cmd)) (store s) of
            (Inl e, d) \<Rightarrow> Throw e (s\<lparr>store := d\<rparr>)
          | (Inr (Some (key, v)), d) \<Rightarrow> reply k (blpop_reply key v) (s\<lparr>store := d\<rparr>)
          | (Inr None, d) \<Rightarrow>
             (case blpop_expiry timeout of
                Inl e \<Rightarrow> Throw e (s\<lparr>store := d\<rparr>)
              | Inr after \<Rightarrow>
                 (case register_callbacks (butlast (cargs cmd)) \<lparr>bw_timer = next_timer s, bw_reply = k\<rparr> (blpop_reg s) of
                    (cid, r) \<Rightarrow> Next [] (new_timer after (T_blpop cid k) (s\<lparr>store := d, blpop_reg := r\<rparr>))))))"

text \<open>
  One turn of the loop of \<^verbatim>\<open>serve_blpop_waiters\<close>: the frame stays below the callback's reply until a
  turn finds no waiter or no element.
\<close>

definition serve_blpop_waiters :: "string \<Rightarrow> server \<Rightarrow> step_result" where
  "serve_blpop_waiters key s =
     (case regs_at (blpop_reg s) key of
        [] \<Rightarrow> Next [] s
      | (cid, w) # _ \<Rightarrow>
         (case lpop (store s) key 1 of
            (Inr (v # _), d) \<Rightarrow>
              Next [F_reply (bw_reply w) (blpop_reply key v), F_serve_blpop key]
                (cancel_timer (bw_timer w) (s\<lparr>store := d, blpop_reg := unregister cid (blpop_reg s)\<rparr>))
          | (_, d) \<Rightarrow> Next [] (s\<lparr>store := d\<rparr>)))"

end
