(* ===== verification/Stream_Commands.thy ===== *)
theory Stream_Commands
  imports Server_State
begin

text \<open>
  XADD, XRANGE and XREAD (\<^verbatim>\<open>src/src/command/impl/StreamCommands.cpp\<close>) and the serving of waiting XREAD
  clients (\<^verbatim>\<open>BlockingManager::serve_xread_waiters\<close>). XRANGE and XREAD call \<^verbatim>\<open>on_reply\<close> inside their
  \<^verbatim>\<open>try\<close> block, so the reply's frame stands above an \<^const>\<open>F_catch\<close>.
\<close>

section \<open>Replies\<close>

definition entry_reply :: "stream_entry \<Rightarrow> string" where
  "entry_reply e =
     ''*2'' @ crlf @ bulk_reply (entry_id e) @ array_header (length (entry_fields e) * 2) @
     concat (map (\<lambda>(f, v). bulk_reply f @ bulk_reply v) (entry_fields e))"

definition format_stream_entries :: "(string \<times> stream_entry list) list \<Rightarrow> string" where
  "format_stream_entries results =
     (if results = [] then null_array
      else array_header (length results) @
        concat (map (\<lambda>(key, es). ''*2'' @ crlf @ bulk_reply key @ array_header (length es) @
          concat (map entry_reply es)) results))"

section \<open>XADD and XRANGE\<close>

fun pair_fields :: "string list \<Rightarrow> (string \<times> string) list" where
  "pair_fields (f # v # rest) = (f, v) # pair_fields rest"
| "pair_fields _ = []"

definition exec_xadd :: "command \<Rightarrow> reply_k \<Rightarrow> server \<Rightarrow> step_result" where
  "exec_xadd cmd k s =
     (if length (cargs cmd) < 4 \<or> (length (cargs cmd) - 2) mod 2 \<noteq> 0
      then reply k (''-ERR wrong number of arguments for XADD'' @ crlf) s
      else
        (let key = cargs cmd ! 0
         in case xadd (wall s) (store s) key (cargs cmd ! 1) (pair_fields (drop 2 (cargs cmd))) of
              (Inl e, d) \<Rightarrow> Throw e (s\<lparr>store := d\<rparr>)
            | (Inr (Inr new_id), d) \<Rightarrow>
                Next [F_serve_xread (regs_at (xread_reg s) key), F_reply k (bulk_reply new_id)]
                  (notify_write key (s\<lparr>store := d\<rparr>))
            | (Inr (Inl err), d) \<Rightarrow> reply k (err @ crlf) (s\<lparr>store := d\<rparr>)))"

definition exec_xrange :: "command \<Rightarrow> reply_k \<Rightarrow> server \<Rightarrow> step_result" where
  "exec_xrange cmd k s =
     (if length (cargs cmd) \<noteq> 3 then reply k (''-ERR wrong number of arguments for XRANGE'' @ crlf) s
      else
        (case xrange (store s) (cargs cmd ! 0) (cargs cmd ! 1) (cargs cmd ! 2) of
           Inl e \<Rightarrow> catch_reply e k s
         | Inr es \<Rightarrow>
             Next [F_reply k (array_header (length es) @ concat (map entry_reply es)), F_catch k] s))"

section \<open>XREAD\<close>

record xread_args =
  x_valid :: bool
  x_blocking :: bool
  x_timeout :: double_val
  x_keys :: "string list"
  x_ids :: "string list"

text \<open>The index of the first argument that is the given word in any case.\<close>

definition find_word :: "string \<Rightarrow> string list \<Rightarrow> nat" where
  "find_word word args = length (takeWhile (\<lambda>a. map to_upper a \<noteq> word) args)"

definition parse_xread_args :: "command \<Rightarrow> xread_args" where
  "parse_xread_args cmd =
     (let args = cargs cmd;
          none = \<lparr>x_valid = False, x_blocking = False, x_timeout = Finite 0, x_keys = [], x_ids = []\<rparr>;
          b = find_word ''BLOCK'' args;
          blocking = (b < length args \<and> b + 1 < length args);
          timeout = (if blocking then stod (args ! (b + 1)) else Inr (Finite 0))
      in case timeout of
           Inl _ \<Rightarrow> none\<lparr>x_blocking := True\<rparr>
         | Inr t \<Rightarrow>
             let parsed = none\<lparr>x_blocking := blocking, x_timeout := t\<rparr>;
                 i = find_word ''STREAMS'' args
             in if i \<ge> length args then parsed
                else
                  let n = length args - i - 1
                  in if n = 0 \<or> n mod 2 \<noteq> 0 then parsed
                     else parsed\<lparr>x_valid := True, x_keys := take (n div 2) (drop (i + 1) args),
                            x_ids := drop (n div 2) (drop (i + 1) args)\<rparr>)"

fun resolve_stream_ids :: "data \<Rightarrow> string list \<Rightarrow> string list \<Rightarrow> cpp_exn + string list" where
  "resolve_stream_ids d [] ids = Inr []"
| "resolve_stream_ids d (key # keys) [] = Inl (Out_of_range ''vector'')"
| "resolve_stream_ids d (key # keys) (i # ids) =
     (case (if i = ''$'' then
              (case xrange d key ''-'' ''+'' of
                 Inl e \<Rightarrow> Inl e
               | Inr es \<Rightarrow> Inr (if es = [] then ''0-0'' else entry_id (last es)))
            else Inr i) of
        Inl e \<Rightarrow> Inl e
      | Inr r \<Rightarrow> (case resolve_stream_ids d keys ids of Inl e \<Rightarrow> Inl e | Inr rs \<Rightarrow> Inr (r # rs)))"

text \<open>The milliseconds of a positive timeout, converted to nanoseconds by the timer.\<close>

definition xread_expiry :: "double_val \<Rightarrow> cpp_exn + int option" where
  "xread_expiry timeout =
     (if is_positive timeout then
        (case double_to_ll timeout of
           Inl e \<Rightarrow> Inl e
         | Inr ms \<Rightarrow> (case ll_checked (ms * 1000000) of Inl e \<Rightarrow> Inl e | Inr ns \<Rightarrow> Inr (Some ns)))
      else Inr None)"

definition setup_xread_blocking :: "xread_args \<Rightarrow> string list \<Rightarrow> reply_k \<Rightarrow> server \<Rightarrow> step_result" where
  "setup_xread_blocking parsed resolved_ids k s =
     (case xread_expiry (x_timeout parsed) of
        Inl e \<Rightarrow> Throw e s
      | Inr after \<Rightarrow>
         (case register_callbacks (x_keys parsed)
             \<lparr>xw_timer = next_timer s, xw_keys = x_keys parsed, xw_ids = resolved_ids, xw_reply = k\<rparr> (xread_reg s) of
            (cid, r) \<Rightarrow> Next [] (new_timer after (T_xread cid k) (s\<lparr>xread_reg := r\<rparr>))))"

definition exec_xread :: "command \<Rightarrow> reply_k \<Rightarrow> server \<Rightarrow> step_result" where
  "exec_xread cmd k s =
     (let parsed = parse_xread_args cmd
      in if \<not> x_valid parsed then reply k (''-ERR syntax error'' @ crlf) s
         else
           (case resolve_stream_ids (store s) (x_keys parsed) (x_ids parsed) of
              Inl e \<Rightarrow> Throw e s
            | Inr resolved_ids \<Rightarrow>
               (case xread (store s) (x_keys parsed) resolved_ids of
                  Inl e \<Rightarrow> catch_reply e k s
                | Inr results \<Rightarrow>
                    if results \<noteq> [] then Next [F_reply k (format_stream_entries results), F_catch k] s
                    else if \<not> x_blocking parsed then Next [F_reply k null_array, F_catch k] s
                    else setup_xread_blocking parsed resolved_ids k s)))"

text \<open>
  One turn of the loop of \<^verbatim>\<open>serve_xread_waiters\<close> over its copy of the waiters; the callback reads the
  streams again and may throw.
\<close>

definition serve_xread_waiters :: "(nat \<times> xread_waiter) list \<Rightarrow> server \<Rightarrow> step_result" where
  "serve_xread_waiters waiters s =
     (case waiters of
        [] \<Rightarrow> Next [] s
      | (cid, w) # rest \<Rightarrow>
          let s' = cancel_timer (xw_timer w) (s\<lparr>xread_reg := unregister cid (xread_reg s)\<rparr>)
          in case xread (store s') (xw_keys w) (xw_ids w) of
               Inl e \<Rightarrow> Throw e s'
             | Inr results \<Rightarrow> Next [F_reply (xw_reply w) (format_stream_entries results), F_serve_xread rest] s')"

end
