(* ===== verification/Control_Commands.thy ===== *)
theory Control_Commands
  imports Server_State
begin

text \<open>
  The commands of transactions, watches and replication
  (\<^verbatim>\<open>src/src/command/impl/TransactionCommands.cpp\<close>, \<^verbatim>\<open>WatchCommands.cpp\<close>, \<^verbatim>\<open>ReplicationCommands.cpp\<close>). EXEC
  puts the queued commands in a context and runs them one after the other, each from the callback of
  the one before it; WAIT polls the replica registry with a timer.
\<close>

section \<open>MULTI, DISCARD, WATCH, UNWATCH\<close>

definition exec_multi :: "nat \<Rightarrow> reply_k \<Rightarrow> server \<Rightarrow> step_result" where
  "exec_multi h k s = reply k (''+OK'' @ crlf) (put_tm h (begin_tm (get_tm s h)) s)"

text \<open>\<^verbatim>\<open>tm_.reset()\<close> with the shared watch manager.\<close>

definition reset_handler :: "nat \<Rightarrow> server \<Rightarrow> server" where
  "reset_handler h s =
     (case reset_tm (get_tm s h) (watch_reg s) of (t, w) \<Rightarrow> put_tm h t (s\<lparr>watch_reg := w\<rparr>))"

definition exec_discard :: "nat \<Rightarrow> reply_k \<Rightarrow> server \<Rightarrow> step_result" where
  "exec_discard h k s =
     (if \<not> in_transaction (get_tm s h) then reply k (''-ERR DISCARD without MULTI'' @ crlf) s
      else reply k (''+OK'' @ crlf) (reset_handler h s))"

definition exec_watch :: "nat \<Rightarrow> command \<Rightarrow> reply_k \<Rightarrow> server \<Rightarrow> step_result" where
  "exec_watch h cmd k s =
     (if in_transaction (get_tm s h) then reply k (''-ERR WATCH inside MULTI is not allowed'' @ crlf) s
      else with_args cmd 1 k s
        (case watch_all h (cargs cmd) (get_tm s h, watch_reg s) of
           (t, w) \<Rightarrow> reply k (''+OK'' @ crlf) (put_tm h t (s\<lparr>watch_reg := w\<rparr>))))"

definition exec_unwatch :: "nat \<Rightarrow> command \<Rightarrow> reply_k \<Rightarrow> server \<Rightarrow> step_result" where
  "exec_unwatch h cmd k s =
     (if cargs cmd \<noteq> [] then
        reply k (''-ERR wrong number of arguments for '' @ [CHR 0x27] @ cname cmd @ [CHR 0x27] @ '' command'' @ crlf) s
      else
        (case clear_watches (get_tm s h) (watch_reg s) of
           (t, w) \<Rightarrow> reply k (''+OK'' @ crlf) (put_tm h t (s\<lparr>watch_reg := w\<rparr>))))"

section \<open>EXEC\<close>

definition exec_exec :: "nat \<Rightarrow> reply_k \<Rightarrow> server \<Rightarrow> step_result" where
  "exec_exec h k s =
     (if \<not> in_transaction (get_tm s h) then reply k (''-ERR EXEC without MULTI'' @ crlf) s
      else if dirty (get_tm s h) then reply k null_array (reset_handler h s)
      else
        (case pop_queued_commands (get_tm s h) of
           (queued, t) \<Rightarrow>
             let s' = reset_handler h (put_tm h t s)
             in if queued = [] then reply k (''*0'' @ crlf) s'
                else
                  Next [F_run_next (next_ctx s')]
                    (s'\<lparr>ctxs := um_put (next_ctx s')
                         \<lparr>cx_index = 0, cx_results = replicate (length queued) [], cx_commands = queued,
                          cx_handler = h, cx_reply = k\<rparr> (ctxs s'),
                       next_ctx := next_ctx s' + 1\<rparr>)))"

definition unknown_command :: "string \<Rightarrow> string" where
  "unknown_command nm = ''-ERR unknown command '' @ [CHR 0x27] @ nm @ [CHR 0x27] @ crlf"

text \<open>\<^verbatim>\<open>results.at(index) = res; index++\<close>, with \<^verbatim>\<open>at\<close>'s range check.\<close>

definition store_result_at :: "nat \<Rightarrow> string \<Rightarrow> exec_ctx \<Rightarrow> server \<Rightarrow> server" where
  "store_result_at c res x s =
     s\<lparr>ctxs := um_put c (x\<lparr>cx_results := (cx_results x)[cx_index x := res], cx_index := cx_index x + 1\<rparr>) (ctxs s)\<rparr>"

definition run_next :: "nat \<Rightarrow> server \<Rightarrow> step_result" where
  "run_next c s =
     (case um_find (ctxs s) c of
        None \<Rightarrow> Next [] s
      | Some x \<Rightarrow>
          if cx_index x = length (cx_commands x)
          then reply (cx_reply x) (array_header (length (cx_results x)) @ concat (cx_results x)) s
          else if cx_index x > length (cx_commands x) then Throw (Out_of_range ''vector'') s
          else
            (let request = cx_commands x ! cx_index x
             in case parse_command request of
                  Inl e \<Rightarrow> Throw e s
                | Inr cmd \<Rightarrow>
                    if registry_find (h_kind (get_handler s (cx_handler x))) (ctype cmd)
                    then Next [F_exec (cx_handler x) cmd (K_exec c (ctype cmd) request)] s
                    else if cx_index x < length (cx_results x)
                    then Next [F_run_next c] (store_result_at c (unknown_command (cname cmd)) x s)
                    else Throw (Out_of_range ''vector'') s))"

text \<open>The callback of a queued command.\<close>

definition exec_callback :: "nat \<Rightarrow> command_type \<Rightarrow> resp_value \<Rightarrow> string \<Rightarrow> server \<Rightarrow> step_result" where
  "exec_callback c t request res s =
     (case um_find (ctxs s) c of
        None \<Rightarrow> Next [] s
      | Some x \<Rightarrow>
          if cx_index x \<ge> length (cx_results x) then Throw (Out_of_range ''vector'') s
          else
            (let s' = store_result_at c res x s
             in Next [F_run_next c]
                  (if h_replicas (get_handler s (cx_handler x)) \<and> is_write_command t
                   then post_propagate (serialize request) s' else s')))"

section \<open>REPLCONF, PSYNC, WAIT\<close>

definition exec_replconf :: "reply_k \<Rightarrow> server \<Rightarrow> step_result" where
  "exec_replconf k s = reply k (''+OK'' @ crlf) s"

definition rdb_payload :: string where
  "rdb_payload = ''REDIS0009'' @ [CHR 0xFF] @ replicate 8 (CHR 0x00)"

definition exec_psync :: "nat \<Rightarrow> command \<Rightarrow> reply_k \<Rightarrow> server \<Rightarrow> step_result" where
  "exec_psync h cmd k s = with_args cmd 2 k s
     (if is_replica (config s) then reply k (''-ERR not a master'' @ crlf) s
      else
        (let offset = (if h_replicas (get_handler s h) then master_offset (replica_reg s)
                       else master_repl_offset (config s))
         in reply k (''+FULLRESYNC '' @ master_replid (config s) @ '' '' @ int_str offset @ crlf @
              ''$'' @ nat_str (length rdb_payload) @ crlf @ rdb_payload) s))"

definition exec_wait :: "nat \<Rightarrow> command \<Rightarrow> reply_k \<Rightarrow> server \<Rightarrow> step_result" where
  "exec_wait h cmd k s =
     (if length (cargs cmd) \<noteq> 2 then
        reply k (''-ERR wrong number of arguments for '' @ [CHR 0x27] @ ''WAIT'' @ [CHR 0x27] @ '' command'' @ crlf) s
      else
        (case (parse_nonnegative (cargs cmd ! 0), parse_nonnegative (cargs cmd ! 1)) of
           (Some numreplicas, Some timeout_ms) \<Rightarrow>
             if \<not> h_replicas (get_handler s h) then reply k ('':0'' @ crlf) s
             else
               (let target = master_offset (replica_reg s);
                    already = int (count_acked_at_least target (replica_reg s))
                in if already \<ge> numreplicas then reply k (CHR '':'' # int_str already @ crlf) s
                   else
                     (case request_getack (replica_reg s) of
                        (ws, r) \<Rightarrow>
                          let s' = s\<lparr>replica_reg := r, posted := posted s @ ws\<rparr>
                          in if timeout_ms > 0 then
                               (case expiry_time (clock s) timeout_ms of
                                  Inl e \<Rightarrow> Throw e s'
                                | Inr deadline \<Rightarrow> Next [F_poll target numreplicas (Some deadline) k] s')
                             else Next [F_poll target numreplicas None k] s'))
         | _ \<Rightarrow> reply k (''-ERR value is not an integer or out of range'' @ crlf) s))"

definition kWaitPollInterval :: int where
  "kWaitPollInterval = 20 * 1000000"

definition wait_poll :: "int \<Rightarrow> int \<Rightarrow> int option \<Rightarrow> reply_k \<Rightarrow> server \<Rightarrow> step_result" where
  "wait_poll target numreplicas deadline k s =
     (let n = int (count_acked_at_least target (replica_reg s));
          timed_out = (case deadline of Some t \<Rightarrow> clock s \<ge> t | None \<Rightarrow> False)
      in if n \<ge> numreplicas \<or> timed_out then reply k (CHR '':'' # int_str n @ crlf) s
         else Next [] (new_timer (Some kWaitPollInterval) (T_poll target numreplicas deadline k) s))"

end
