(* ===== verification/Engine.thy ===== *)
theory Engine
  imports Basic_Commands List_Commands Stream_Commands Control_Commands
begin

text \<open>
  The execution of requests on the store thread: the virtual call \<^verbatim>\<open>ICommand::execute\<close>, the
  \<^verbatim>\<open>TransactionDispatcher\<close>, \<^verbatim>\<open>CommandHandler::handle\<close>, and the machine that runs the calls in
  progress. Its termination is proved here: whatever the clients have queued, a request or a timer
  is processed in finitely many steps.
\<close>

section \<open>Definitions\<close>

text \<open>
  \<^verbatim>\<open>command_impl->execute\<close> for the implementations that \<^verbatim>\<open>build_client_registry\<close> and
  \<^verbatim>\<open>build_replication_registry\<close> register; \<open>h\<close> is the handler whose registry holds it.
\<close>

definition exec_command :: "nat \<Rightarrow> command \<Rightarrow> reply_k \<Rightarrow> server \<Rightarrow> step_result" where
  "exec_command h cmd k s =
     (case ctype cmd of
        Ping \<Rightarrow> exec_ping cmd k s
      | Info \<Rightarrow> exec_info h cmd k s
      | Echo \<Rightarrow> exec_echo cmd k s
      | Set \<Rightarrow> exec_set cmd k s
      | Get \<Rightarrow> exec_get cmd k s
      | TypeCmd \<Rightarrow> exec_type cmd k s
      | RPush \<Rightarrow> exec_rpush cmd k s
      | LPush \<Rightarrow> exec_lpush cmd k s
      | LRange \<Rightarrow> exec_lrange cmd k s
      | LLen \<Rightarrow> exec_llen cmd k s
      | LPop \<Rightarrow> exec_lpop cmd k s
      | BLPop \<Rightarrow> exec_blpop cmd k s
      | XAdd \<Rightarrow> exec_xadd cmd k s
      | XRange \<Rightarrow> exec_xrange cmd k s
      | XRead \<Rightarrow> exec_xread cmd k s
      | Incr \<Rightarrow> exec_incr cmd k s
      | Multi \<Rightarrow> exec_multi h k s
      | Watch \<Rightarrow> exec_watch h cmd k s
      | Unwatch \<Rightarrow> exec_unwatch h cmd k s
      | Exec \<Rightarrow> exec_exec h k s
      | Discard \<Rightarrow> exec_discard h k s
      | Replconf \<Rightarrow> exec_replconf k s
      | Psync \<Rightarrow> exec_psync h cmd k s
      | Wait \<Rightarrow> exec_wait h cmd k s
      | Unknown \<Rightarrow> Next [] s)"

text \<open>The call of an \<^verbatim>\<open>on_reply\<close> closure.\<close>

primrec call_reply :: "reply_k \<Rightarrow> string \<Rightarrow> server \<Rightarrow> step_result" where
  "call_reply (K_write conn) r s = Next [] (s\<lparr>posted := posted s @ [(conn, r)]\<rparr>)"
| "call_reply K_ignore r s = Next [] s"
| "call_reply (K_propagate k raw) r s = Next [F_reply k r, F_propagate raw] s"
| "call_reply (K_exec c t request) r s = exec_callback c t request r s"

primrec step :: "frame \<Rightarrow> server \<Rightarrow> step_result" where
  "step (F_exec h cmd k) s = exec_command h cmd k s"
| "step (F_reply k r) s = call_reply k r s"
| "step (F_propagate raw) s = Next [] (post_propagate raw s)"
| "step (F_serve_blpop key) s = serve_blpop_waiters key s"
| "step (F_serve_xread ws) s = serve_xread_waiters ws s"
| "step (F_run_next c) s = run_next c s"
| "step (F_catch k) s = Next [] s"
| "step (F_poll target n deadline k) s = wait_poll target n deadline k s"

text \<open>An exception leaves the calls above the nearest \<^verbatim>\<open>catch\<close>, which replies; \<^const>\<open>None\<close> is
  \<^verbatim>\<open>std::terminate\<close>.\<close>

fun unwind :: "cpp_exn \<Rightarrow> frame list \<Rightarrow> frame list option" where
  "unwind e [] = None"
| "unwind e (F_catch k # fs) =
     (if is_std_exception e then Some (F_reply k (''-ERR '' @ exn_what e @ crlf) # fs) else unwind e fs)"
| "unwind e (f # fs) = unwind e fs"

text \<open>One transition of the machine: the next frames and state, or the end of the run.\<close>

datatype machine = Running "frame list" server | Done server | Crashed cpp_exn server

fun machine_step :: "frame list \<Rightarrow> server \<Rightarrow> machine" where
  "machine_step [] s = Done s"
| "machine_step (f # fs) s =
     (case step f s of
        Next gs s' \<Rightarrow> Running (gs @ fs) s'
      | Throw e s' \<Rightarrow>
         (case unwind e fs of Some fs' \<Rightarrow> Running fs' s' | None \<Rightarrow> Crashed e s'))"

section \<open>The measure\<close>

text \<open>Commands still to be run by EXEC contexts or queued in transaction managers.\<close>

definition ctx_left :: "exec_ctx \<Rightarrow> nat" where
  "ctx_left x = length (cx_results x) - cx_index x"

definition queued_left :: "server \<Rightarrow> nat" where
  "queued_left s = (\<Sum>(h, x)\<leftarrow>handlers s. length (queued_commands (h_tm x)))"

definition work_left :: "server \<Rightarrow> nat" where
  "work_left s = (\<Sum>(c, x)\<leftarrow>ctxs s. ctx_left x) + queued_left s"

definition list_size :: "store_value \<Rightarrow> nat" where
  "list_size v = (case sval v of VList xs \<Rightarrow> length xs | _ \<Rightarrow> 0)"

definition elements_left :: "server \<Rightarrow> nat" where
  "elements_left s = (\<Sum>(k, v)\<leftarrow>store s. list_size v)"

primrec exec_weight :: "frame \<Rightarrow> nat" where
  "exec_weight (F_exec h cmd k) = 1"
| "exec_weight (F_reply k r) = 0"
| "exec_weight (F_propagate raw) = 0"
| "exec_weight (F_serve_blpop key) = 0"
| "exec_weight (F_serve_xread ws) = 0"
| "exec_weight (F_run_next c) = 2"
| "exec_weight (F_catch k) = 0"
| "exec_weight (F_poll target n deadline k) = 0"

primrec frame_weight :: "frame \<Rightarrow> nat" where
  "frame_weight (F_exec h cmd k) = 1"
| "frame_weight (F_reply k r) = 2 * size k + 2"
| "frame_weight (F_propagate raw) = 1"
| "frame_weight (F_serve_blpop key) = 1"
| "frame_weight (F_serve_xread ws) = (\<Sum>(cid, w)\<leftarrow>ws. 2 * size (xw_reply w) + 4) + 1"
| "frame_weight (F_run_next c) = 1"
| "frame_weight (F_catch k) = 2 * size k + 4"
| "frame_weight (F_poll target n deadline k) = 2 * size k + 4"

definition machine_measures :: "(frame list \<times> server \<Rightarrow> nat) list" where
  "machine_measures =
     [\<lambda>(fs, s). work_left s,
      \<lambda>(fs, s). queued_left s,
      \<lambda>(fs, s). sum_list (map exec_weight fs),
      \<lambda>(fs, s). elements_left s,
      \<lambda>(fs, s). sum_list (map frame_weight fs)]"

lemma queued_left_put_tm:
  "queued_left (put_tm h t s) + length (queued_commands (get_tm s h)) = length (queued_commands t) + queued_left s"
proof -
  have "queued_commands (h_tm default_handler) = []" by (simp add: default_handler_def empty_tm_def)
  then show ?thesis
    using sum_um_put [where f = "\<lambda>x. length (queued_commands (h_tm x))" and k = h and m = "handlers s"
        and v = "(get_handler s h)\<lparr>h_tm := t\<rparr>"]
    by (simp add: queued_left_def put_tm_def get_tm_def get_handler_def split: option.splits)
qed

lemma queued_left_notify [simp]: "queued_left (notify_write key s) = queued_left s"
proof (rule notify_write_induct [where P = "\<lambda>s'. queued_left s' = queued_left s"])
  fix s' h
  assume "queued_left s' = queued_left s"
  then show "queued_left (put_tm h (mark_dirty (get_tm s' h)) s') = queued_left s"
    using queued_left_put_tm [of h "mark_dirty (get_tm s' h)" s'] by (simp add: mark_dirty_def)
qed simp

lemma queued_left_update [simp]:
  "queued_left (s\<lparr>store := d\<rparr>) = queued_left s" "queued_left (s\<lparr>posted := ps\<rparr>) = queued_left s"
  "queued_left (s\<lparr>replica_reg := r\<rparr>) = queued_left s" "queued_left (s\<lparr>watch_reg := w\<rparr>) = queued_left s"
  "queued_left (s\<lparr>blpop_reg := b\<rparr>) = queued_left s" "queued_left (s\<lparr>xread_reg := x\<rparr>) = queued_left s"
  "queued_left (s\<lparr>ctxs := cs\<rparr>) = queued_left s" "queued_left (s\<lparr>next_ctx := n\<rparr>) = queued_left s"
  "queued_left (new_timer a t s) = queued_left s" "queued_left (cancel_timer i s) = queued_left s"
  "queued_left (post_propagate raw s) = queued_left s"
  by (simp_all add: queued_left_def)

text \<open>A step that starts no command: no new work, no new calls of commands.\<close>

definition quiet :: "server \<Rightarrow> step_result \<Rightarrow> bool" where
  "quiet s r \<longleftrightarrow>
     ctxs (result_state r) = ctxs s \<and> queued_left (result_state r) \<le> queued_left s \<and>
     sum_list (map exec_weight (result_frames r)) = 0"

lemma quiet_with_args [simp]: "quiet s body \<Longrightarrow> quiet s (with_args cmd n k s body)"
  by (simp add: with_args_def quiet_def split: option.split)

lemma quiet_reply [simp]:
  "quiet s (reply k r s') \<longleftrightarrow> ctxs s' = ctxs s \<and> queued_left s' \<le> queued_left s"
  by (simp add: quiet_def)

lemma quiet_Throw [simp]: "quiet s (Throw e s') \<longleftrightarrow> ctxs s' = ctxs s \<and> queued_left s' \<le> queued_left s"
  by (simp add: quiet_def)

lemma quiet_catch_reply [simp]: "quiet s (catch_reply e k s)"
  by (simp add: catch_reply_def)

lemma quiet_basic:
  "quiet s (exec_ping cmd k s)" "quiet s (exec_info h cmd k s)" "quiet s (exec_echo cmd k s)"
  "quiet s (exec_get cmd k s)" "quiet s (exec_type cmd k s)" "quiet s (exec_incr cmd k s)"
  by (auto simp: exec_ping_def exec_info_def exec_echo_def exec_get_def exec_type_def exec_incr_def Let_def
      split: list.split prod.split sum.split)

lemma quiet_set: "quiet s (exec_set cmd k s)"
  by (auto simp: exec_set_def Let_def split: sum.split option.split)

lemma quiet_lists:
  "quiet s (exec_rpush cmd k s)" "quiet s (exec_lpush cmd k s)" "quiet s (exec_lrange cmd k s)"
  "quiet s (exec_llen cmd k s)"
  by (auto simp: exec_rpush_def exec_lpush_def exec_lrange_def exec_llen_def Let_def quiet_def [of _ "Next _ _"]
      split: sum.split prod.split)

lemma quiet_lpop: "quiet s (exec_lpop cmd k s)"
  by (auto simp: exec_lpop_def Let_def split: sum.split prod.split list.split)

lemma quiet_blpop: "quiet s (exec_blpop cmd k s)"
  by (auto simp: exec_blpop_def quiet_def [of _ "Next [] _"] split: sum.split prod.split option.split)

lemma quiet_streams:
  "quiet s (exec_xadd cmd k s)" "quiet s (exec_xrange cmd k s)"
  by (auto simp: exec_xadd_def exec_xrange_def Let_def quiet_def [of _ "Next _ _"] split: sum.split prod.split)

lemma quiet_xread: "quiet s (exec_xread cmd k s)"
  by (auto simp: exec_xread_def setup_xread_blocking_def Let_def quiet_def [of _ "Next _ _"]
      split: sum.split prod.split)

lemma quiet_replication:
  "quiet s (exec_replconf k s)" "quiet s (exec_psync h cmd k s)" "quiet s (exec_wait h cmd k s)"
  by (auto simp: exec_replconf_def exec_psync_def exec_wait_def Let_def quiet_def [of _ "Next _ _"]
      split: sum.split prod.split option.split)

lemma reset_handler_fields [simp]:
  "ctxs (reset_handler h s) = ctxs s" "store (reset_handler h s) = store s"
  by (simp_all add: reset_handler_def split: prod.split)

lemma queued_left_reset:
  "queued_left (reset_handler h s) + length (queued_commands (get_tm s h)) = queued_left s"
proof -
  obtain t w where t: "reset_tm (get_tm s h) (watch_reg s) = (t, w)" by force
  then have "queued_commands t = []" by (auto simp: reset_tm_def split: prod.splits)
  then show ?thesis using queued_left_put_tm [of h t "s\<lparr>watch_reg := w\<rparr>"] by (simp add: reset_handler_def t)
qed

lemma queued_left_reset_le: "queued_left (reset_handler h s) \<le> queued_left s"
  using queued_left_reset [of h s] by simp

lemma queued_left_same:
  "queued_commands t = queued_commands (get_tm s h) \<Longrightarrow> queued_left (put_tm h t s) = queued_left s"
  using queued_left_put_tm [of h t s] by simp

lemma watch_all_queue: "queued_commands (fst (watch_all h keys (t, w))) = queued_commands t"
  by (induction keys arbitrary: t w)
     (auto simp: watch_key_def associate_watch_id_def split: option.split prod.split)

lemma quiet_transactions:
  "quiet s (exec_multi h k s)" "quiet s (exec_discard h k s)" "quiet s (exec_watch h cmd k s)"
  "quiet s (exec_unwatch h cmd k s)"
proof -
  show "quiet s (exec_multi h k s)"
    using queued_left_put_tm [of h "begin_tm (get_tm s h)" s] by (simp add: exec_multi_def begin_tm_def)
  show "quiet s (exec_discard h k s)"
    by (simp add: exec_discard_def queued_left_reset_le)
  obtain t w where t: "watch_all h (cargs cmd) (get_tm s h, watch_reg s) = (t, w)" by force
  then have "queued_commands t = queued_commands (get_tm s h)"
    using watch_all_queue [of h "cargs cmd" "get_tm s h" "watch_reg s"] by simp
  then show "quiet s (exec_watch h cmd k s)"
    by (simp add: exec_watch_def t queued_left_same)
  show "quiet s (exec_unwatch h cmd k s)"
    by (simp add: exec_unwatch_def clear_watches_def queued_left_same)
qed

text \<open>EXEC moves the queue into a context.\<close>

lemma exec_exec_cases:
  obtains "quiet s (exec_exec h k s)"
  | gs s' where "exec_exec h k s = Next gs s'" "work_left s' \<le> work_left s" "queued_left s' < queued_left s"
proof (cases "\<not> in_transaction (get_tm s h) \<or> dirty (get_tm s h) \<or> queued_commands (get_tm s h) = []")
  case True
  then have "quiet s (exec_exec h k s)"
    using queued_left_reset_le [of h s] queued_left_reset_le [of h "put_tm h ((get_tm s h)\<lparr>queued_commands := []\<rparr>) s"]
      queued_left_put_tm [of h "(get_tm s h)\<lparr>queued_commands := []\<rparr>" s]
    by (auto simp: exec_exec_def pop_queued_commands_def Let_def)
  then show ?thesis by (rule that(1))
next
  case False
  let ?q = "queued_commands (get_tm s h)" and ?s1 = "put_tm h ((get_tm s h)\<lparr>queued_commands := []\<rparr>) s"
  let ?s2 = "reset_handler h ?s1"
  let ?x = "\<lparr>cx_index = 0, cx_results = replicate (length ?q) [], cx_commands = ?q, cx_handler = h, cx_reply = k\<rparr>"
  let ?s' = "?s2\<lparr>ctxs := um_put (next_ctx ?s2) ?x (ctxs ?s2), next_ctx := next_ctx ?s2 + 1\<rparr>"
  have e: "exec_exec h k s = Next [F_run_next (next_ctx ?s2)] ?s'"
    using False by (simp add: exec_exec_def pop_queued_commands_def Let_def)
  have q: "queued_left ?s' + length ?q = queued_left s"
    using queued_left_put_tm [of h "(get_tm s h)\<lparr>queued_commands := []\<rparr>" s] queued_left_reset [of h ?s1] by simp
  have "(\<Sum>(c, x)\<leftarrow>ctxs ?s'. ctx_left x) \<le> length ?q + (\<Sum>(c, x)\<leftarrow>ctxs s. ctx_left x)"
    using sum_um_put [where f = ctx_left and k = "next_ctx ?s2" and v = ?x and m = "ctxs s"]
    by (simp add: ctx_left_def)
  with q have "work_left ?s' \<le> work_left s" by (simp add: work_left_def)
  moreover have "queued_left ?s' < queued_left s" using q False by (cases ?q) auto
  ultimately show ?thesis using that(2) [OF e] by blast
qed

lemma quiet_exec_command: "ctype cmd \<noteq> Exec \<Longrightarrow> quiet s (exec_command h cmd k s)"
  by (cases "ctype cmd")
     (simp_all add: exec_command_def quiet_basic quiet_set quiet_lists quiet_lpop quiet_blpop quiet_streams
       quiet_xread quiet_replication quiet_transactions, simp add: quiet_def)

lemma quiet_work: "quiet s r \<Longrightarrow> work_left (result_state r) \<le> work_left s"
  by (simp add: quiet_def work_left_def)

lemma exec_command_Next:
  assumes "exec_command h cmd k s = Next gs s'"
  shows "((gs @ fs, s'), (F_exec h cmd k # fs, s)) \<in> measures machine_measures"
proof -
  have "((gs @ fs, s'), (F_exec h cmd k # fs, s)) \<in> measures machine_measures" if "quiet s (Next gs s')"
    using that quiet_work [OF that] by (auto simp: quiet_def machine_measures_def)
  moreover have "((gs @ fs, s'), (F_exec h cmd k # fs, s)) \<in> measures machine_measures"
    if "work_left s' \<le> work_left s" "queued_left s' < queued_left s"
    using that by (auto simp: machine_measures_def)
  ultimately show ?thesis
    using assms quiet_exec_command [of cmd s h k] exec_exec_cases [of s h k]
    by (cases "ctype cmd = Exec") (fastforce simp: exec_command_def)+
qed

lemma exec_command_Throw:
  assumes "exec_command h cmd k s = Throw e s'"
  shows "work_left s' \<le> work_left s \<and> queued_left s' \<le> queued_left s"
proof -
  have "quiet s (exec_command h cmd k s)"
    using assms quiet_exec_command [of cmd s h k] exec_exec_cases [of s h k]
    by (cases "ctype cmd = Exec") (fastforce simp: exec_command_def)+
  with assms quiet_work [of s "Throw e s'"] show ?thesis by (simp add: quiet_def)
qed

lemma lpop_elements:
  assumes "lpop d key n = (r, d')"
  shows "(\<Sum>(k, v)\<leftarrow>d'. list_size v) \<le> (\<Sum>(k, v)\<leftarrow>d. list_size v)"
    and "r = Inr (x # xs) \<Longrightarrow> (\<Sum>(k, v)\<leftarrow>d'. list_size v) < (\<Sum>(k, v)\<leftarrow>d. list_size v)"
proof -
  have "(\<Sum>(k, v)\<leftarrow>d'. list_size v) + (case r of Inr ys \<Rightarrow> length ys | Inl _ \<Rightarrow> 0) \<le> (\<Sum>(k, v)\<leftarrow>d. list_size v)"
  proof (cases "um_find d key")
    case None
    with assms show ?thesis by (auto simp: lpop_def)
  next
    case (Some v)
    show ?thesis
    proof (cases "sval v")
      case (VList ys)
      then have "list_size v = length ys" by (simp add: list_size_def)
      moreover have "list_size (v\<lparr>sval := VList zs\<rparr>) = length zs" for zs by (simp add: list_size_def)
      ultimately show ?thesis
        using assms Some VList sum_um_erase_found [OF Some, of list_size]
          sum_um_put [where f = list_size and k = key and v = "v\<lparr>sval := VList (drop (min n (length ys)) ys)\<rparr>" and m = d]
        by (auto simp: lpop_def Let_def split: if_splits)
    qed (use assms Some in \<open>auto simp: lpop_def\<close>)
  qed
  then show "(\<Sum>(k, v)\<leftarrow>d'. list_size v) \<le> (\<Sum>(k, v)\<leftarrow>d. list_size v)"
    "r = Inr (x # xs) \<Longrightarrow> (\<Sum>(k, v)\<leftarrow>d'. list_size v) < (\<Sum>(k, v)\<leftarrow>d. list_size v)" by auto
qed

lemma work_left_store_result:
  assumes "um_find (ctxs s) c = Some x" "cx_index x < length (cx_results x)"
  shows "work_left (store_result_at c res x s) < work_left s"
  using assms sum_um_put [where f = ctx_left and k = c and m = "ctxs s"
      and v = "x\<lparr>cx_results := (cx_results x)[cx_index x := res], cx_index := cx_index x + 1\<rparr>"]
  by (simp add: work_left_def store_result_at_def ctx_left_def)

lemma work_left_post_propagate [simp]: "work_left (post_propagate raw s) = work_left s"
  by (simp add: work_left_def)

lemma work_left_same:
  "ctxs s' = ctxs s \<Longrightarrow> handlers s' = handlers s \<Longrightarrow> work_left s' = work_left s \<and> queued_left s' = queued_left s"
  by (simp add: work_left_def queued_left_def)

lemma serve_blpop_Next:
  assumes "serve_blpop_waiters key s = Next gs s'"
  shows "((gs @ fs, s'), (F_serve_blpop key # fs, s)) \<in> measures machine_measures"
proof (cases "\<exists>cid w ws v vs d. regs_at (blpop_reg s) key = (cid, w) # ws \<and> lpop (store s) key 1 = (Inr (v # vs), d)")
  case True
  then obtain cid w ws v vs d where r: "regs_at (blpop_reg s) key = (cid, w) # ws"
      and l: "lpop (store s) key 1 = (Inr (v # vs), d)" by blast
  then have "elements_left s' < elements_left s" "ctxs s' = ctxs s" "handlers s' = handlers s"
      "sum_list (map exec_weight gs) = 0"
    using assms lpop_elements(2) [OF l] by (auto simp: serve_blpop_waiters_def elements_left_def)
  then show ?thesis using work_left_same [of s' s] by (simp add: machine_measures_def)
next
  case False
  then obtain d where "gs = []" "s' = s \<or> (\<exists>r. lpop (store s) key 1 = (r, d) \<and> s' = s\<lparr>store := d\<rparr>)"
    using assms by (auto simp: serve_blpop_waiters_def split: list.splits prod.splits sum.splits)
  then have "gs = []" "elements_left s' \<le> elements_left s" "ctxs s' = ctxs s" "handlers s' = handlers s"
    using lpop_elements(1) [of "store s" key 1 _ d] by (auto simp: elements_left_def)
  then show ?thesis using work_left_same [of s' s] by (auto simp: machine_measures_def)
qed

lemma exec_callback_Next:
  assumes "exec_callback c t request r s = Next gs s'"
  shows "((gs @ fs, s'), (F_reply (K_exec c t request) r # fs, s)) \<in> measures machine_measures"
proof (cases "um_find (ctxs s) c")
  case None
  with assms show ?thesis by (simp add: exec_callback_def machine_measures_def)
next
  case (Some x)
  with assms have "cx_index x < length (cx_results x)" and "work_left s' = work_left (store_result_at c r x s)"
    by (auto simp: exec_callback_def Let_def split: if_splits)
  with work_left_store_result [OF Some, of r] show ?thesis by (simp add: machine_measures_def)
qed

lemma run_next_Next:
  assumes "run_next c s = Next gs s'"
  shows "((gs @ fs, s'), (F_run_next c # fs, s)) \<in> measures machine_measures"
proof (cases "s' = s")
  case True
  have "store_result_at c r x s \<noteq> s" if "um_find (ctxs s) c = Some x" "cx_index x < length (cx_results x)" for x r
    using work_left_store_result [OF that, of r] by auto
  with True assms have "sum_list (map exec_weight gs) \<le> 1"
    by (auto simp: run_next_def Let_def split: option.splits if_splits sum.splits)
  with True show ?thesis by (simp add: machine_measures_def)
next
  case False
  with assms obtain x nm where "um_find (ctxs s) c = Some x" "cx_index x < length (cx_results x)"
      "s' = store_result_at c (unknown_command nm) x s"
    by (auto simp: run_next_def Let_def split: option.splits if_splits sum.splits)
  with work_left_store_result [of s c x "unknown_command nm"] show ?thesis by (simp add: machine_measures_def)
qed

lemma serve_xread_step:
  "result_state (serve_xread_waiters ws s) = s' \<Longrightarrow>
     work_left s' = work_left s \<and> queued_left s' = queued_left s \<and> elements_left s' = elements_left s"
  by (cases ws) (auto simp: serve_xread_waiters_def Let_def work_left_def queued_left_def elements_left_def
      split: sum.splits)

lemma serve_xread_Next:
  assumes "serve_xread_waiters ws s = Next gs s'"
  shows "((gs @ fs, s'), (F_serve_xread ws # fs, s)) \<in> measures machine_measures"
proof -
  have "sum_list (map exec_weight gs) = 0" "sum_list (map frame_weight gs) < frame_weight (F_serve_xread ws)"
    using assms by (auto simp: serve_xread_waiters_def Let_def split: list.splits sum.splits)
  with assms serve_xread_step [of ws s s'] show ?thesis by (simp add: machine_measures_def)
qed

lemma wait_poll_Next:
  assumes "wait_poll target n deadline k s = Next gs s'"
  shows "((gs @ fs, s'), (F_poll target n deadline k # fs, s)) \<in> measures machine_measures"
  using assms
  by (auto simp: wait_poll_def Let_def machine_measures_def work_left_def elements_left_def split: if_splits)

lemma call_reply_Next:
  assumes "call_reply k r s = Next gs s'"
  shows "((gs @ fs, s'), (F_reply k r # fs, s)) \<in> measures machine_measures"
proof (cases k)
  case (K_exec c t request)
  with assms show ?thesis by (simp add: exec_callback_Next)
qed (use assms in \<open>auto simp: machine_measures_def work_left_def elements_left_def\<close>)

lemma step_Next:
  "step f s = Next gs s' \<Longrightarrow> ((gs @ fs, s'), (f # fs, s)) \<in> measures machine_measures"
  by (cases f)
     (auto simp: exec_command_Next call_reply_Next serve_blpop_Next serve_xread_Next run_next_Next wait_poll_Next,
      auto simp: machine_measures_def elements_left_def)

lemma step_Throw:
  assumes "step f s = Throw e s'"
  shows "work_left s' \<le> work_left s \<and> queued_left s' \<le> queued_left s \<and>
    (exec_weight f > 0 \<or> elements_left s' = elements_left s)"
proof (cases f)
  case (F_reply k r)
  with assms show ?thesis
    by (cases k) (auto simp: exec_callback_def Let_def split: option.splits if_splits)
next
  case (F_serve_xread ws)
  with assms serve_xread_step [of ws s s'] show ?thesis by simp
next
  case (F_run_next c)
  with assms show ?thesis by (auto simp: run_next_def Let_def split: option.splits if_splits sum.splits)
next
  case (F_poll target n deadline k)
  with assms show ?thesis by (simp add: wait_poll_def Let_def split: if_splits)
qed (use assms exec_command_Throw in
  \<open>auto simp: serve_blpop_waiters_def split: list.splits prod.splits sum.splits\<close>)

lemma unwind_weights:
  "unwind e fs = Some fs' \<Longrightarrow>
     sum_list (map exec_weight fs') \<le> sum_list (map exec_weight fs) \<and>
     sum_list (map frame_weight fs') \<le> sum_list (map frame_weight fs)"
  by (induction e fs rule: unwind.induct) (auto split: if_splits)

lemma frame_weight_pos: "0 < frame_weight f"
  by (cases f) simp_all

lemma machine_step_decreases:
  assumes "machine_step fs s = Running fs' s'"
  shows "((fs', s'), (fs, s)) \<in> measures machine_measures"
proof (cases fs)
  case Nil
  with assms show ?thesis by simp
next
  case (Cons f rest)
  show ?thesis
  proof (cases "step f s")
    case (Next gs s1)
    with assms Cons step_Next [OF Next, of rest] show ?thesis by auto
  next
    case (Throw e s1)
    with assms Cons have u: "unwind e rest = Some fs'" "s1 = s'" by (auto split: option.splits)
    with unwind_weights [OF u(1)] step_Throw [OF Throw] frame_weight_pos [of f] Cons show ?thesis
      by (auto simp: machine_measures_def)
  qed
qed

section \<open>Running\<close>

function run :: "frame list \<Rightarrow> server \<Rightarrow> machine" where
  "run fs s =
     (case machine_step fs s of
        Running fs' s' \<Rightarrow> run fs' s'
      | m \<Rightarrow> m)"
  by auto
termination
  by (relation "measures machine_measures") (auto intro: machine_step_decreases)

declare run.simps [simp del]

text \<open>The value of a call whose step is known.\<close>

definition finish :: "step_result \<Rightarrow> machine" where
  "finish r = (case r of Next gs s \<Rightarrow> run gs s | Throw e s \<Rightarrow> Crashed e s)"

section \<open>Requests\<close>

text \<open>
  \<^verbatim>\<open>TransactionDispatcher::dispatch\<close>. The commands of transactions are executed at once; inside MULTI
  every other request is queued; otherwise the command runs, and a write command is propagated from
  its reply.
\<close>

definition dispatch :: "nat \<Rightarrow> resp_value \<Rightarrow> command \<Rightarrow> reply_k \<Rightarrow> server \<Rightarrow> step_result" where
  "dispatch h request cmd k s =
     (if ctype cmd \<in> {Multi, Watch, Unwatch, Exec, Discard} then
        if registry_find (h_kind (get_handler s h)) (ctype cmd) then
          if ctype cmd = Multi \<and> in_transaction (get_tm s h)
          then reply k (''-ERR MULTI calls can not be nested'' @ crlf) s
          else exec_command h cmd k s
        else reply k (unknown_command (cname cmd)) s
      else if in_transaction (get_tm s h) then
        reply k (''+QUEUED'' @ crlf) (put_tm h (queue_command request (get_tm s h)) s)
      else if registry_find (h_kind (get_handler s h)) (ctype cmd) then
        if h_replicas (get_handler s h) \<and> is_write_command (ctype cmd)
        then exec_command h cmd (K_propagate k (serialize request)) s
        else exec_command h cmd k s
      else reply k (unknown_command (cname cmd)) s)"

text \<open>\<^verbatim>\<open>CommandHandler::handle\<close>, run to its end as one task of the store thread.\<close>

definition handle :: "nat \<Rightarrow> resp_value \<Rightarrow> reply_k \<Rightarrow> server \<Rightarrow> machine" where
  "handle h request k s =
     (if rtype request \<noteq> Array \<or> elements request = []
      then finish (reply k (''-ERR invalid command format'' @ crlf) s)
      else
        (case parse_command request of
           Inl e \<Rightarrow> Crashed e s
         | Inr cmd \<Rightarrow> finish (dispatch h request cmd k s)))"

text \<open>
  The completion handler of a timer whose expiry has queued it. Its frame is the \<^verbatim>\<open>on_reply\<close> of the
  time-out or the next poll of WAIT.
\<close>

definition fire_timer :: "nat \<Rightarrow> server \<Rightarrow> machine" where
  "fire_timer tid s =
     (case um_find (timers s) tid of
        Some t \<Rightarrow>
          if t_ready t then
            (let s' = s\<lparr>timers := um_erase tid (timers s)\<rparr>
             in case t_task t of
                  T_blpop cid k \<Rightarrow> run [F_reply k null_array] (s'\<lparr>blpop_reg := unregister cid (blpop_reg s')\<rparr>)
                | T_xread cid k \<Rightarrow> run [F_reply k null_array] (s'\<lparr>xread_reg := unregister cid (xread_reg s')\<rparr>)
                | T_poll target n deadline k \<Rightarrow> run [F_poll target n deadline k] s')
          else Done s
      | None \<Rightarrow> Done s)"

definition expire_timer :: "nat \<Rightarrow> server \<Rightarrow> server" where
  "expire_timer tid s =
     (case um_find (timers s) tid of
        Some t \<Rightarrow> if t_after t = None then s else s\<lparr>timers := um_put tid (t\<lparr>t_ready := True\<rparr>) (timers s)\<rparr>
      | None \<Rightarrow> s)"

section \<open>Termination\<close>

text \<open>
  C15. Processing terminates: there is no infinite sequence of transitions of the machine, whatever
  commands wait in transactions, contexts and registries, although the reply to one client may run
  the commands of another.
\<close>

theorem machine_terminates:
  "wf {((fs', s'), (fs, s)). machine_step fs s = Running fs' s'}"
  by (rule wf_subset [OF wf_measures [of machine_measures]]) (auto intro: machine_step_decreases)

end
