(* ===== verification/Engine_Invariant.thy ===== *)
theory Engine_Invariant
  imports Engine
begin

text \<open>
  The invariant of the server over every run, and the rules by which the runs of the following
  theories are computed.
\<close>

section \<open>Rules for runs\<close>

lemma run_Nil [simp]: "run [] s = Done s"
  by (subst run.simps) simp

lemma run_Next: "step f s = Next gs s' \<Longrightarrow> run (f # fs) s = run (gs @ fs) s'"
  by (subst run.simps) simp

lemma run_catch [simp]: "run (F_catch k # fs) s = run fs s"
  by (subst run.simps) simp

lemma run_propagate [simp]: "run (F_propagate raw # fs) s = run fs (post_propagate raw s)"
  by (subst run.simps) simp

lemma finish_Next [simp]: "finish (Next gs s) = run gs s"
  by (simp add: finish_def)

lemma finish_Throw [simp]: "finish (Throw e s) = Crashed e s"
  by (simp add: finish_def)

text \<open>What a reply does when no EXEC context waits for it.\<close>

primrec direct :: "reply_k \<Rightarrow> bool" where
  "direct (K_write conn) = True"
| "direct K_ignore = True"
| "direct (K_propagate k raw) = direct k"
| "direct (K_exec c t request) = False"

primrec post_reply :: "reply_k \<Rightarrow> string \<Rightarrow> server \<Rightarrow> server" where
  "post_reply (K_write conn) r s = s\<lparr>posted := posted s @ [(conn, r)]\<rparr>"
| "post_reply K_ignore r s = s"
| "post_reply (K_propagate k raw) r s = post_propagate raw (post_reply k r s)"
| "post_reply (K_exec c t request) r s = s"

lemma run_reply: "direct k \<Longrightarrow> run (F_reply k r # fs) s = run fs (post_reply k r s)"
proof (induction k arbitrary: fs s)
  case (K_write conn)
  show ?case using run_Next [of "F_reply (K_write conn) r" s "[]"] by simp
next
  case K_ignore
  show ?case using run_Next [of "F_reply K_ignore r" s "[]"] by simp
next
  case (K_propagate k raw)
  have "run (F_reply (K_propagate k raw) r # fs) s = run ([F_reply k r, F_propagate raw] @ fs) s"
    by (rule run_Next) simp
  with K_propagate show ?case by simp
qed simp

section \<open>Runs preserve what steps preserve\<close>

text \<open>
  A property \<open>P\<close> of the state together with a property \<open>Q\<close> of the pending frames: a step keeps both, for
  its own frames and for the ones below it. The frames of a \<^verbatim>\<open>catch\<close> that an exception reaches are replies.
\<close>

lemma unwind_frames:
  "unwind e fs = Some fs' \<Longrightarrow> \<forall>g \<in> set fs. q g \<Longrightarrow> (\<And>k r. q (F_reply k r)) \<Longrightarrow> \<forall>g \<in> set fs'. q g"
  by (induction e fs rule: unwind.induct) (auto split: if_splits)

lemma run_frames_induct:
  assumes step: "\<And>f s. P s \<Longrightarrow> Q s f \<Longrightarrow> P (result_state (step f s)) \<and> (\<forall>g \<in> set (result_frames (step f s)). Q (result_state (step f s)) g)"
    and below: "\<And>f g s. P s \<Longrightarrow> Q s f \<Longrightarrow> Q s g \<Longrightarrow> Q (result_state (step f s)) g"
    and replies: "\<And>s k r. Q s (F_reply k r)"
    and start: "P s" "\<forall>g \<in> set fs. Q s g"
  shows "case run fs s of Running gs s' \<Rightarrow> False | Done s' \<Rightarrow> P s' | Crashed e s' \<Rightarrow> P s'"
  using start
proof (induction fs s rule: run.induct)
  case (1 fs s)
  show ?case
  proof (cases fs)
    case Nil
    with 1 show ?thesis by simp
  next
    case (Cons f rest)
    let ?s = "result_state (step f s)"
    have p: "P ?s" "\<forall>g \<in> set (result_frames (step f s)). Q ?s g" "\<forall>g \<in> set rest. Q ?s g"
      using step [of s f] below [of s f] 1(2,3) Cons by auto
    show ?thesis
    proof (cases "step f s")
      case (Next gs s')
      then have m: "machine_step fs s = Running (gs @ rest) s'" using Cons by simp
      have "\<forall>g \<in> set (gs @ rest). Q s' g" using p Next by auto
      with 1(1) [OF m] m p(1) Next show ?thesis by (subst run.simps) simp
    next
      case (Throw e s')
      show ?thesis
      proof (cases "unwind e rest")
        case None
        with Throw Cons p(1) show ?thesis by (subst run.simps) simp
      next
        case (Some fs')
        then have m: "machine_step fs s = Running fs' s'" using Cons Throw by simp
        have "\<forall>g \<in> set fs'. Q s' g" using unwind_frames [OF Some, of "Q s'"] p(3) Throw replies by simp
        with 1(1) [OF m] m p(1) Throw show ?thesis by (subst run.simps) simp
      qed
    qed
  qed
qed

lemma run_induct:
  assumes "\<And>f s. P s \<Longrightarrow> P (result_state (step f s))" "P s"
  shows "case run fs s of Running gs s' \<Rightarrow> False | Done s' \<Rightarrow> P s' | Crashed e s' \<Rightarrow> P s'"
  by (rule run_frames_induct [where Q = "\<lambda>_ _. True"]) (use assms in simp_all)

lemma run_not_Running [simp]: "run fs s \<noteq> Running gs s'"
  using run_induct [of "\<lambda>_. True" s fs] by auto

section \<open>The invariant\<close>

definition server_ok :: "server \<Rightarrow> bool" where
  "server_ok s \<longleftrightarrow> store_ok (store s) \<and> registry_ok (blpop_reg s) \<and> registry_ok (xread_reg s) \<and>
     registry_ok (watch_reg s) \<and> in_ll (wall s)"

lemma server_ok_simps [simp]:
  "server_ok (put_tm h t s) = server_ok s" "server_ok (notify_write key s) = server_ok s"
  "server_ok (cancel_timer i s) = server_ok s" "server_ok (new_timer a tt s) = server_ok s"
  "server_ok (post_propagate raw s) = server_ok s"
  "server_ok (s\<lparr>posted := ps\<rparr>) = server_ok s" "server_ok (s\<lparr>replica_reg := r\<rparr>) = server_ok s"
  "server_ok (s\<lparr>ctxs := cs\<rparr>) = server_ok s" "server_ok (s\<lparr>next_ctx := n\<rparr>) = server_ok s"
  "server_ok (store_result_at c res x s) = server_ok s"
  by (simp_all add: server_ok_def store_result_at_def)

lemma server_ok_store: "server_ok s \<Longrightarrow> store_ok d \<Longrightarrow> server_ok (s\<lparr>store := d\<rparr>)"
  by (simp add: server_ok_def)

lemma server_ok_reply [simp]: "server_ok (post_reply k r s) = server_ok s"
  by (induction k) simp_all

definition keeps_ok :: "server \<Rightarrow> step_result \<Rightarrow> bool" where
  "keeps_ok s r \<longleftrightarrow> (server_ok s \<longrightarrow> server_ok (result_state r))"

lemma keeps_ok_simps [simp]:
  "keeps_ok s body \<Longrightarrow> keeps_ok s (with_args cmd n k s body)"
  "keeps_ok s (Next gs s') \<longleftrightarrow> (server_ok s \<longrightarrow> server_ok s')"
  "keeps_ok s (Throw e s') \<longleftrightarrow> (server_ok s \<longrightarrow> server_ok s')"
  "keeps_ok s (catch_reply e k s)"
  by (simp_all add: keeps_ok_def with_args_def catch_reply_def split: option.split)

lemma keeps_ok_basic:
  "keeps_ok s (exec_ping cmd k s)" "keeps_ok s (exec_info h cmd k s)" "keeps_ok s (exec_echo cmd k s)"
  by (simp_all add: exec_ping_def exec_info_def exec_echo_def Let_def split: list.split)

lemma keeps_ok_reads:
  "keeps_ok s (exec_get cmd k s)" "keeps_ok s (exec_type cmd k s)" "keeps_ok s (exec_incr cmd k s)"
proof -
  have g: "server_ok s \<Longrightarrow> server_ok (s\<lparr>store := snd (string_get (clock s) (store s) key)\<rparr>)"
    and t: "server_ok s \<Longrightarrow> server_ok (s\<lparr>store := snd (store_type_at (clock s) (store s) key)\<rparr>)"
    and i: "server_ok s \<Longrightarrow> server_ok (s\<lparr>store := snd (string_incr (clock s) (store s) key)\<rparr>)" for key
    using string_ops_store_ok(2,3) [of "store s"] string_incr_store_ok [of "store s"]
    by (simp_all add: server_ok_def)
  show "keeps_ok s (exec_get cmd k s)" using g [of "cargs cmd ! 0"]
    by (auto simp: exec_get_def split: prod.split sum.split)
  show "keeps_ok s (exec_type cmd k s)" using t [of "cargs cmd ! 0"]
    by (auto simp: exec_type_def split: prod.split)
  show "keeps_ok s (exec_incr cmd k s)" using i [of "cargs cmd ! 0"]
    by (auto simp: exec_incr_def Let_def split: prod.split sum.split)
qed

lemma keeps_ok_set: "keeps_ok s (exec_set cmd k s)"
proof -
  have "server_ok s \<Longrightarrow> server_ok (s\<lparr>store := string_set (store s) key v\<rparr>)"
    and "server_ok s \<Longrightarrow> string_set_ttl (clock s) (store s) key v ttl = Inr d \<Longrightarrow> server_ok (s\<lparr>store := d\<rparr>)"
    for key v ttl d
    using string_ops_store_ok(1,4) [of "store s"] by (auto simp: server_ok_def)
  then show ?thesis by (auto simp: exec_set_def Let_def split: sum.split option.split)
qed

lemma drop_1_not_Nil: "check_args cmd 2 = None \<Longrightarrow> drop 1 (cargs cmd) \<noteq> []"
  by (simp add: check_args_def split: if_splits)

lemma keeps_ok_push: "keeps_ok s (exec_rpush cmd k s)" "keeps_ok s (exec_lpush cmd k s)"
proof -
  have "server_ok (s\<lparr>store := snd (rpush (store s) key vs)\<rparr>) \<and> server_ok (s\<lparr>store := snd (lpush (store s) key vs)\<rparr>)"
    if "server_ok s" "vs \<noteq> []" for key vs
    using that list_ops_store_ok(1,2) [of "store s" vs key] by (simp add: server_ok_def)
  then show "keeps_ok s (exec_rpush cmd k s)" "keeps_ok s (exec_lpush cmd k s)"
    using drop_1_not_Nil [of cmd]
    by (auto simp: exec_rpush_def exec_lpush_def with_args_def Let_def split_beta split: option.split)
qed

lemma keeps_ok_lists: "keeps_ok s (exec_lrange cmd k s)" "keeps_ok s (exec_llen cmd k s)"
  by (auto simp: exec_lrange_def exec_llen_def split: sum.split)

lemma server_ok_lpop: "server_ok s \<Longrightarrow> lpop (store s) key n = (r, d) \<Longrightarrow> server_ok (s\<lparr>store := d\<rparr>)"
  using list_ops_store_ok(3) [of "store s" key n] by (simp add: server_ok_def)

lemma keeps_ok_lpop: "keeps_ok s (exec_lpop cmd k s)"
  using server_ok_lpop [of s]
  by (auto simp: exec_lpop_def Let_def split: sum.split prod.split list.split)

lemma store_ok_blpop_try: "store_ok d \<Longrightarrow> blpop_try keys d = (r, d') \<Longrightarrow> store_ok d'"
proof (induction keys arbitrary: d)
  case (Cons key keys)
  have "store_ok (snd (lpop d key 1))" using Cons.prems(1) by (rule list_ops_store_ok(3))
  with Cons show ?case by (auto split: prod.splits sum.splits list.splits)
qed simp

lemma keeps_ok_blpop: "keeps_ok s (exec_blpop cmd k s)"
proof -
  have st: "server_ok (s\<lparr>store := d\<rparr>)" if "server_ok s" "blpop_try keys (store s) = (r, d)" for keys r d
    using that store_ok_blpop_try [of "store s" keys r d] by (simp add: server_ok_def)
  have reg: "server_ok (s'\<lparr>blpop_reg := r\<rparr>)" if "server_ok s'" "register_callbacks ks w (blpop_reg s') = (cid, r)" for s' ks w cid r
    using that registry_ok_register [of "blpop_reg s'" ks w] by (simp add: server_ok_def)
  have "server_ok (s\<lparr>store := d, blpop_reg := r\<rparr>)"
    if "server_ok s" "blpop_try keys (store s) = (x, d)" "register_callbacks ks w (blpop_reg s) = (cid, r)" for keys x d ks w cid r
    using reg [OF st [OF that(1,2)], of ks w cid r] that(3) by simp
  with st show ?thesis
    by (auto simp: exec_blpop_def split: sum.split prod.split option.split)
qed

lemma keeps_ok_xadd: "keeps_ok s (exec_xadd cmd k s)"
proof -
  have "server_ok s \<Longrightarrow> xadd (wall s) (store s) key i fs = (r, d) \<Longrightarrow> server_ok (s\<lparr>store := d\<rparr>)" for key i fs r d
    using xadd_store_ok [of "store s" "wall s"] by (auto simp: server_ok_def)
  then show ?thesis by (auto simp: exec_xadd_def Let_def split: sum.split prod.split)
qed

lemma keeps_ok_xrange: "keeps_ok s (exec_xrange cmd k s)"
  by (auto simp: exec_xrange_def split: sum.split)

lemma keeps_ok_setup: "keeps_ok s (setup_xread_blocking parsed ids k s)"
proof (cases "xread_expiry (x_timeout parsed)")
  case (Inl e)
  then show ?thesis by (simp add: setup_xread_blocking_def)
next
  case (Inr after)
  let ?w = "\<lparr>xw_timer = next_timer s, xw_keys = x_keys parsed, xw_ids = ids, xw_reply = k\<rparr>"
  have "server_ok s \<Longrightarrow> server_ok (s\<lparr>xread_reg := snd (register_callbacks (x_keys parsed) ?w (xread_reg s))\<rparr>)"
    using registry_ok_register [of "xread_reg s"] by (simp add: server_ok_def)
  with Inr show ?thesis by (simp add: setup_xread_blocking_def split_beta)
qed

lemma keeps_ok_xread: "keeps_ok s (exec_xread cmd k s)"
  by (simp add: exec_xread_def Let_def keeps_ok_setup split: sum.split)

lemma registry_ok_unwatch_all:
  "registry_ok w \<Longrightarrow> registry_ok (foldl (\<lambda>w (key, watch_id). unwatch watch_id w) w l)"
  using regs_at_unwatch_all by blast

lemma registry_ok_watch_all: "registry_ok w \<Longrightarrow> registry_ok (snd (watch_all h keys (t, w)))"
proof (induction keys arbitrary: t w)
  case (Cons key keys)
  have "registry_ok (snd (watch key h w))" using Cons.prems by (rule registry_ok_watch)
  with Cons show ?case by (auto split: prod.splits bool.splits)
qed simp

lemma server_ok_reset [simp]: "server_ok s \<Longrightarrow> server_ok (reset_handler h s)"
  by (simp add: reset_handler_def reset_tm_def clear_watches_def server_ok_def registry_ok_unwatch_all)

lemma keeps_ok_transactions:
  "keeps_ok s (exec_multi h k s)" "keeps_ok s (exec_discard h k s)" "keeps_ok s (exec_watch h cmd k s)"
  "keeps_ok s (exec_unwatch h cmd k s)" "keeps_ok s (exec_exec h k s)"
proof -
  show "keeps_ok s (exec_multi h k s)" "keeps_ok s (exec_discard h k s)"
    by (simp_all add: exec_multi_def exec_discard_def)
  have "server_ok s \<Longrightarrow> server_ok (s\<lparr>watch_reg := snd (watch_all h keys (get_tm s h, watch_reg s))\<rparr>)" for keys
    using registry_ok_watch_all [of "watch_reg s"] by (simp add: server_ok_def)
  then show "keeps_ok s (exec_watch h cmd k s)" by (simp add: exec_watch_def split_beta)
  have "server_ok s \<Longrightarrow> server_ok (s\<lparr>watch_reg := snd (clear_watches (get_tm s h) (watch_reg s))\<rparr>)"
    using registry_ok_unwatch_all [of "watch_reg s"] by (simp add: server_ok_def clear_watches_def)
  then show "keeps_ok s (exec_unwatch h cmd k s)" by (simp add: exec_unwatch_def split_beta)
  show "keeps_ok s (exec_exec h k s)" by (simp add: exec_exec_def Let_def pop_queued_commands_def)
qed

lemma keeps_ok_replication:
  "keeps_ok s (exec_replconf k s)" "keeps_ok s (exec_psync h cmd k s)" "keeps_ok s (exec_wait h cmd k s)"
  by (auto simp: exec_replconf_def exec_psync_def exec_wait_def Let_def split: sum.split prod.split option.split)

lemma keeps_ok_exec_command: "keeps_ok s (exec_command h cmd k s)"
  by (cases "ctype cmd")
     (simp_all add: exec_command_def keeps_ok_basic keeps_ok_reads keeps_ok_set keeps_ok_push keeps_ok_lists
       keeps_ok_lpop keeps_ok_blpop keeps_ok_xadd keeps_ok_xrange keeps_ok_xread keeps_ok_transactions
       keeps_ok_replication)

lemma keeps_ok_serve_blpop: "keeps_ok s (serve_blpop_waiters key s)"
proof (cases "regs_at (blpop_reg s) key")
  case Nil
  then show ?thesis by (simp add: serve_blpop_waiters_def)
next
  case (Cons r rs)
  obtain cid w x d where r: "r = (cid, w)" and x: "lpop (store s) key 1 = (x, d)" by (cases r) force
  have "server_ok s \<Longrightarrow> server_ok (s\<lparr>store := d\<rparr>) \<and> server_ok (s\<lparr>store := d, blpop_reg := unregister cid (blpop_reg s)\<rparr>)"
    using server_ok_lpop [OF _ x] registry_ok_unregister [of "blpop_reg s" cid] by (auto simp: server_ok_def)
  with Cons r x show ?thesis by (auto simp: serve_blpop_waiters_def split: sum.split list.split)
qed

lemma keeps_ok_serve_xread: "keeps_ok s (serve_xread_waiters ws s)"
  using registry_ok_unregister [of "xread_reg s"]
  by (auto simp: serve_xread_waiters_def Let_def server_ok_def split: list.split sum.split)

lemma keeps_ok_step: "keeps_ok s (step f s)"
proof (cases f)
  case (F_reply k r)
  then show ?thesis
    by (cases k) (auto simp: exec_callback_def Let_def split: option.split)
qed (auto simp: keeps_ok_exec_command keeps_ok_serve_blpop keeps_ok_serve_xread run_next_def wait_poll_def Let_def
    split: option.split sum.split)

lemma run_server_ok:
  assumes "server_ok s"
  shows "run fs s = Done s' \<Longrightarrow> server_ok s'" "run fs s = Crashed e s' \<Longrightarrow> server_ok s'"
  using run_induct [of server_ok s fs] assms keeps_ok_step by (auto simp: keeps_ok_def)

section \<open>Effects\<close>

text \<open>
  What a step may do to the state, short of a command of transactions: it changes the store, the
  waiters and the timers, marks transactions dirty, posts bytes and stores the result of a command of
  an EXEC. Whatever these updates keep is kept by every such step.
\<close>

inductive effects :: "server \<Rightarrow> server \<Rightarrow> bool" for s where
  none [simp]: "effects s s"
| store [simp]: "effects s s' \<Longrightarrow> effects s (s'\<lparr>store := d\<rparr>)"
| notify [simp]: "effects s s' \<Longrightarrow> effects s (notify_write key s')"
| blpop [simp]: "effects s s' \<Longrightarrow> effects s (s'\<lparr>blpop_reg := b\<rparr>)"
| xread [simp]: "effects s s' \<Longrightarrow> effects s (s'\<lparr>xread_reg := x\<rparr>)"
| timer [simp]: "effects s s' \<Longrightarrow> effects s (new_timer a t s')"
| cancel [simp]: "effects s s' \<Longrightarrow> effects s (cancel_timer i s')"
| post [simp]: "effects s s' \<Longrightarrow> effects s (s'\<lparr>posted := ps\<rparr>)"
| propagate [simp]: "effects s s' \<Longrightarrow> effects s (post_propagate raw s')"
| result: "effects s s' \<Longrightarrow> um_find (ctxs s') c = Some y \<Longrightarrow> effects s (store_result_at c res y s')"

lemma effects_result [simp]: "um_find (ctxs s) c = Some y \<Longrightarrow> effects s (store_result_at c res y s)"
  by (rule effects.result [OF effects.none])

lemma effects_getack:
  "request_getack (replica_reg s) = (ws, r) \<Longrightarrow> effects s (s\<lparr>replica_reg := r, posted := posted s @ ws\<rparr>)"
  using effects.propagate [OF effects.none, of s "serialize getack_command"] by (simp add: post_propagate_def request_getack_def)

lemma effects_args: "effects s (result_state body) \<Longrightarrow> effects s (result_state (with_args cmd n k s body))"
  by (simp add: with_args_def split: option.split)

lemma effects_basic:
  "effects s (result_state (exec_ping cmd k s))" "effects s (result_state (exec_info h cmd k s))"
  "effects s (result_state (exec_echo cmd k s))" "effects s (result_state (exec_get cmd k s))"
  "effects s (result_state (exec_type cmd k s))" "effects s (result_state (exec_incr cmd k s))"
  "effects s (result_state (exec_set cmd k s))"
  by (auto simp: exec_ping_def exec_info_def exec_echo_def exec_get_def exec_type_def exec_incr_def exec_set_def
      Let_def intro!: effects_args split: list.split prod.split sum.split option.split)

lemma effects_lists:
  "effects s (result_state (exec_rpush cmd k s))" "effects s (result_state (exec_lpush cmd k s))"
  "effects s (result_state (exec_lrange cmd k s))" "effects s (result_state (exec_llen cmd k s))"
  "effects s (result_state (exec_lpop cmd k s))" "effects s (result_state (exec_blpop cmd k s))"
  by (auto simp: exec_rpush_def exec_lpush_def exec_lrange_def exec_llen_def exec_lpop_def exec_blpop_def Let_def
      intro!: effects_args split: sum.split prod.split list.split option.split)

lemma effects_others:
  "effects s (result_state (exec_xadd cmd k s))" "effects s (result_state (exec_xrange cmd k s))"
  "effects s (result_state (exec_xread cmd k s))" "effects s (result_state (exec_replconf k s))"
  "effects s (result_state (exec_psync h cmd k s))" "effects s (result_state (exec_wait h cmd k s))"
  by (auto simp: exec_xadd_def exec_xrange_def exec_xread_def setup_xread_blocking_def catch_reply_def exec_replconf_def
      exec_psync_def exec_wait_def Let_def effects_getack intro!: effects_args split: sum.split prod.split option.split)

lemma exec_command_effects:
  "ctype cmd \<notin> {Multi, Watch, Unwatch, Exec, Discard} \<Longrightarrow> effects s (result_state (exec_command h cmd k s))"
  by (cases "ctype cmd") (simp_all add: exec_command_def effects_basic effects_lists effects_others)

lemma call_effects:
  "effects s (result_state (call_reply k r s))" "effects s (result_state (serve_blpop_waiters key s))"
  "effects s (result_state (serve_xread_waiters ws s))" "effects s (result_state (run_next c s))"
  "effects s (result_state (wait_poll target n deadline k s))"
proof -
  show "effects s (result_state (call_reply k r s))"
    by (cases k) (auto simp: exec_callback_def Let_def split: option.split)
qed (auto simp: serve_blpop_waiters_def serve_xread_waiters_def run_next_def wait_poll_def Let_def
    split: list.split prod.split sum.split option.split)

lemma step_effects:
  "(\<And>h cmd k. f = F_exec h cmd k \<Longrightarrow> ctype cmd \<notin> {Multi, Watch, Unwatch, Exec, Discard}) \<Longrightarrow> effects s (result_state (step f s))"
  by (cases f) (simp_all add: exec_command_effects call_effects)

section \<open>Watches\<close>

text \<open>
  Every handler's manager knows its registrations, and a watch ID belongs to one handler.
\<close>

definition watch_owners :: "nat registry \<Rightarrow> bool" where
  "watch_owners w \<longleftrightarrow>
     (\<forall>k k' i h h'. (i, h) \<in> set (regs_at w k) \<longrightarrow> (i, h') \<in> set (regs_at w k') \<longrightarrow> h = h')"

definition watch_ok :: "server \<Rightarrow> bool" where
  "watch_ok s \<longleftrightarrow> watch_owners (watch_reg s) \<and> (\<forall>h. watches_ok h (get_tm s h) (watch_reg s))"

definition same_watches :: "server \<Rightarrow> server \<Rightarrow> bool" where
  "same_watches s s' \<longleftrightarrow>
     watch_reg s' = watch_reg s \<and> (\<forall>h. watched_keys (get_tm s' h) = watched_keys (get_tm s h))"

lemma same_watches_ok: "same_watches s s' \<Longrightarrow> watch_ok s \<Longrightarrow> watch_ok s'"
  by (simp add: same_watches_def watch_ok_def watches_ok_def)

lemma same_watches_refl [simp]: "same_watches s s"
  by (simp add: same_watches_def)

lemma get_tm_cong: "handlers s' = handlers s \<Longrightarrow> get_tm s' h = get_tm s h"
  by (simp add: get_tm_def get_handler_def)

lemma same_watches_simps [simp]:
  "same_watches s (put_tm h t s') \<longleftrightarrow>
     (watch_reg s' = watch_reg s \<and> watched_keys t = watched_keys (get_tm s h) \<and>
       (\<forall>h'. h' \<noteq> h \<longrightarrow> watched_keys (get_tm s' h') = watched_keys (get_tm s h')))"
  "same_watches s (notify_write key s') = same_watches s s'"
  "same_watches s (s'\<lparr>store := d\<rparr>) = same_watches s s'" "same_watches s (s'\<lparr>posted := ps\<rparr>) = same_watches s s'"
  "same_watches s (s'\<lparr>replica_reg := r\<rparr>) = same_watches s s'" "same_watches s (s'\<lparr>ctxs := cs\<rparr>) = same_watches s s'"
  "same_watches s (s'\<lparr>next_ctx := n\<rparr>) = same_watches s s'" "same_watches s (s'\<lparr>blpop_reg := b\<rparr>) = same_watches s s'"
  "same_watches s (s'\<lparr>xread_reg := xr\<rparr>) = same_watches s s'"
  "same_watches s (new_timer a tt s') = same_watches s s'" "same_watches s (cancel_timer i s') = same_watches s s'"
  "same_watches s (post_propagate raw s') = same_watches s s'"
  "same_watches s (store_result_at c res x s') = same_watches s s'"
  by (auto simp: same_watches_def notify_write_tm mark_dirty_def store_result_at_def
      get_tm_cong [of "cancel_timer i s'" s'] get_tm_cong [of "new_timer a tt s'" s']
      get_tm_cong [of "post_propagate raw s'" s'])

lemma effects_same_watches: "effects s s' \<Longrightarrow> same_watches s s'"
  by (induction rule: effects.induct) simp_all

lemma watch_all_Cons:
  "watch_all h (key # keys) (t, w) =
     (if fst (watch_key key t)
      then watch_all h keys (associate_watch_id key (fst (watch key h w)) (snd (watch_key key t)), snd (watch key h w))
      else watch_all h keys (snd (watch_key key t), w))"
  by (simp split: prod.split bool.split)

lemma watch_owners_watch:
  assumes "registry_ok w" "watch_owners w"
  shows "watch_owners (snd (watch key h w))"
proof -
  have "(fst (watch key h w), c) \<notin> set (regs_at w k)" for c k
    using registered_fresh(1) [OF assms(1)] by blast
  with assms(2) show ?thesis by (auto simp: watch_owners_def regs_at_watch)
qed

lemma watch_all_others:
  assumes "registry_ok w" "watch_owners w"
  shows "watch_owners (snd (watch_all h keys (t, w)))"
    and "h' \<noteq> h \<Longrightarrow> (i, h') \<in> set (regs_at (snd (watch_all h keys (t, w))) k) \<longleftrightarrow> (i, h') \<in> set (regs_at w k)"
proof -
  have "watch_owners (snd (watch_all h keys (t, w))) \<and>
    (h' \<noteq> h \<longrightarrow> (i, h') \<in> set (regs_at (snd (watch_all h keys (t, w))) k) \<longleftrightarrow> (i, h') \<in> set (regs_at w k))"
    using assms
  proof (induction keys arbitrary: t w)
    case (Cons key keys)
    have w: "registry_ok (snd (watch key h w))" "watch_owners (snd (watch key h w))"
      using registry_ok_watch [OF Cons.prems(1)] watch_owners_watch [OF Cons.prems] by simp_all
    have "h' \<noteq> h \<Longrightarrow> (i, h') \<in> set (regs_at (snd (watch key h w)) k) \<longleftrightarrow> (i, h') \<in> set (regs_at w k)"
      by (simp add: regs_at_watch)
    with Cons w show ?case by (simp add: watch_all_Cons del: watch_all.simps)
  qed simp
  then show "watch_owners (snd (watch_all h keys (t, w)))"
    "h' \<noteq> h \<Longrightarrow> (i, h') \<in> set (regs_at (snd (watch_all h keys (t, w))) k) \<longleftrightarrow> (i, h') \<in> set (regs_at w k)"
    by blast+
qed

lemma watch_ok_registry: "watch_ok s \<Longrightarrow> registry_ok (watch_reg s)"
  by (simp add: watch_ok_def watches_ok_def)

lemma watch_ok_watch_all:
  assumes "watch_ok s" "watch_all h keys (get_tm s h, watch_reg s) = (t, w)"
  shows "watch_ok (put_tm h t (s\<lparr>watch_reg := w\<rparr>))"
proof -
  have "watches_ok h t w"
    using watches_ok_watch_all [of h "get_tm s h" "watch_reg s" keys] assms by (simp add: watch_ok_def)
  moreover have "watch_owners w" and "h' \<noteq> h \<Longrightarrow> watches_ok h' (get_tm s h') w" for h'
    using watch_all_others [OF watch_ok_registry [OF assms(1)], where h = h and keys = keys and t = "get_tm s h"] assms
      registry_ok_watch_all [OF watch_ok_registry [OF assms(1)], of h keys "get_tm s h"]
    by (auto simp: watch_ok_def watches_ok_def)
  ultimately show ?thesis by (simp add: watch_ok_def)
qed

lemma watch_ok_clear:
  assumes "watch_ok s" "clear_watches (get_tm s h) (watch_reg s) = (t, w)" "watched_keys t' = []"
  shows "watch_ok (put_tm h t' (s\<lparr>watch_reg := w\<rparr>))"
proof -
  let ?l = "watched_keys (get_tm s h)"
  have w: "registry_ok w" "regs_at w k = filter (\<lambda>x. fst x \<notin> snd ` set ?l) (regs_at (watch_reg s) k)" for k
    using regs_at_unwatch_all [OF watch_ok_registry [OF assms(1)], of ?l] assms(2)
    by (auto simp: clear_watches_def)
  have h: "watches_ok h (get_tm s h) (watch_reg s)" using assms(1) by (simp add: watch_ok_def)
  have own: "watch_owners w" using assms(1) by (auto simp: watch_ok_def watch_owners_def w(2))
  have "watches_ok h t' w"
    using clear_watches_none [OF h assms(2)] w(1) assms(3) by (simp add: watches_ok_def um_ok_def)
  moreover have "watches_ok h' (get_tm s h') w" if "h' \<noteq> h" for h'
  proof -
    have "i \<notin> snd ` set ?l" if i: "(i, h') \<in> set (regs_at (watch_reg s) k)" for i k
    proof
      assume "i \<in> snd ` set ?l"
      then obtain key where "(key, i) \<in> set ?l" by auto
      with h have "(i, h) \<in> set (regs_at (watch_reg s) key)" by (auto simp: watches_ok_def um_in_set)
      with i assms(1) \<open>h' \<noteq> h\<close> show False by (auto simp: watch_ok_def watch_owners_def)
    qed
    then have "(i, h') \<in> set (regs_at w k) \<longleftrightarrow> (i, h') \<in> set (regs_at (watch_reg s) k)" for i k
      by (auto simp: w(2))
    with assms(1) w(1) show ?thesis by (simp add: watch_ok_def watches_ok_def)
  qed
  ultimately show ?thesis using own by (simp add: watch_ok_def)
qed

lemma watch_ok_reset: "watch_ok s \<Longrightarrow> watch_ok (reset_handler h s)"
proof -
  assume s: "watch_ok s"
  obtain t w where c: "clear_watches (get_tm s h) (watch_reg s) = (t, w)" by force
  then have "watched_keys t = []" by (auto simp: clear_watches_def)
  then have "watch_ok (put_tm h ((finish_transaction t)\<lparr>queued_commands := []\<rparr>) (s\<lparr>watch_reg := w\<rparr>))"
    by (intro watch_ok_clear [OF s c]) (simp add: finish_transaction_def)
  then show ?thesis by (simp add: reset_handler_def reset_tm_def c)
qed

lemma watch_ok_exec_command:
  assumes "watch_ok s"
  shows "watch_ok (result_state (exec_command h cmd k s))"
proof -
  consider "ctype cmd = Watch" | "ctype cmd = Unwatch" | "ctype cmd = Discard" | "ctype cmd = Exec" | "ctype cmd = Multi"
    | "ctype cmd \<notin> {Multi, Watch, Unwatch, Exec, Discard}" by blast
  then show ?thesis
  proof cases
    case 1
    then show ?thesis using assms watch_ok_watch_all [OF assms, of h "cargs cmd"]
      by (auto simp: exec_command_def exec_watch_def with_args_def split: prod.split option.split)
  next
    case 2
    obtain t w where c: "clear_watches (get_tm s h) (watch_reg s) = (t, w)" by force
    then have "watched_keys t = []" by (auto simp: clear_watches_def)
    with 2 c assms watch_ok_clear [OF assms c] show ?thesis by (simp add: exec_command_def exec_unwatch_def)
  next
    case 3
    with assms show ?thesis by (simp add: exec_command_def exec_discard_def watch_ok_reset)
  next
    case 4
    let ?t = "(get_tm s h)\<lparr>queued_commands := []\<rparr>"
    have "watch_ok (put_tm h ?t s)" by (rule same_watches_ok [OF _ assms]) simp
    then have "watch_ok (reset_handler h (put_tm h ?t s))" by (rule watch_ok_reset)
    moreover have "watch_ok (s'\<lparr>ctxs := cs, next_ctx := n\<rparr>) = watch_ok s'" for s' cs n
      by (simp add: watch_ok_def)
    ultimately show ?thesis using 4 assms
      by (simp add: exec_command_def exec_exec_def pop_queued_commands_def Let_def watch_ok_reset)
  next
    case 5
    then have "same_watches s (result_state (exec_command h cmd k s))"
      by (simp add: exec_command_def exec_multi_def begin_tm_def)
    then show ?thesis using assms by (rule same_watches_ok)
  next
    case 6
    then show ?thesis using exec_command_effects effects_same_watches same_watches_ok assms by blast
  qed
qed

lemma watch_ok_step:
  assumes "watch_ok s"
  shows "watch_ok (result_state (step f s))"
proof (cases "\<exists>h cmd k. f = F_exec h cmd k")
  case True
  with assms show ?thesis by (auto simp: watch_ok_exec_command)
next
  case False
  then have "same_watches s (result_state (step f s))" by (intro effects_same_watches step_effects) auto
  then show ?thesis using assms by (rule same_watches_ok)
qed

lemma run_watch_ok:
  assumes "watch_ok s"
  shows "run fs s = Done s' \<Longrightarrow> watch_ok s'" "run fs s = Crashed e s' \<Longrightarrow> watch_ok s'"
  using run_induct [of watch_ok s fs] assms watch_ok_step by auto

end
