(* ===== verification/Transactions.thy ===== *)
theory Transactions
  imports Engine_Invariant
begin

text \<open>
  Transactions: queueing inside MULTI, the run of the queued commands by EXEC, and the abort of a
  transaction whose watched keys were written.
\<close>

section \<open>Commands that answer at once\<close>

text \<open>The reply and the new state of a command that neither blocks nor throws nor serves a waiter.\<close>

fun answer_of :: "step_result \<Rightarrow> (string \<times> server) option" where
  "answer_of (Next [F_reply k r] s) = Some (r, s)"
| "answer_of (Next [F_reply k r, F_catch k'] s) = Some (r, s)"
| "answer_of (Next [F_serve_blpop key, F_reply k r] s) =
     (if regs_at (blpop_reg s) key = [] then Some (r, s) else None)"
| "answer_of (Next [F_serve_xread ws, F_reply k r] s) = (if ws = [] then Some (r, s) else None)"
| "answer_of _ = None"

definition answer :: "nat \<Rightarrow> command \<Rightarrow> server \<Rightarrow> (string \<times> server) option" where
  "answer h cmd s = answer_of (exec_command h cmd K_ignore s)"

definition transactional :: "command_type \<Rightarrow> bool" where
  "transactional t \<longleftrightarrow> t \<in> {Multi, Watch, Unwatch, Exec, Discard}"

text \<open>A command with another reply and in another set of EXEC contexts.\<close>

abbreviation in_ctx :: "(nat, exec_ctx) umap \<Rightarrow> nat \<Rightarrow> server \<Rightarrow> server" where
  "in_ctx cs n s \<equiv> s\<lparr>ctxs := cs, next_ctx := n\<rparr>"

definition retarget_frame :: "reply_k \<Rightarrow> frame \<Rightarrow> frame" where
  "retarget_frame k f = (case f of F_reply _ r \<Rightarrow> F_reply k r | F_catch _ \<Rightarrow> F_catch k | _ \<Rightarrow> f)"

primrec retarget :: "reply_k \<Rightarrow> (nat, exec_ctx) umap \<Rightarrow> nat \<Rightarrow> step_result \<Rightarrow> step_result" where
  "retarget k cs n (Next gs s) = Next (map (retarget_frame k) gs) (in_ctx cs n s)"
| "retarget k cs n (Throw e s) = Throw e (in_ctx cs n s)"

lemma retarget_frame_simps [simp]:
  "retarget_frame k (F_reply k' r) = F_reply k r" "retarget_frame k (F_catch k') = F_catch k"
  "retarget_frame k (F_serve_blpop key) = F_serve_blpop key" "retarget_frame k (F_serve_xread ws) = F_serve_xread ws"
  by (simp_all add: retarget_frame_def)

lemma notify_write_in_ctx: "notify_write key (in_ctx cs n s) = in_ctx cs n (notify_write key s)"
proof -
  have "mark_handler (in_ctx cs n s) h = in_ctx cs n (mark_handler s h)" for s h
    by (simp add: mark_handler_def put_tm_def)
  then have "foldl mark_handler (in_ctx cs n s) hs = in_ctx cs n (foldl mark_handler s hs)" for hs
    by (induction hs arbitrary: s) simp_all
  then show ?thesis by (simp add: notify_write_def)
qed

lemma notify_write_in_ctx_store:
  "notify_write key (s\<lparr>ctxs := cs, next_ctx := n, store := d\<rparr>) = in_ctx cs n (notify_write key (s\<lparr>store := d\<rparr>))"
proof -
  have "s\<lparr>ctxs := cs, next_ctx := n, store := d\<rparr> = in_ctx cs n (s\<lparr>store := d\<rparr>)" by simp
  then show ?thesis by (simp only: notify_write_in_ctx)
qed

lemma with_args_retarget:
  "(check_args cmd m = None \<Longrightarrow> body' = retarget k cs n body) \<Longrightarrow>
     with_args cmd m k (in_ctx cs n s) body' = retarget k cs n (with_args cmd m K_ignore s body)"
  by (simp add: with_args_def split: option.split)

lemma catch_reply_retarget: "catch_reply e k (in_ctx cs n s) = retarget k cs n (catch_reply e K_ignore s)"
  by (simp add: catch_reply_def)

lemmas retarget_simps = with_args_retarget catch_reply_retarget notify_write_in_ctx_store

lemma retarget_basic:
  "exec_ping cmd k (in_ctx cs n s) = retarget k cs n (exec_ping cmd K_ignore s)"
  "exec_info h cmd k (in_ctx cs n s) = retarget k cs n (exec_info h cmd K_ignore s)"
  "exec_echo cmd k (in_ctx cs n s) = retarget k cs n (exec_echo cmd K_ignore s)"
  "exec_get cmd k (in_ctx cs n s) = retarget k cs n (exec_get cmd K_ignore s)"
  "exec_type cmd k (in_ctx cs n s) = retarget k cs n (exec_type cmd K_ignore s)"
  "exec_incr cmd k (in_ctx cs n s) = retarget k cs n (exec_incr cmd K_ignore s)"
  "exec_set cmd k (in_ctx cs n s) = retarget k cs n (exec_set cmd K_ignore s)"
  by (auto simp: exec_ping_def exec_info_def exec_echo_def exec_get_def exec_type_def exec_incr_def exec_set_def
      build_info_payload_def build_server_section_def build_clients_section_def build_memory_section_def
      build_replication_section_def retarget_simps Let_def
      intro!: with_args_retarget split: list.split prod.split sum.split option.split)

lemma retarget_lists:
  "exec_rpush cmd k (in_ctx cs n s) = retarget k cs n (exec_rpush cmd K_ignore s)"
  "exec_lpush cmd k (in_ctx cs n s) = retarget k cs n (exec_lpush cmd K_ignore s)"
  "exec_lrange cmd k (in_ctx cs n s) = retarget k cs n (exec_lrange cmd K_ignore s)"
  "exec_llen cmd k (in_ctx cs n s) = retarget k cs n (exec_llen cmd K_ignore s)"
  "exec_lpop cmd k (in_ctx cs n s) = retarget k cs n (exec_lpop cmd K_ignore s)"
  by (auto simp: exec_rpush_def exec_lpush_def exec_lrange_def exec_llen_def exec_lpop_def retarget_simps Let_def
      intro!: with_args_retarget split: list.split prod.split sum.split)

lemma retarget_streams:
  "exec_xadd cmd k (in_ctx cs n s) = retarget k cs n (exec_xadd cmd K_ignore s)"
  "exec_xrange cmd k (in_ctx cs n s) = retarget k cs n (exec_xrange cmd K_ignore s)"
  by (auto simp: exec_xadd_def exec_xrange_def retarget_simps Let_def split: prod.split sum.split)

lemma retarget_replication:
  "exec_replconf k (in_ctx cs n s) = retarget k cs n (exec_replconf K_ignore s)"
  "exec_psync h cmd k (in_ctx cs n s) = retarget k cs n (exec_psync h cmd K_ignore s)"
  by (auto simp: exec_replconf_def exec_psync_def retarget_simps Let_def intro!: with_args_retarget)

text \<open>The commands that may block keep the reply in the state; when they answer they do not.\<close>

lemma retarget_blpop:
  assumes "answer_of (exec_blpop cmd K_ignore s) \<noteq> None"
  shows "exec_blpop cmd k (in_ctx cs n s) = retarget k cs n (exec_blpop cmd K_ignore s)"
  using assms
  by (auto simp: exec_blpop_def with_args_def split: option.splits prod.splits sum.splits)

lemma retarget_xread:
  assumes "answer_of (exec_xread cmd K_ignore s) \<noteq> None"
  shows "exec_xread cmd k (in_ctx cs n s) = retarget k cs n (exec_xread cmd K_ignore s)"
  using assms
  by (auto simp: exec_xread_def setup_xread_blocking_def catch_reply_retarget Let_def
      split: prod.splits sum.splits if_splits)

lemma retarget_wait:
  assumes "answer_of (exec_wait h cmd K_ignore s) \<noteq> None"
  shows "exec_wait h cmd k (in_ctx cs n s) = retarget k cs n (exec_wait h cmd K_ignore s)"
  using assms
  by (auto simp: exec_wait_def Let_def split: prod.splits sum.splits option.splits if_splits)

lemma exec_command_retarget:
  assumes "answer h cmd s = Some (r, s')" "\<not> transactional (ctype cmd)"
  shows "exec_command h cmd k (in_ctx cs n s) = retarget k cs n (exec_command h cmd K_ignore s)"
proof -
  have a: "answer_of (exec_command h cmd K_ignore s) \<noteq> None" using assms(1) by (simp add: answer_def)
  then show ?thesis
    using assms(2) retarget_blpop [of cmd s] retarget_xread [of cmd s] retarget_wait [of h cmd s]
    by (cases "ctype cmd")
       (simp_all add: exec_command_def transactional_def retarget_basic retarget_lists retarget_streams
         retarget_replication)
qed

lemma answer_of_cases:
  assumes "answer_of r = Some (x, s)"
  obtains (plain) k where "r = Next [F_reply k x] s"
  | (catch) k k' where "r = Next [F_reply k x, F_catch k'] s"
  | (push) key k where "r = Next [F_serve_blpop key, F_reply k x] s" "regs_at (blpop_reg s) key = []"
  | (add) k where "r = Next [F_serve_xread [], F_reply k x] s"
  using assms by (cases r rule: answer_of.cases) (auto split: if_splits)

text \<open>An answering command runs to its reply; what stays below it are handlers of exceptions.\<close>

definition catches :: "frame list \<Rightarrow> bool" where
  "catches fs \<longleftrightarrow> list_all (\<lambda>f. \<exists>k. f = F_catch k) fs"

lemma catches_simps [simp]: "catches []" "catches (F_catch k # fs) = catches fs" "catches (fs @ gs) = (catches fs \<and> catches gs)"
  by (simp_all add: catches_def)

lemma run_catches: "catches gs \<Longrightarrow> run (gs @ fs) s = run fs s"
  by (induction gs) (auto simp: catches_def)

lemma run_answer:
  assumes "answer h cmd s = Some (r, s')" "\<not> transactional (ctype cmd)"
  obtains post where "catches post"
    "run (F_exec h cmd k # fs) (in_ctx cs n s) = run (F_reply k r # post @ fs) (in_ctx cs n s')"
proof -
  have step: "run (F_exec h cmd k # fs) (in_ctx cs n s) = run (gs @ fs) (in_ctx cs n s')"
    if "retarget k cs n (exec_command h cmd K_ignore s) = Next gs (in_ctx cs n s')" for gs
    by (rule run_Next) (simp add: exec_command_retarget [OF assms] that)
  from assms(1) [unfolded answer_def] show ?thesis
  proof (cases rule: answer_of_cases)
    case (plain k')
    with step [of "[F_reply k r]"] show ?thesis by (intro that [of "[]"]) simp_all
  next
    case (catch k1 k2)
    with step [of "[F_reply k r, F_catch k]"] show ?thesis by (intro that [of "[F_catch k]"]) simp_all
  next
    case (push key k')
    have "step (F_serve_blpop key) (in_ctx cs n s') = Next [] (in_ctx cs n s')"
      using push(2) by (simp add: serve_blpop_waiters_def)
    then have "run (F_serve_blpop key # F_reply k r # fs) (in_ctx cs n s') = run (F_reply k r # fs) (in_ctx cs n s')"
      by (subst run_Next [where gs = "[]"]) simp_all
    with push step [of "[F_serve_blpop key, F_reply k r]"] show ?thesis by (intro that [of "[]"]) simp_all
  next
    case (add k')
    have "step (F_serve_xread []) (in_ctx cs n s') = Next [] (in_ctx cs n s')"
      by (simp add: serve_xread_waiters_def)
    then have "run (F_serve_xread [] # F_reply k r # fs) (in_ctx cs n s') = run (F_reply k r # fs) (in_ctx cs n s')"
      by (subst run_Next [where gs = "[]"]) simp_all
    with add step [of "[F_serve_xread [], F_reply k r]"] show ?thesis by (intro that [of "[]"]) simp_all
  qed
qed

section \<open>The run of a queue\<close>

text \<open>
  The reference: the queued requests one after the other, each on the state the one before it left,
  with the write commands propagated in between. \<^const>\<open>None\<close> when a command does not answer at once.
\<close>

fun seq_run :: "nat \<Rightarrow> resp_value list \<Rightarrow> server \<Rightarrow> (string list \<times> server) option" where
  "seq_run h [] s = Some ([], s)"
| "seq_run h (q # qs) s =
     (case parse_command q of
        Inl e \<Rightarrow> None
      | Inr cmd \<Rightarrow>
          if \<not> registry_find (h_kind (get_handler s h)) (ctype cmd)
          then map_option (\<lambda>(rs, s'). (unknown_command (cname cmd) # rs, s')) (seq_run h qs s)
          else if transactional (ctype cmd) then None
          else
            (case answer h cmd s of
               None \<Rightarrow> None
             | Some (r, s1) \<Rightarrow>
                 map_option (\<lambda>(rs, s'). (r # rs, s'))
                   (seq_run h qs
                     (if h_replicas (get_handler s1 h) \<and> is_write_command (ctype cmd)
                      then post_propagate (serialize q) s1 else s1))))"

lemma store_result_in_ctx:
  "store_result_at c res x (in_ctx cs n s) =
     in_ctx (um_put c (x\<lparr>cx_results := (cx_results x)[cx_index x := res], cx_index := cx_index x + 1\<rparr>) cs) n s"
  by (simp add: store_result_at_def)

lemma post_propagate_in_ctx: "post_propagate raw (in_ctx cs n s) = in_ctx cs n (post_propagate raw s)"
  by (simp add: post_propagate_def split: prod.split)

lemma take_Suc_update: "i < length xs \<Longrightarrow> take (Suc i) (xs[i := v]) = take i xs @ [v]"
  by (simp add: take_Suc_conv_app_nth)

lemma run_next_seq:
  assumes "um_find cs c = Some x" "cx_handler x = h" "length (cx_results x) = length (cx_commands x)"
    and "drop (cx_index x) (cx_commands x) = qs" "cx_index x \<le> length (cx_commands x)"
    and "seq_run h qs s = Some (rs, s')"
  shows "\<exists>post cs'. catches post \<and>
    run (F_run_next c # fs) (in_ctx cs n s) =
      run (F_reply (cx_reply x)
        (array_header (length (cx_commands x)) @ concat (take (cx_index x) (cx_results x) @ rs)) # post @ fs)
        (in_ctx cs' n s')"
  using assms
proof (induction qs arbitrary: x cs s rs fs)
  case Nil
  then have "cx_index x = length (cx_commands x)" by simp
  with Nil have "run_next c (in_ctx cs n s) =
      reply (cx_reply x) (array_header (length (cx_commands x)) @ concat (cx_results x)) (in_ctx cs n s)"
    by (simp add: run_next_def)
  then have "run (F_run_next c # fs) (in_ctx cs n s) =
      run ([F_reply (cx_reply x) (array_header (length (cx_commands x)) @ concat (cx_results x))] @ fs) (in_ctx cs n s)"
    by (intro run_Next) simp
  with Nil show ?case by (intro exI [of _ "[]"] exI [of _ cs]) simp
next
  case (Cons q qs)
  have i: "cx_index x < length (cx_commands x)" and q: "cx_commands x ! cx_index x = q"
    using Cons.prems(4) by (metis drop_eq_Nil linorder_not_le list.distinct(1), metis nth_via_drop)
  have rest: "drop (Suc (cx_index x)) (cx_commands x) = qs"
    using Cons.prems(4) by (metis drop_Suc drop_tl list.sel(3))
  obtain cmd where cmd: "parse_command q = Inr cmd" using Cons.prems(6) by (auto split: sum.splits)
  define x' where "x' r = x\<lparr>cx_results := (cx_results x)[cx_index x := r], cx_index := cx_index x + 1\<rparr>" for r
  have IH: "\<exists>post cs'. catches post \<and>
    run (F_run_next c # gs) (in_ctx (um_put c (x' r) cs) n s1) =
      run (F_reply (cx_reply x)
        (array_header (length (cx_commands x)) @ concat (take (cx_index x) (cx_results x) @ r # rs')) # post @ gs)
        (in_ctx cs' n s')" if "seq_run h qs s1 = Some (rs', s')" for gs r rs' s1
    using Cons.IH [of "um_put c (x' r) cs" "x' r" s1 rs' gs] that Cons.prems i rest
    by (simp add: x'_def take_Suc_update)
  show ?case
  proof (cases "registry_find (h_kind (get_handler s h)) (ctype cmd)")
    case False
    then obtain rs' where rs: "seq_run h qs s = Some (rs', s')" "rs = unknown_command (cname cmd) # rs'"
      using Cons.prems(6) cmd by auto
    have "run (F_run_next c # fs) (in_ctx cs n s) =
        run ([F_run_next c] @ fs) (in_ctx (um_put c (x' (unknown_command (cname cmd))) cs) n s)"
      using False Cons.prems i q cmd by (intro run_Next) (simp add: run_next_def store_result_in_ctx x'_def Let_def)
    with IH [OF rs(1), of fs] rs(2) show ?thesis by simp
  next
    case True
    then obtain r s1 rs' where tr: "\<not> transactional (ctype cmd)" and a: "answer h cmd s = Some (r, s1)"
        and rs: "seq_run h qs (if h_replicas (get_handler s1 h) \<and> is_write_command (ctype cmd)
          then post_propagate (serialize q) s1 else s1) = Some (rs', s')" "rs = r # rs'"
      using Cons.prems(6) cmd by (auto split: if_splits option.splits prod.splits)
    let ?k = "K_exec c (ctype cmd) q"
    have "run (F_run_next c # fs) (in_ctx cs n s) = run ([F_exec h cmd ?k] @ fs) (in_ctx cs n s)"
      using True Cons.prems i q cmd by (intro run_Next) (simp add: run_next_def Let_def)
    moreover obtain post where post: "catches post"
        "run (F_exec h cmd ?k # fs) (in_ctx cs n s) = run (F_reply ?k r # post @ fs) (in_ctx cs n s1)"
      using run_answer [OF a tr] by blast
    moreover have "run (F_reply ?k r # post @ fs) (in_ctx cs n s1) =
        run ([F_run_next c] @ post @ fs) (in_ctx (um_put c (x' r) cs) n
          (if h_replicas (get_handler s1 h) \<and> is_write_command (ctype cmd)
           then post_propagate (serialize q) s1 else s1))"
      using Cons.prems i
      by (intro run_Next)
         (simp add: exec_callback_def store_result_in_ctx post_propagate_in_ctx x'_def Let_def)
    moreover obtain post' cs' where p: "catches post'"
        "run (F_run_next c # post @ fs) (in_ctx (um_put c (x' r) cs) n
          (if h_replicas (get_handler s1 h) \<and> is_write_command (ctype cmd)
           then post_propagate (serialize q) s1 else s1)) =
         run (F_reply (cx_reply x)
          (array_header (length (cx_commands x)) @ concat (take (cx_index x) (cx_results x) @ r # rs')) #
          post' @ post @ fs) (in_ctx cs' n s')"
      using IH [OF rs(1)] by blast
    ultimately show ?thesis
      by (intro exI [of _ "post' @ post"] exI [of _ cs'])
         (simp only: rs(2) append_Cons append_Nil append_assoc catches_simps p simp_thms)
  qed
qed

end
