(* ===== verification/Systems.thy ===== *)
theory Systems
  imports Main
begin

text \<open>
  Transition systems as interfaces: an invariant that the initial states have and every step keeps, a
  system whose steps are runs of a more abstract one, and what follows for reachable states.
\<close>

locale inductive_invariant =
  fixes initial :: "'s \<Rightarrow> bool"
    and step :: "'s \<Rightarrow> 's \<Rightarrow> bool"
    and inv :: "'s \<Rightarrow> bool"
  assumes initially: "initial s \<Longrightarrow> inv s"
    and preserved: "step s s' \<Longrightarrow> inv s \<Longrightarrow> inv s'"
begin

lemma kept_by_runs: "step\<^sup>*\<^sup>* s s' \<Longrightarrow> inv s \<Longrightarrow> inv s'"
  by (induction rule: rtranclp_induct) (auto intro: preserved)

lemma reachable: "initial s \<Longrightarrow> step\<^sup>*\<^sup>* s s' \<Longrightarrow> inv s'"
  by (rule kept_by_runs) (auto intro: initially)

end

locale step_refinement =
  fixes cinitial :: "'c \<Rightarrow> bool"
    and cstep :: "'c \<Rightarrow> 'c \<Rightarrow> bool"
    and initial :: "'s \<Rightarrow> bool"
    and step :: "'s \<Rightarrow> 's \<Rightarrow> bool"
    and abs :: "'c \<Rightarrow> 's"
  assumes abs_initial: "cinitial c \<Longrightarrow> initial (abs c)"
    and abs_step: "cstep c c' \<Longrightarrow> step\<^sup>*\<^sup>* (abs c) (abs c')"
begin

lemma abs_runs: "cstep\<^sup>*\<^sup>* c c' \<Longrightarrow> step\<^sup>*\<^sup>* (abs c) (abs c')"
  by (induction rule: rtranclp_induct) (auto intro: rtranclp_trans abs_step)

end

text \<open>An invariant of the abstract system is one of the concrete system.\<close>

locale refined_invariant = step_refinement cinitial cstep initial step abs + inductive_invariant initial step inv
  for cinitial :: "'c \<Rightarrow> bool" and cstep and initial :: "'s \<Rightarrow> bool" and step and abs and inv

sublocale refined_invariant \<subseteq> concrete: inductive_invariant cinitial cstep "\<lambda>c. inv (abs c)"
proof
  show "cinitial c \<Longrightarrow> inv (abs c)" for c by (blast intro: initially abs_initial)
  show "cstep c c' \<Longrightarrow> inv (abs c) \<Longrightarrow> inv (abs c')" for c c' using kept_by_runs abs_step by blast
qed

end
