(* ===== verification/Server_Events.thy ===== *)
theory Server_Events
  imports Engine_Invariant Systems
begin

text \<open>
  The server as a state machine: its store thread takes one task at a time (a request, the handler
  of a timer), and between tasks time passes, timers expire, connections come and go
  (\<^verbatim>\<open>src/src/net/Server.cpp\<close>) and replicas join, leave and acknowledge. The invariants hold in every
  reachable state, whatever the order of the events.
\<close>

section \<open>Definitions\<close>

definition init_server :: "server_config \<Rightarrow> string \<Rightarrow> server" where
  "init_server cfg ver =
     \<lparr>config = cfg, version = ver, clock = 0, wall = 0, connected_clients = 0, store = [],
      blpop_reg = empty_registry, xread_reg = empty_registry, watch_reg = empty_registry,
      replica_reg = empty_replicas, handlers = [], ctxs = [], next_ctx = 0, timers = [], next_timer = 0, posted = []\<rparr>"

text \<open>
  A command handler has a registry of commands, a transaction manager, and what it was given: a replica
  registry, and the server's statistics for INFO.
\<close>

definition new_handler :: "registry_kind \<Rightarrow> bool \<Rightarrow> bool \<Rightarrow> handler" where
  "new_handler kind stats reps = \<lparr>h_kind = kind, h_replicas = reps, h_stats = stats, h_tm = empty_tm\<rparr>"

declare new_handler_def [simp]

text \<open>
  \<^verbatim>\<open>do_accept\<close> builds a connection with its two handlers, \<open>h\<close> for client commands and \<open>h'\<close> for
  replication commands, and counts it.
\<close>

definition accept_connection :: "nat \<Rightarrow> nat \<Rightarrow> server \<Rightarrow> server" where
  "accept_connection h h' s =
     s\<lparr>handlers :=
         um_put h' (new_handler ReplicationRegistry False True) (um_put h (new_handler ClientRegistry True True) (handlers s)),
       connected_clients := connected_clients s + 1\<rparr>"

text \<open>The session of a replica with its master has a handler too, which propagates nothing.\<close>

definition add_session_handler :: "nat \<Rightarrow> server \<Rightarrow> server" where
  "add_session_handler h s = s\<lparr>handlers := um_put h (new_handler ClientRegistry False False) (handlers s)\<rparr>"

text \<open>The destructor of a handler's transaction manager takes its watches back.\<close>

definition close_handler :: "nat \<Rightarrow> server \<Rightarrow> server" where
  "close_handler h s =
     (case clear_watches (get_tm s h) (watch_reg s) of
        (t, w) \<Rightarrow> s\<lparr>watch_reg := w, handlers := um_erase h (handlers s)\<rparr>)"

definition on_disconnect :: "server \<Rightarrow> server" where
  "on_disconnect s = s\<lparr>connected_clients := connected_clients s - 1\<rparr>"

inductive sys_step :: "server \<Rightarrow> server \<Rightarrow> bool" where
  request: "handle h request k s = Done s' \<Longrightarrow> sys_step s s'"
| timer_expires: "sys_step s (expire_timer tid s)"
| timer_runs: "fire_timer tid s = Done s' \<Longrightarrow> sys_step s s'"
| time_passes: "clock s \<le> t \<Longrightarrow> in_ll w \<Longrightarrow> sys_step s (s\<lparr>clock := t, wall := w\<rparr>)"
| accepts: "um_find (handlers s) h = None \<Longrightarrow> um_find (handlers s) h' = None \<Longrightarrow> h \<noteq> h' \<Longrightarrow>
    sys_step s (accept_connection h h' s)"
| connects: "um_find (handlers s) h = None \<Longrightarrow> sys_step s (add_session_handler h s)"
| closes: "sys_step s (close_handler h s)"
| disconnects: "sys_step s (on_disconnect s)"
| network_replies: "sys_step s (s\<lparr>posted := posted s @ ws\<rparr>)"
| replica_joins: "sys_step s (s\<lparr>replica_reg := snd (add_replica conn (replica_reg s))\<rparr>)"
| replica_leaves: "sys_step s (s\<lparr>replica_reg := remove_replica i (replica_reg s)\<rparr>)"
| replica_acks: "sys_step s (s\<lparr>replica_reg := record_ack i n (replica_reg s)\<rparr>)"

inductive_cases sys_stepE: "sys_step s s'"

section \<open>Invariants\<close>

definition invariants :: "server \<Rightarrow> bool" where
  "invariants s \<longleftrightarrow> server_ok s \<and> watch_ok s"

lemma run_invariants: "invariants s \<Longrightarrow> run fs s = Done s' \<Longrightarrow> invariants s'"
  using run_server_ok(1) run_watch_ok(1) by (auto simp: invariants_def)

lemma finish_invariants:
  assumes "invariants s" "finish (dispatch h request cmd k s) = Done s'"
  shows "invariants s'"
proof -
  have exec: "invariants (result_state (exec_command h cmd k s))" for h k
    using assms(1) keeps_ok_exec_command [of s h cmd k] watch_ok_exec_command [of s h cmd k]
    by (simp add: invariants_def keeps_ok_def)
  have "watch_ok (put_tm h (queue_command request (get_tm s h)) s)"
    by (rule same_watches_ok [of s]) (use assms(1) in \<open>simp_all add: queue_command_def invariants_def\<close>)
  then have "invariants (put_tm h (queue_command request (get_tm s h)) s)"
    using assms(1) by (simp add: invariants_def)
  with exec assms(1) have "invariants (result_state (dispatch h request cmd k s))"
    by (simp add: dispatch_def)
  with assms(2) run_invariants show ?thesis by (cases "dispatch h request cmd k s") auto
qed

lemma handle_invariants:
  assumes "invariants s" "handle h request k s = Done s'"
  shows "invariants s'"
proof (cases "rtype request \<noteq> Array \<or> elements request = []")
  case True
  with assms(2) have "run [F_reply k (''-ERR invalid command format'' @ crlf)] s = Done s'"
    by (simp add: handle_def)
  with assms(1) show ?thesis by (rule run_invariants)
next
  case False
  then obtain cmd where "finish (dispatch h request cmd k s) = Done s'"
    using assms(2) by (auto simp: handle_def split: sum.splits)
  with assms(1) show ?thesis by (rule finish_invariants)
qed

lemma invariants_update:
  assumes "invariants s" "server_ok s'" "watch_reg s' = watch_reg s" "\<And>h. get_tm s' h = get_tm s h"
  shows "invariants s'"
  using assms by (simp add: invariants_def watch_ok_def)

lemma fire_timer_invariants:
  assumes "invariants s" "fire_timer tid s = Done s'"
  shows "invariants s'"
proof (cases "um_find (timers s) tid")
  case (Some t)
  have "invariants (s\<lparr>timers := ts, blpop_reg := unregister cid (blpop_reg s)\<rparr>)"
      "invariants (s\<lparr>timers := ts, xread_reg := unregister cid (xread_reg s)\<rparr>)" "invariants (s\<lparr>timers := ts\<rparr>)" for ts cid
    using assms(1) registry_ok_unregister [of "blpop_reg s" cid] registry_ok_unregister [of "xread_reg s" cid]
    by (auto simp: invariants_def server_ok_def watch_ok_def)
  note inv = this [THEN run_invariants]
  from Some assms show ?thesis
    by (auto simp: fire_timer_def Let_def intro: inv split: if_splits timer_task.splits)
qed (use assms in \<open>simp add: fire_timer_def\<close>)

lemma get_tm_accept:
  "um_find (handlers s) h = None \<Longrightarrow> um_find (handlers s) h' = None \<Longrightarrow>
     get_tm (accept_connection h h' s) x = get_tm s x"
  by (simp add: accept_connection_def get_tm_def get_handler_def default_handler_def)

lemma get_tm_session:
  "um_find (handlers s) h = None \<Longrightarrow> get_tm (add_session_handler h s) x = get_tm s x"
  by (simp add: add_session_handler_def get_tm_def get_handler_def default_handler_def)

lemma close_handler_invariants:
  assumes "invariants s"
  shows "invariants (close_handler h s)"
proof -
  obtain t w where c: "clear_watches (get_tm s h) (watch_reg s) = (t, w)" by force
  let ?s = "put_tm h empty_tm (s\<lparr>watch_reg := w\<rparr>)"
  have "watch_ok ?s" using assms c by (intro watch_ok_clear) (auto simp: invariants_def empty_tm_def)
  moreover have cl: "close_handler h s = s\<lparr>watch_reg := w, handlers := um_erase h (handlers s)\<rparr>"
    by (simp add: close_handler_def c)
  have "get_tm (close_handler h s) x = get_tm ?s x" "watch_reg (close_handler h s) = watch_reg ?s" for x
    unfolding cl by (simp_all, simp add: get_tm_def get_handler_def default_handler_def)
  with calculation have "watch_ok (close_handler h s)" by (simp add: watch_ok_def)
  moreover have "server_ok (close_handler h s)"
    using assms c registry_ok_unwatch_all [of "watch_reg s"]
    by (auto simp: invariants_def server_ok_def close_handler_def clear_watches_def)
  ultimately show ?thesis by (simp add: invariants_def)
qed

lemma invariants_simps [simp]:
  "invariants (s\<lparr>replica_reg := r\<rparr>) = invariants s" "invariants (s\<lparr>timers := ts\<rparr>) = invariants s"
  "invariants (s\<lparr>connected_clients := n\<rparr>) = invariants s" "invariants (s\<lparr>posted := ps\<rparr>) = invariants s"
  "in_ll w \<Longrightarrow> invariants s \<Longrightarrow> invariants (s\<lparr>clock := t, wall := w\<rparr>)"
  by (auto simp: invariants_def server_ok_def watch_ok_def get_tm_cong [of "s\<lparr>connected_clients := n\<rparr>" s]
      get_tm_cong [of "s\<lparr>clock := t, wall := w\<rparr>" s])

lemma sys_step_invariants: "sys_step s s' \<Longrightarrow> invariants s \<Longrightarrow> invariants s'"
proof (induction rule: sys_step.induct)
  case (accepts s h h')
  have "server_ok (accept_connection h h' s)"
    using accepts(4) by (simp add: invariants_def server_ok_def accept_connection_def)
  moreover have "watch_reg (accept_connection h h' s) = watch_reg s" by (simp add: accept_connection_def)
  ultimately show ?case using accepts get_tm_accept by (intro invariants_update [OF accepts(4)]) auto
next
  case (connects s h)
  have "server_ok (add_session_handler h s)" "watch_reg (add_session_handler h s) = watch_reg s"
    using connects(2) by (simp_all add: invariants_def server_ok_def add_session_handler_def)
  then show ?case using connects get_tm_session by (intro invariants_update [OF connects(2)]) auto
next
  case (request h request k s s')
  then show ?case using handle_invariants by blast
next
  case (timer_runs tid s s')
  then show ?case using fire_timer_invariants by blast
qed (simp_all add: close_handler_invariants expire_timer_def on_disconnect_def split: option.split)

definition initial_server :: "server \<Rightarrow> bool" where
  "initial_server s \<longleftrightarrow> (\<exists>cfg ver. s = init_server cfg ver)"

lemma initial_server_init [simp]: "initial_server (init_server cfg ver)"
  by (auto simp: initial_server_def)

interpretation server_inv: inductive_invariant initial_server sys_step invariants
proof
  show "invariants s" if "initial_server s" for s
    using that by (auto simp: initial_server_def invariants_def server_ok_def watch_ok_def watch_owners_def init_server_def
        get_tm_def get_handler_def default_handler_def ll_limits)
       (simp_all add: regs_at_def empty_registry_def)
qed (rule sys_step_invariants)

section \<open>Properties\<close>

text \<open>
  In every state that the server can reach, after any interleaving of requests, timers,
  connections and replicas: the store is well formed, the registries of waiting clients and of
  watches are consistent, and every connection's transaction manager knows exactly its own watches.
\<close>

theorem reachable_invariants:
  assumes "sys_step\<^sup>*\<^sup>* (init_server cfg ver) s"
  shows "server_ok s \<and> watch_ok s"
  using server_inv.reachable [OF _ assms] by (simp add: invariants_def)

theorem reachable_invariants_witness:
  "watch_ok (accept_connection 0 1 (init_server
     \<lparr>is_replica = False, replicaof = None, master_replid = ''r'', master_repl_offset = 0\<rparr> ''1''))"
  by (rule reachable_invariants [THEN conjunct2], rule r_into_rtranclp, rule sys_step.accepts)
     (simp_all add: init_server_def)

end
