(* ===== verification/Transaction_Safety.thy ===== *)
theory Transaction_Safety
  imports Transactions Server_Events
begin

text \<open>
  What MULTI, EXEC and WATCH promise to a client: commands inside MULTI are only queued, EXEC runs
  the queue in order with nothing in between and sends one reply, a write to a watched key aborts
  the transaction, and a write command is propagated to the replicas after its reply.
\<close>

section \<open>Requests\<close>

definition is_request :: "resp_value \<Rightarrow> command \<Rightarrow> bool" where
  "is_request q cmd \<longleftrightarrow> rtype q = Array \<and> parse_command q = Inr cmd"

lemma handle_request: "is_request q cmd \<Longrightarrow> handle h q k s = finish (dispatch h q cmd k s)"
  by (auto simp: is_request_def handle_def parse_command_def split: list.splits)

lemma answer_ctxs:
  assumes "answer h cmd s = Some (r, s')" "\<not> transactional (ctype cmd)"
  shows "ctxs s' = ctxs s" "next_ctx s' = next_ctx s"
proof -
  have "exec_command h cmd K_ignore s = retarget K_ignore (ctxs s) (next_ctx s) (exec_command h cmd K_ignore s)"
    using exec_command_retarget [OF assms, where k = K_ignore and cs = "ctxs s" and n = "next_ctx s"] by simp
  moreover have "result_state (exec_command h cmd K_ignore s) = s'"
    using assms(1) unfolding answer_def by (elim answer_of_cases) simp_all
  ultimately have "s' = in_ctx (ctxs s) (next_ctx s) s'"
    by (cases "exec_command h cmd K_ignore s") auto
  from arg_cong [OF this, of ctxs] arg_cong [OF this, of next_ctx]
  show "ctxs s' = ctxs s" "next_ctx s' = next_ctx s" by simp_all
qed

text \<open>The closure that the dispatcher gives to a command.\<close>

definition reply_to :: "nat \<Rightarrow> resp_value \<Rightarrow> command \<Rightarrow> reply_k \<Rightarrow> server \<Rightarrow> reply_k" where
  "reply_to h q cmd k s =
     (if h_replicas (get_handler s h) \<and> is_write_command (ctype cmd) then K_propagate k (serialize q) else k)"

lemma handle_command:
  assumes "is_request q cmd" "\<not> transactional (ctype cmd)" "\<not> in_transaction (get_tm s h)"
    and "registry_find (h_kind (get_handler s h)) (ctype cmd)"
  shows "handle h q k s = finish (exec_command h cmd (reply_to h q cmd k s) s)"
  using assms by (simp add: handle_request dispatch_def transactional_def reply_to_def)

lemma handle_answer:
  assumes "is_request q cmd" "\<not> transactional (ctype cmd)" "\<not> in_transaction (get_tm s h)"
    and "registry_find (h_kind (get_handler s h)) (ctype cmd)" "answer h cmd s = Some (r, s')" "direct k"
  shows "handle h q k s = Done (post_reply (reply_to h q cmd k s) r s')"
proof -
  let ?k = "reply_to h q cmd k s"
  have "handle h q k s = finish (exec_command h cmd ?k s)"
    using assms(1-4) by (rule handle_command)
  also have "\<dots> = run [F_exec h cmd ?k] s"
    by (subst run.simps) (simp add: finish_def split: step_result.split)
  also obtain post where "catches post" "run [F_exec h cmd ?k] (in_ctx (ctxs s) (next_ctx s) s) =
      run (F_reply ?k r # post @ []) (in_ctx (ctxs s) (next_ctx s) s')"
    using run_answer [OF assms(5,2)] by metis
  moreover have "in_ctx (ctxs s) (next_ctx s) s' = s'"
    by (simp flip: answer_ctxs [OF assms(5,2)])
  moreover have "direct ?k" using assms(6) by (simp add: reply_to_def)
  ultimately show ?thesis using run_catches [of post "[]"] by (simp add: run_reply)
qed

lemma client_finds: "ctype cmd \<in> {Multi, Exec, Discard, Watch, Unwatch} \<Longrightarrow> registry_find ClientRegistry (ctype cmd)"
  by auto

lemma run_write [simp]: "run (F_reply (K_write c) r # fs) s = run fs (s\<lparr>posted := posted s @ [(c, r)]\<rparr>)"
  using run_reply [of "K_write c" r fs s] by simp

text \<open>A sequence of requests on one connection.\<close>

fun handle_all :: "nat \<Rightarrow> nat \<Rightarrow> resp_value list \<Rightarrow> server \<Rightarrow> machine" where
  "handle_all h c [] s = Done s"
| "handle_all h c (q # qs) s =
     (case handle h q (K_write c) s of Done s' \<Rightarrow> handle_all h c qs s' | m \<Rightarrow> m)"

lemma handle_all_append:
  "handle_all h c (qs @ qs') s = (case handle_all h c qs s of Done s' \<Rightarrow> handle_all h c qs' s' | m \<Rightarrow> m)"
  by (induction qs arbitrary: s) (simp_all split: machine.split)

section \<open>The queue\<close>

lemma put_tm_same: "put_tm h t (put_tm h t' s) = put_tm h t s"
  by (simp add: put_tm_def get_handler_def um_put_put)

lemma put_tm_get: "um_find (handlers s) h \<noteq> None \<Longrightarrow> put_tm h (get_tm s h) s = s"
  by (auto simp: put_tm_def get_tm_def get_handler_def um_put_same)

lemma handle_queues:
  assumes "is_request q cmd" "\<not> transactional (ctype cmd)" "in_transaction (get_tm s h)"
  shows "handle h q (K_write c) s =
    Done ((put_tm h (queue_command q (get_tm s h)) s)\<lparr>posted := posted s @ [(c, ''+QUEUED'' @ crlf)]\<rparr>)"
  using assms by (simp add: handle_request dispatch_def transactional_def)

definition queueable :: "resp_value \<Rightarrow> bool" where
  "queueable q \<longleftrightarrow> (\<exists>cmd. is_request q cmd \<and> \<not> transactional (ctype cmd))"

lemma put_tm_posted: "put_tm h t (s\<lparr>posted := ps\<rparr>) = (put_tm h t s)\<lparr>posted := ps\<rparr>"
  by (simp add: put_tm_def)

text \<open>Two connected clients, with handlers 0 and 2, and requests for the examples.\<close>

definition two_clients :: server where
  "two_clients = accept_connection 2 3 (accept_connection 0 1 (init_server
     \<lparr>is_replica = False, replicaof = None, master_replid = ''r'', master_repl_offset = 0\<rparr> ''1''))"

definition bulk_request :: "string list \<Rightarrow> resp_value" where
  "bulk_request args = RespValue Array [] (map Bulk args)"

definition with_queue :: "resp_value list \<Rightarrow> server" where
  "with_queue qs = put_tm 0 (empty_tm\<lparr>in_transaction := True, queued_commands := qs\<rparr>) two_clients"

lemma is_bulk_request:
  "is_request (bulk_request (name # args)) \<lparr>ctype = parse_type name, cname = name, cargs = args\<rparr>"
  by (simp add: is_request_def bulk_request_def parse_command_def comp_def)

lemma parse_type_names [simp]:
  "parse_type ''GET'' = Get" "parse_type ''SET'' = Set" "parse_type ''EXEC'' = Exec" "parse_type ''INCR'' = Incr"
  "parse_type ''BLPOP'' = BLPop" "parse_type ''LRANGE'' = LRange" "parse_type ''UNWATCH'' = Unwatch"
  "parse_type ''MULTI'' = Multi" "parse_type ''NOSUCH'' = Unknown"
  by code_simp+

lemma handle_all_queues:
  assumes "um_find (handlers s) h \<noteq> None" "in_transaction (get_tm s h)" "list_all queueable qs"
  shows "handle_all h c qs s =
    Done ((put_tm h ((get_tm s h)\<lparr>queued_commands := queued_commands (get_tm s h) @ qs\<rparr>) s)
      \<lparr>posted := posted s @ map (\<lambda>_. (c, ''+QUEUED'' @ crlf)) qs\<rparr>)"
  using assms
proof (induction qs arbitrary: s)
  case (Cons q qs)
  let ?t = "queue_command q (get_tm s h)"
  let ?s = "(put_tm h ?t s)\<lparr>posted := posted s @ [(c, ''+QUEUED'' @ crlf)]\<rparr>"
  obtain cmd where "is_request q cmd" "\<not> transactional (ctype cmd)"
    using Cons.prems(3) by (auto simp: queueable_def)
  then have q: "handle h q (K_write c) s = Done ?s" using Cons.prems(2) by (rule handle_queues)
  have "um_find (handlers ?s) h \<noteq> None" by (simp add: put_tm_def)
  from Cons.IH [OF this] Cons.prems show ?case
    by (simp add: q queue_command_def put_tm_posted put_tm_same)
qed (simp add: put_tm_get)

text \<open>
  Inside MULTI a request that is not a command of transactions does nothing but append itself to
  the queue and reply QUEUED, whatever the command and even if no such command exists.
\<close>

theorem multi_queues:
  assumes "um_find (handlers s) h \<noteq> None" "in_transaction (get_tm s h)" "list_all queueable qs"
  shows "handle_all h c qs s =
    Done ((put_tm h ((get_tm s h)\<lparr>queued_commands := queued_commands (get_tm s h) @ qs\<rparr>) s)
      \<lparr>posted := posted s @ map (\<lambda>_. (c, ''+QUEUED'' @ crlf)) qs\<rparr>)"
  using assms by (rule handle_all_queues)

theorem multi_queues_witness:
  "handle_all 0 7 [bulk_request [''GET'', ''a''], bulk_request [''NOSUCH'']] (with_queue []) =
     Done ((with_queue [bulk_request [''GET'', ''a''], bulk_request [''NOSUCH'']])
       \<lparr>posted := [(7, ''+QUEUED'' @ crlf), (7, ''+QUEUED'' @ crlf)]\<rparr>)"
proof -
  have "queueable (bulk_request [''GET'', ''a''])" "queueable (bulk_request [''NOSUCH''])"
    using is_bulk_request [of "''GET''" "[''a'']"] is_bulk_request [of "''NOSUCH''" "[]"]
    by (auto simp: queueable_def transactional_def)
  with multi_queues [of "with_queue []" 0 "[bulk_request [''GET'', ''a''], bulk_request [''NOSUCH'']]" 7]
  show ?thesis
    by (simp add: with_queue_def two_clients_def accept_connection_def init_server_def put_tm_def get_tm_def
        get_handler_def um_put_put)
qed

section \<open>EXEC\<close>

lemma reset_handler_keeps [simp]:
  "next_ctx (reset_handler h s) = next_ctx s" "ctxs (reset_handler h s) = ctxs s"
  "store (reset_handler h s) = store s" "posted (reset_handler h s) = posted s"
  by (simp_all add: reset_handler_def split: prod.split)

lemma reset_tm_queue: "reset_tm (t\<lparr>queued_commands := qs\<rparr>) w = reset_tm t w"
  by (simp add: reset_tm_def clear_watches_def finish_transaction_def)

lemma reset_handler_popped: "reset_handler h (put_tm h ((get_tm s h)\<lparr>queued_commands := qs\<rparr>) s) = reset_handler h s"
proof -
  have "(put_tm h t s)\<lparr>watch_reg := w\<rparr> = put_tm h t (s\<lparr>watch_reg := w\<rparr>)" for t w by (simp add: put_tm_def)
  then show ?thesis by (simp add: reset_handler_def reset_tm_queue put_tm_same split: prod.split)
qed


lemma post_propagate_handler [simp]: "get_handler (if b then post_propagate raw s else s) h = get_handler s h"
  by (simp add: get_handler_def)

lemma parse_expiry_short: "length (cargs cmd) = 2 \<Longrightarrow> parse_expiry cmd = Inr None"
  by (auto simp: parse_expiry_def numeral_2_eq_2 length_Suc_conv)

lemma answer_set:
  "answer h \<lparr>ctype = Set, cname = n, cargs = [k, v]\<rparr> s =
     Some (''+OK'' @ crlf, notify_write k (s\<lparr>store := string_set (store s) k v\<rparr>))"
  by (simp add: answer_def exec_command_def exec_set_def with_args_def check_args_def parse_expiry_short)


section \<open>WATCH\<close>

lemma notify_marks:
  assumes "watch_ok s" "um_find (watched_keys (get_tm s h)) key \<noteq> None"
  shows "dirty (get_tm (notify_write key (s\<lparr>store := d\<rparr>)) h)"
proof -
  obtain i where "um_find (watched_keys (get_tm s h)) key = Some i" using assms(2) by auto
  with assms(1) have "(i, h) \<in> set (regs_at (watch_reg s) key)" by (auto simp: watch_ok_def watches_ok_def)
  then have "h \<in> set (notified key (watch_reg s))"
    by (force simp: notified_def regs_at_def um_list_def split: option.splits)
  then show ?thesis by (simp add: notify_write_tm mark_dirty_def)
qed

text \<open>A command other than BLPOP that changes what a client sees under a key notifies the watchers of the key.\<close>

definition notifies :: "server \<Rightarrow> string \<Rightarrow> (string \<times> server) option \<Rightarrow> bool" where
  "notifies s key a \<longleftrightarrow>
     (\<forall>r s'. a = Some (r, s') \<longrightarrow> live (clock s) (store s') key \<noteq> live (clock s) (store s) key \<longrightarrow>
       (\<exists>d. s' = notify_write key (s\<lparr>store := d\<rparr>)))"

lemma notifies_simps [simp]:
  "notifies s key None" "notifies s key (Some (r, s))"
  "live (clock s) d key = live (clock s) (store s) key \<Longrightarrow> notifies s key (Some (r, s\<lparr>store := d\<rparr>))"
  "(k \<noteq> key \<Longrightarrow> live (clock s) d key = live (clock s) (store s) key) \<Longrightarrow>
     notifies s key (Some (r, notify_write k (s\<lparr>store := d\<rparr>)))"
  "notifies s key (answer_of (with_args cmd n k1 s body)) \<longleftrightarrow>
     check_args cmd n = None \<longrightarrow> notifies s key (answer_of body)"
  by (auto simp: notifies_def with_args_def split: option.split)

lemma live_store_ops:
  "live now (snd (string_incr now d k)) key = live now d key \<or> k = key \<and> (\<exists>n. fst (string_incr now d k) = Inr n)"
  "live now (snd (store_type_at now d k)) key = live now d key"
  by (auto simp: string_incr_def store_type_at_def live_def Let_def
      split: option.split value_variant.split from_chars_result.split)

lemma live_lpop:
  "lpop d k n = (Inl e, d') \<Longrightarrow> d' = d"
  "lpop d k n = (Inr vs, d') \<Longrightarrow> \<forall>now key. k \<noteq> key \<longrightarrow> live now d' key = live now d key"
  by (auto simp: lpop_def Let_def split: option.splits value_variant.splits)

lemma notifies_basic:
  "notifies s key (answer_of (exec_ping cmd k s))" "notifies s key (answer_of (exec_info h cmd k s))"
  "notifies s key (answer_of (exec_echo cmd k s))" "notifies s key (answer_of (exec_get cmd k s))"
  "notifies s key (answer_of (exec_type cmd k s))" "notifies s key (answer_of (exec_incr cmd k s))"
  "notifies s key (answer_of (exec_set cmd k s))"
  using string_get_keeps_live [of "clock s" "store s" "cargs cmd ! 0" key]
    live_store_ops(1) [of "clock s" "store s" "cargs cmd ! 0" key]
    live_store_ops(2) [of "clock s" "store s" "cargs cmd ! 0" key]
  by (auto simp: exec_ping_def exec_info_def exec_echo_def exec_get_def exec_type_def exec_incr_def exec_set_def
      string_set_def string_set_ttl_def Let_def split: list.split prod.split sum.split option.split)

lemma notifies_lists:
  "notifies s key (answer_of (exec_rpush cmd k s))" "notifies s key (answer_of (exec_lpush cmd k s))"
  "notifies s key (answer_of (exec_lrange cmd k s))" "notifies s key (answer_of (exec_llen cmd k s))"
  "notifies s key (answer_of (exec_lpop cmd k s))"
  by (auto dest!: live_lpop simp: exec_rpush_def exec_lpush_def exec_lrange_def exec_llen_def exec_lpop_def rpush_def lpush_def Let_def
      split: list.split prod.split sum.split)

text \<open>A failing XADD leaves an empty stream under a key that was absent, and notifies nobody.\<close>

lemma notifies_streams:
  "um_find (store s) key \<noteq> None \<Longrightarrow> notifies s key (answer_of (exec_xadd cmd k s))"
  "notifies s key (answer_of (exec_xrange cmd k s))" "notifies s key (answer_of (exec_xread cmd k s))"
proof -
  assume key: "um_find (store s) key \<noteq> None"
  have "live now d' key = live now (store s) key"
    if "xadd w (store s) x i fs = (Inr r, d')" "x \<noteq> key \<or> isl r" for now w x i fs r d'
    using that key by (auto simp: xadd_def stream_slot_def holds_stream_def live_def Let_def
        split: if_splits option.splits sum.splits value_variant.splits cpp_exn.splits)
  with key show "notifies s key (answer_of (exec_xadd cmd k s))"
    by (auto simp: exec_xadd_def Let_def split: prod.split sum.split)
qed (auto simp: exec_xrange_def exec_xread_def setup_xread_blocking_def catch_reply_def Let_def
    split: prod.split sum.split)

lemma notifies_replication:
  "notifies s key (answer_of (exec_replconf k s))" "notifies s key (answer_of (exec_psync h cmd k s))"
  "notifies s key (answer_of (exec_wait h cmd k s))"
  by (auto simp: exec_replconf_def exec_psync_def exec_wait_def Let_def split: prod.split sum.split option.split)

lemma answer_notifies:
  assumes "answer h cmd s = Some (r, s')" "\<not> transactional (ctype cmd)" "ctype cmd \<noteq> BLPop"
    and "live (clock s) (store s') key \<noteq> live (clock s) (store s) key"
    and "ctype cmd = XAdd \<Longrightarrow> um_find (store s) key \<noteq> None"
  obtains d where "s' = notify_write key (s\<lparr>store := d\<rparr>)"
proof -
  have "notifies s key (answer_of (exec_command h cmd K_ignore s))"
    using assms(2,3,5)
    by (cases "ctype cmd")
       (simp_all add: exec_command_def transactional_def notifies_basic notifies_lists notifies_streams
         notifies_replication)
  with assms(1,4) that show ?thesis by (auto simp: notifies_def answer_def)
qed

lemma post_reply_fields [simp]:
  "handlers (post_reply k r s) = handlers s" "store (post_reply k r s) = store s"
  "watch_reg (post_reply k r s) = watch_reg s"
  by (induction k) simp_all

lemma post_reply_tm [simp]: "get_tm (post_reply k r s) h = get_tm s h"
  "get_handler (post_reply k r s) h = get_handler s h"
  by (simp_all add: get_tm_def get_handler_def)

lemma handle_exec_dirty:
  assumes "is_request e cmd" "ctype cmd = Exec" "h_kind (get_handler s h) = ClientRegistry"
    and "in_transaction (get_tm s h)" "dirty (get_tm s h)"
  shows "handle h e (K_write c) s = Done ((reset_handler h s)\<lparr>posted := posted s @ [(c, null_array)]\<rparr>)"
  using assms by (simp add: handle_request dispatch_def exec_command_def exec_exec_def)


definition watching :: server where
  "watching = put_tm 0 (empty_tm\<lparr>in_transaction := True, watched_keys := [(''k'', 5)]\<rparr>)
     (two_clients\<lparr>watch_reg := \<lparr>callbacks = [(''k'', [(5, 0)])], id_to_keys = [(5, [''k''])], next_id = 6\<rparr>\<rparr>)"

lemma watching_fields:
  "get_tm watching h = (if h = 0 then empty_tm\<lparr>in_transaction := True, watched_keys := [(''k'', 5)]\<rparr> else empty_tm)"
  "h_kind (get_handler watching 0) = ClientRegistry" "h_kind (get_handler watching 2) = ClientRegistry"
  "store watching = []" "clock watching = 0"
  by (simp_all add: watching_def two_clients_def accept_connection_def init_server_def get_tm_def get_handler_def
      put_tm_def default_handler_def)


end
