(* ===== verification/Isolation.thy ===== *)
theory Isolation
  imports Transaction_Safety
begin

text \<open>
  Connections do not disturb each other's transactions: a request changes the transaction manager of
  its own handler only, apart from the mark that a watched key was written, although serving a blocked
  client may run the commands of that client's EXEC. No request adds or removes a replica.
\<close>

section \<open>What a step keeps\<close>

text \<open>A manager without its mark, and states that agree on all managers up to new marks.\<close>

definition tm_view :: "tm \<Rightarrow> bool \<times> resp_value list \<times> (string, nat) umap" where
  "tm_view t = (in_transaction t, queued_commands t, watched_keys t)"

definition tm_kept :: "tm \<Rightarrow> tm \<Rightarrow> bool" where
  "tm_kept t t' \<longleftrightarrow> tm_view t' = tm_view t \<and> (dirty t \<longrightarrow> dirty t')"

definition replicas_kept :: "server \<Rightarrow> server \<Rightarrow> bool" where
  "replicas_kept s s' \<longleftrightarrow> replicas (replica_reg s') = replicas (replica_reg s) \<and>
     next_replica_id (replica_reg s') = next_replica_id (replica_reg s)"

lemma tm_kept_refl [simp]: "tm_kept t t" "tm_kept t (mark_dirty t)"
  by (simp_all add: tm_kept_def tm_view_def mark_dirty_def)

lemma tm_kept_trans: "tm_kept t t' \<Longrightarrow> tm_kept t' t'' \<Longrightarrow> tm_kept t t''"
  by (simp add: tm_kept_def)

lemma get_tm_calls [simp]:
  "get_tm (new_timer a tt s) h = get_tm s h" "get_tm (cancel_timer i s) h = get_tm s h"
  "get_tm (post_propagate raw s) h = get_tm s h" "get_tm (store_result_at c res x s) h = get_tm s h"
  by (rule get_tm_cong, simp add: store_result_at_def)+

lemma effects_tm: "effects s s' \<Longrightarrow> tm_kept (get_tm s h) (get_tm s' h)"
proof (induction rule: effects.induct)
  case (notify s' key)
  then show ?case using tm_kept_trans [OF _ tm_kept_refl(2)] by (simp add: notify_write_tm)
qed simp_all

lemma effects_replicas: "effects s s' \<Longrightarrow> replicas_kept s s'"
  by (induction rule: effects.induct)
     (auto simp: replicas_kept_def store_result_at_def post_propagate_def propagate_def split: prod.split)

section \<open>Queued commands\<close>

text \<open>Commands of transactions are never queued, so no EXEC ever runs one.\<close>

definition plain_request :: "resp_value \<Rightarrow> bool" where
  "plain_request q \<longleftrightarrow> (\<forall>cmd. parse_command q = Inr cmd \<longrightarrow> \<not> transactional (ctype cmd))"

definition plain_ctxs :: "server \<Rightarrow> bool" where
  "plain_ctxs s \<longleftrightarrow> (\<forall>c x. um_find (ctxs s) c = Some x \<longrightarrow> list_all plain_request (cx_commands x))"

definition queues_ok :: "server \<Rightarrow> bool" where
  "queues_ok s \<longleftrightarrow> plain_ctxs s \<and> (\<forall>h. list_all plain_request (queued_commands (get_tm s h)))"

definition plain_frame :: "frame \<Rightarrow> bool" where
  "plain_frame f \<longleftrightarrow> (\<forall>h cmd k. f = F_exec h cmd k \<longrightarrow> \<not> transactional (ctype cmd))"

lemma effects_plain: "effects s s' \<Longrightarrow> plain_ctxs s \<Longrightarrow> plain_ctxs s'"
proof (induction rule: effects.induct)
  case (result s' c y res)
  then show ?case by (auto simp: plain_ctxs_def store_result_at_def split: if_splits)
qed (simp_all add: plain_ctxs_def)

lemma plain_frame_simps [simp]:
  "plain_frame (F_reply k r)" "plain_frame (F_propagate raw)" "plain_frame (F_serve_blpop key)"
  "plain_frame (F_serve_xread ws)" "plain_frame (F_run_next c)" "plain_frame (F_catch k)"
  "plain_frame (F_poll target n deadline k)" "plain_frame (F_exec h cmd k) \<longleftrightarrow> \<not> transactional (ctype cmd)"
  by (simp_all add: plain_frame_def)

lemma quiet_frames: "quiet s r \<Longrightarrow> list_all plain_frame (result_frames r)"
  by (auto simp: quiet_def list_all_iff plain_frame_def)

lemma run_next_plain:
  assumes "plain_ctxs s"
  shows "list_all plain_frame (result_frames (run_next c s))"
proof -
  have "\<not> transactional (ctype cmd)"
    if "um_find (ctxs s) c = Some x" "\<not> length (cx_commands x) < cx_index x" "cx_index x \<noteq> length (cx_commands x)"
      "parse_command (cx_commands x ! cx_index x) = Inr cmd" for x cmd
  proof -
    have "cx_index x < length (cx_commands x)" using that(2,3) by simp
    with assms that(1,4) show ?thesis unfolding plain_ctxs_def plain_request_def list_all_length by blast
  qed
  then show ?thesis
    by (auto simp: run_next_def Let_def split: option.split sum.split)
qed

lemma step_plain:
  assumes "plain_frame f" "plain_ctxs s"
  shows "list_all plain_frame (result_frames (step f s))"
proof (cases f)
  case (F_exec h cmd k)
  with assms(1) show ?thesis by (auto simp: transactional_def intro: quiet_frames quiet_exec_command)
next
  case (F_reply k r)
  then show ?thesis by (cases k) (auto simp: exec_callback_def Let_def split: option.split)
next
  case (F_serve_blpop key)
  then show ?thesis by (auto simp: serve_blpop_waiters_def split: list.split prod.split sum.split)
next
  case (F_serve_xread ws)
  then show ?thesis by (auto simp: serve_xread_waiters_def Let_def split: list.split sum.split)
qed (use assms in \<open>simp_all add: run_next_plain wait_poll_def Let_def\<close>)

text \<open>A run of plain frames keeps every manager, the replicas and that EXEC contexts are plain.\<close>

definition kept :: "server \<Rightarrow> server \<Rightarrow> bool" where
  "kept s s' \<longleftrightarrow> plain_ctxs s' \<and> replicas_kept s s' \<and> (\<forall>h. tm_kept (get_tm s h) (get_tm s' h))"

lemma kept_trans: "kept s s' \<Longrightarrow> kept s' s'' \<Longrightarrow> kept s s''"
  using tm_kept_trans unfolding kept_def replicas_kept_def by metis

lemma effects_kept: "effects s s' \<Longrightarrow> plain_ctxs s \<Longrightarrow> kept s s'"
  by (simp add: kept_def effects_tm effects_replicas effects_plain)

lemma run_kept:
  assumes "list_all plain_frame fs" "plain_ctxs s" "run fs s = Done s'"
  shows "kept s s'"
proof -
  have "case run fs s of Running gs s' \<Rightarrow> False | Done s' \<Rightarrow> kept s s' | Crashed e s' \<Rightarrow> kept s s'"
  proof (rule run_frames_induct [where Q = "\<lambda>_. plain_frame"])
    fix f s1
    assume s1: "kept s s1" "plain_frame f"
    then have "plain_ctxs s1" by (simp add: kept_def)
    moreover from this s1(2) have "kept s1 (result_state (step f s1))"
      by (intro effects_kept step_effects) (auto simp: plain_frame_def transactional_def)
    ultimately show "kept s (result_state (step f s1)) \<and> (\<forall>g \<in> set (result_frames (step f s1)). plain_frame g)"
      using s1 step_plain kept_trans by (auto simp: list_all_iff)
  qed (use assms(1,2) effects_kept [OF effects.none] in \<open>auto simp: list_all_iff\<close>)
  with assms(3) show ?thesis by simp
qed

section \<open>Requests\<close>

text \<open>The effect of a request of handler \<open>h\<close> on the managers: only its own one may change freely.\<close>

definition own_tm :: "nat \<Rightarrow> server \<Rightarrow> server \<Rightarrow> bool" where
  "own_tm h s s' \<longleftrightarrow> queues_ok s' \<and> replicas_kept s s' \<and> (\<forall>g. g \<noteq> h \<longrightarrow> tm_kept (get_tm s g) (get_tm s' g))"

lemma own_tm_kept: "own_tm h s s' \<Longrightarrow> kept s' s'' \<Longrightarrow> own_tm h s s''"
proof -
  assume s: "own_tm h s s'" "kept s' s''"
  have "queued_commands (get_tm s'' g) = queued_commands (get_tm s' g)" for g
    using s(2) by (simp add: kept_def tm_kept_def tm_view_def)
  with s tm_kept_trans show ?thesis by (auto simp: own_tm_def queues_ok_def kept_def replicas_kept_def)
qed

lemma kept_own_tm: "queues_ok s \<Longrightarrow> kept s s' \<Longrightarrow> own_tm h s s'"
  by (rule own_tm_kept [of h s s]) (simp_all add: own_tm_def replicas_kept_def)

text \<open>An update of the handler's own manager.\<close>

lemma own_tm_put:
  assumes "queues_ok s" "list_all plain_request (queued_commands t)"
  shows "own_tm h s (put_tm h t s)" "own_tm h s (put_tm h t (s\<lparr>watch_reg := w\<rparr>))"
  using assms by (simp_all add: own_tm_def queues_ok_def replicas_kept_def plain_ctxs_def)

lemma own_tm_reset:
  assumes "own_tm h s s'"
  shows "own_tm h s (reset_handler h s')"
proof -
  obtain t w where "reset_tm (get_tm s' h) (watch_reg s') = (t, w)" by force
  moreover from this have "queued_commands t = []" by (auto simp: reset_tm_def split: prod.splits)
  ultimately show ?thesis
    using assms by (simp add: reset_handler_def own_tm_def queues_ok_def replicas_kept_def plain_ctxs_def)
qed

lemma own_tm_exec:
  assumes "queues_ok s"
  shows "own_tm h s (result_state (exec_exec h k s)) \<and> list_all plain_frame (result_frames (exec_exec h k s))"
proof -
  have q: "list_all plain_request (queued_commands (get_tm s h))" using assms by (simp add: queues_ok_def)
  have s: "own_tm h s s" using assms by (simp add: own_tm_def replicas_kept_def)
  let ?s1 = "reset_handler h (put_tm h ((get_tm s h)\<lparr>queued_commands := []\<rparr>) s)"
  have "own_tm h s ?s1" using own_tm_put(1) [OF assms, of "(get_tm s h)\<lparr>queued_commands := []\<rparr>"] own_tm_reset by simp
  moreover have "own_tm h s (?s1\<lparr>ctxs := um_put c x (ctxs ?s1), next_ctx := n\<rparr>)"
    if "own_tm h s ?s1" "list_all plain_request (cx_commands x)" for c x n
    using that by (auto simp: own_tm_def queues_ok_def plain_ctxs_def replicas_kept_def)
  ultimately show ?thesis
    using q s own_tm_reset [OF s] by (simp add: exec_exec_def pop_queued_commands_def Let_def)
qed

lemma own_tm_exec_command:
  assumes "queues_ok s"
  shows "own_tm h s (result_state (exec_command h cmd k s)) \<and> list_all plain_frame (result_frames (exec_command h cmd k s))"
proof -
  have s: "own_tm h s s" "list_all plain_request (queued_commands (get_tm s h))"
    using assms by (simp_all add: own_tm_def replicas_kept_def queues_ok_def)
  consider (exec) "ctype cmd = Exec" | (multi) "ctype cmd = Multi" | (watch) "ctype cmd = Watch" | (unwatch) "ctype cmd = Unwatch"
    | (discard) "ctype cmd = Discard" | (plain) "ctype cmd \<notin> {Multi, Watch, Unwatch, Exec, Discard}" by blast
  then show ?thesis
  proof cases
    case exec
    with own_tm_exec [OF assms] show ?thesis by (simp add: exec_command_def)
  next
    case multi
    then show ?thesis using own_tm_put(1) [OF assms, of "begin_tm (get_tm s h)"] by (simp add: exec_command_def exec_multi_def begin_tm_def)
  next
    case watch
    obtain t w where t: "watch_all h (cargs cmd) (get_tm s h, watch_reg s) = (t, w)" by force
    then have "queued_commands t = queued_commands (get_tm s h)"
      using watch_all_queue [of h "cargs cmd" "get_tm s h" "watch_reg s"] by simp
    with watch s t own_tm_put(2) [OF assms, of t] show ?thesis
      by (simp add: exec_command_def exec_watch_def with_args_def split: option.split)
  next
    case unwatch
    with s own_tm_put(2) [OF assms, of "(get_tm s h)\<lparr>watched_keys := []\<rparr>"] show ?thesis
      by (simp add: exec_command_def exec_unwatch_def clear_watches_def)
  next
    case discard
    with s own_tm_reset [OF s(1)] show ?thesis by (simp add: exec_command_def exec_discard_def)
  next
    case plain
    have "kept s (result_state (exec_command h cmd k s))"
      using assms plain by (intro effects_kept exec_command_effects) (simp_all add: queues_ok_def)
    moreover have "list_all plain_frame (result_frames (exec_command h cmd k s))"
      using plain quiet_frames [OF quiet_exec_command] by simp
    ultimately show ?thesis using kept_own_tm [OF assms] by blast
  qed
qed

lemma run_own_tm:
  assumes "own_tm h s (result_state r)" "list_all plain_frame (result_frames r)" "finish r = Done s'"
  shows "own_tm h s s'"
proof (cases r)
  case (Next gs s1)
  with assms have "run gs s1 = Done s'" "list_all plain_frame gs" "plain_ctxs s1" "own_tm h s s1"
    by (auto simp: own_tm_def queues_ok_def)
  then show ?thesis using run_kept own_tm_kept by blast
qed (use assms in simp)

lemma own_tm_dispatch:
  assumes "queues_ok s" "parse_command q = Inr cmd"
  shows "own_tm h s (result_state (dispatch h q cmd k s)) \<and> list_all plain_frame (result_frames (dispatch h q cmd k s))"
proof -
  have s: "own_tm h s s" using assms by (simp add: own_tm_def replicas_kept_def)
  moreover have "own_tm h s (put_tm h (queue_command q (get_tm s h)) s)" if "\<not> transactional (ctype cmd)"
    using assms that by (intro own_tm_put) (auto simp: queue_command_def queues_ok_def plain_request_def)
  ultimately show ?thesis
    using own_tm_exec_command [OF assms(1), of h cmd] by (simp add: dispatch_def transactional_def)
qed

lemma handle_own_tm:
  assumes "queues_ok s" "handle h q k s = Done s'"
  shows "own_tm h s s'"
proof (cases "rtype q \<noteq> Array \<or> elements q = []")
  case True
  let ?r = "reply k (''-ERR invalid command format'' @ crlf) s"
  have own: "own_tm h s (result_state ?r)" using assms(1) by (simp add: own_tm_def replicas_kept_def)
  have "finish ?r = Done s'" using assms(2) True by (simp add: handle_def)
  from run_own_tm [OF own _ this] show ?thesis by simp
next
  case False
  then obtain cmd where "parse_command q = Inr cmd" "finish (dispatch h q cmd k s) = Done s'"
    using assms(2) by (auto simp: handle_def split: sum.splits)
  with own_tm_dispatch [OF assms(1)] run_own_tm show ?thesis by blast
qed

lemma fire_timer_kept:
  assumes "plain_ctxs s" "fire_timer tid s = Done s'"
  shows "kept s s'"
proof -
  have k: "kept s (s\<lparr>timers := ts, blpop_reg := b\<rparr>)" "kept s (s\<lparr>timers := ts, xread_reg := x\<rparr>)" "kept s (s\<lparr>timers := ts\<rparr>)" "kept s s" for ts b x
    using assms(1) by (simp_all add: kept_def plain_ctxs_def replicas_kept_def)
  have run: "kept s s'" if "run [f] s1 = Done s'" "plain_frame f" "kept s s1" for f s1
  proof -
    have "plain_ctxs s1" using that(3) by (simp add: kept_def)
    with that(1,2) have "kept s1 s'" by (intro run_kept [of "[f]"]) simp_all
    with that(3) show ?thesis by (rule kept_trans)
  qed
  show ?thesis
    using assms(2) k by (auto simp: fire_timer_def Let_def intro: run split: option.splits if_splits timer_task.splits)
qed

section \<open>Properties\<close>

lemma queues_ok_close:
  assumes "queues_ok s"
  shows "queues_ok (close_handler h s)"
proof -
  obtain t w where c: "clear_watches (get_tm s h) (watch_reg s) = (t, w)" by force
  then have cl: "close_handler h s = s\<lparr>watch_reg := w, handlers := um_erase h (handlers s)\<rparr>" by (simp add: close_handler_def)
  have "get_tm (close_handler h s) g = (if g = h then empty_tm else get_tm s g)" for g
    unfolding cl by (simp add: get_tm_def get_handler_def default_handler_def)
  moreover have "ctxs (close_handler h s) = ctxs s" by (simp add: cl)
  ultimately show ?thesis using assms by (simp add: queues_ok_def plain_ctxs_def empty_tm_def)
qed

lemma sys_step_queues_ok: "sys_step s s' \<Longrightarrow> queues_ok s \<Longrightarrow> queues_ok s'"
proof (induction rule: sys_step.induct)
  case (request h request k s s')
  then show ?case using handle_own_tm by (auto simp: own_tm_def)
next
  case (timer_runs tid s s')
  then show ?case using fire_timer_kept kept_own_tm [of s s'] by (auto simp: own_tm_def queues_ok_def)
next
  case (accepts s h h')
  then show ?case using get_tm_accept [of s h h'] by (simp add: queues_ok_def plain_ctxs_def, simp add: accept_connection_def)
next
  case (connects s h)
  then show ?case using get_tm_session [of s h] by (simp add: queues_ok_def plain_ctxs_def, simp add: add_session_handler_def)
next
  case (closes s h)
  then show ?case by (simp add: queues_ok_close)
qed (auto simp: queues_ok_def plain_ctxs_def expire_timer_def on_disconnect_def get_tm_cong [of "_\<lparr>connected_clients := _\<rparr>" _]
    get_tm_cong [of "_\<lparr>clock := _, wall := _\<rparr>" _] split: option.split)

interpretation queue_inv: inductive_invariant initial_server sys_step queues_ok
proof
  show "queues_ok s" if "initial_server s" for s
    using that by (auto simp: initial_server_def queues_ok_def plain_ctxs_def init_server_def get_tm_def get_handler_def
        default_handler_def empty_tm_def)
qed (rule sys_step_queues_ok)

text \<open>
  C7. Connections are isolated: in every reachable state a request leaves the transactions of all
  other connections alone. Whether they are inside MULTI, what they have queued and what they watch
  stays as it was; only the mark of a watched write may be set, and no replica is added or removed.
\<close>

theorem transactions_isolated:
  assumes "sys_step\<^sup>*\<^sup>* (init_server cfg ver) s" "handle h q k s = Done s'" "g \<noteq> h"
  shows "in_transaction (get_tm s' g) = in_transaction (get_tm s g) \<and>
    queued_commands (get_tm s' g) = queued_commands (get_tm s g) \<and>
    watched_keys (get_tm s' g) = watched_keys (get_tm s g) \<and> (dirty (get_tm s g) \<longrightarrow> dirty (get_tm s' g)) \<and>
    replicas (replica_reg s') = replicas (replica_reg s)"
  using handle_own_tm [OF queue_inv.reachable [OF _ assms(1)] assms(2)] assms(3)
  by (simp add: own_tm_def tm_kept_def tm_view_def replicas_kept_def)

lemma two_clients_reachable:
  "sys_step\<^sup>*\<^sup>* (init_server \<lparr>is_replica = False, replicaof = None, master_replid = ''r'', master_repl_offset = 0\<rparr> ''1'') two_clients"
proof -
  let ?s = "init_server \<lparr>is_replica = False, replicaof = None, master_replid = ''r'', master_repl_offset = 0\<rparr> ''1''"
  have "sys_step ?s (accept_connection 0 1 ?s)" by (rule sys_step.accepts) (simp_all add: init_server_def)
  moreover have "sys_step (accept_connection 0 1 ?s) two_clients"
    unfolding two_clients_def by (rule sys_step.accepts) (simp_all add: accept_connection_def init_server_def)
  ultimately show ?thesis by (blast intro: rtranclp.rtrancl_into_rtrancl)
qed

lemma two_clients_fields:
  "get_tm two_clients h = empty_tm" "h_kind (get_handler two_clients 0) = ClientRegistry"
  "h_kind (get_handler two_clients 2) = ClientRegistry"
  by (simp_all add: two_clients_def accept_connection_def init_server_def get_tm_def get_handler_def default_handler_def)

theorem transactions_isolated_witness:
  "\<exists>s1 s2. handle 0 (bulk_request [''MULTI'']) (K_write 8) two_clients = Done s1 \<and>
     handle 2 (bulk_request [''SET'', ''a'', ''1'']) (K_write 9) s1 = Done s2 \<and> in_transaction (get_tm s2 0)"
proof -
  let ?s1 = "(put_tm 0 (begin_tm empty_tm) two_clients)\<lparr>posted := posted two_clients @ [(8, ''+OK'' @ crlf)]\<rparr>"
  have m: "handle 0 (bulk_request [''MULTI'']) (K_write 8) two_clients = Done ?s1"
    using is_bulk_request [of "''MULTI''" "[]"] two_clients_fields
    by (simp add: handle_request dispatch_def exec_command_def exec_multi_def empty_tm_def)
  have "is_request (bulk_request [''SET'', ''a'', ''1'']) \<lparr>ctype = Set, cname = ''SET'', cargs = [''a'', ''1'']\<rparr>"
    using is_bulk_request [of "''SET''" "[''a'', ''1'']"] by simp
  from handle_answer [OF this _ _ _ answer_set, of ?s1 2 "K_write 9"] obtain s2
    where s2: "handle 2 (bulk_request [''SET'', ''a'', ''1'']) (K_write 9) ?s1 = Done s2"
    using two_clients_fields by (auto simp: transactional_def empty_tm_def)
  have "sys_step\<^sup>*\<^sup>* (init_server \<lparr>is_replica = False, replicaof = None, master_replid = ''r'', master_repl_offset = 0\<rparr> ''1'') ?s1"
    using two_clients_reachable sys_step.request [OF m] by (rule rtranclp.rtrancl_into_rtrancl)
  from transactions_isolated [OF this s2, of 0] m s2 show ?thesis by (simp add: begin_tm_def)
qed

end
