(* ===== verification/Connection.thy ===== *)
theory Connection
  imports Server_Events
begin

text \<open>
  A connection of a client or a replica (\<^verbatim>\<open>src/src/net/Connection.cpp\<close>): what its completion handler
  does with the bytes of one read. On the network thread it parses the request, follows the
  replication handshake, takes acknowledgements of a replica, and otherwise posts the request to the
  store thread for one of its two command handlers. Server connections always have a replica
  registry.
\<close>

section \<open>Definitions\<close>

datatype connection_mode = ModeUnknown | ModeClient | ModeReplication

datatype handshake_state = NotStarted | Pinged | Replconf1 | Replconf2

text \<open>
  The connection's socket is its number in the server's model. The count of REPLCONF is not bounded
  here; the code's \<^verbatim>\<open>int\<close> has room for \<open>2 ^ 31\<close> requests before the handshake ends.
\<close>

record connection =
  conn_id :: nat
  client_handler :: nat
  replication_handler :: nat
  replica_id :: nat
  registered_as_replica :: bool
  mode :: connection_mode
  repl_state :: handshake_state
  replconf_count :: int

definition new_connection :: "nat \<Rightarrow> nat \<Rightarrow> nat \<Rightarrow> connection" where
  "new_connection conn h h' =
     \<lparr>conn_id = conn, client_handler = h, replication_handler = h', replica_id = 0,
      registered_as_replica = False, mode = ModeUnknown, repl_state = NotStarted, replconf_count = 0\<rparr>"

text \<open>The handshake while the mode is unknown: an error to reply, or the new state.\<close>

definition handshake ::
  "command_type \<Rightarrow> connection \<Rightarrow> replica_registry \<Rightarrow> string + (connection \<times> replica_registry)" where
  "handshake t c r =
     (if mode c \<noteq> ModeUnknown then Inr (c, r)
      else if t = Ping then Inr (c\<lparr>repl_state := Pinged\<rparr>, r)
      else if t = Replconf then
        if repl_state c = NotStarted then Inl (''-ERR replication handshake not started'' @ crlf)
        else
          (let n = replconf_count c + 1
           in Inr (c\<lparr>replconf_count := n, repl_state := (if n \<ge> 2 then Replconf2 else Replconf1)\<rparr>, r))
      else if t = Psync then
        if repl_state c \<noteq> Replconf2 then Inl (''-ERR replication handshake not complete'' @ crlf)
        else if \<not> registered_as_replica c then
          (case add_replica (conn_id c) r of
             (i, r') \<Rightarrow> Inr (c\<lparr>mode := ModeReplication, registered_as_replica := True, replica_id := i\<rparr>, r'))
        else Inr (c\<lparr>mode := ModeReplication\<rparr>, r)
      else Inr (c\<lparr>mode := ModeClient\<rparr>, r))"

definition is_ack :: "connection \<Rightarrow> command \<Rightarrow> bool" where
  "is_ack c cmd \<longleftrightarrow>
     mode c = ModeReplication \<and> ctype cmd = Replconf \<and> cargs cmd \<noteq> [] \<and> lowercase (cargs cmd ! 0) = ''ack''"

definition apply_ack :: "connection \<Rightarrow> command \<Rightarrow> replica_registry \<Rightarrow> replica_registry" where
  "apply_ack c cmd r =
     (if length (cargs cmd) \<ge> 2 then
        (case from_chars_ll (cargs cmd ! 1) of
           Num_ok offset _ \<Rightarrow> record_ack (replica_id c) offset r
         | _ \<Rightarrow> r)
      else r)"

definition choose_handler :: "connection \<Rightarrow> command \<Rightarrow> nat" where
  "choose_handler c cmd =
     (if mode c = ModeReplication \<or> mode c = ModeUnknown \<and> is_replication_command (ctype cmd)
      then replication_handler c else client_handler c)"

text \<open>
  What follows a read: a reply from the network thread, after which the connection reads again; the
  parse error, which is written synchronously; another read; a request for the store thread; or the
  exception that ends the process.
\<close>

datatype read_outcome =
    Write_response string
  | Parse_error
  | Read_again
  | Post nat resp_value
  | Terminate cpp_exn

text \<open>
  The completion handler of \<^verbatim>\<open>do_read\<close>: it takes the whole buffer as one request, whatever it holds
  beyond the first value.
\<close>

definition on_request ::
  "string \<Rightarrow> connection \<Rightarrow> replica_registry \<Rightarrow> read_outcome \<times> connection \<times> replica_registry" where
  "on_request request c r =
     (case parse request of
        Inl e \<Rightarrow> (Terminate e, c, r)
      | Inr None \<Rightarrow> (Parse_error, c, r)
      | Inr (Some (command, _)) \<Rightarrow>
          if rtype command \<noteq> Array \<or> elements command = []
          then (Write_response (''-ERR invalid command format'' @ crlf), c, r)
          else
            (case parse_command command of
               Inl e \<Rightarrow> (Terminate e, c, r)
             | Inr parsed \<Rightarrow>
                (case handshake (ctype parsed) c r of
                   Inl err \<Rightarrow> (Write_response err, c, r)
                 | Inr (c', r') \<Rightarrow>
                     if is_ack c' parsed then (Read_again, c', apply_ack c' parsed r')
                     else (Post (choose_handler c' parsed) command, c', r'))))"

text \<open>The request on the server's state, when nothing comes between the two threads.\<close>

definition serve_request :: "string \<Rightarrow> connection \<Rightarrow> server \<Rightarrow> connection \<times> machine" where
  "serve_request request c s =
     (case on_request request c (replica_reg s) of
        (out, c', r) \<Rightarrow>
          let s' = s\<lparr>replica_reg := r\<rparr>
          in (c',
              case out of
                Write_response t \<Rightarrow> Done (s'\<lparr>posted := posted s' @ [(conn_id c, t)]\<rparr>)
              | Parse_error \<Rightarrow> Done (s'\<lparr>posted := posted s' @ [(conn_id c, ''-ERR parse error'' @ crlf)]\<rparr>)
              | Read_again \<Rightarrow> Done s'
              | Post h command \<Rightarrow> handle h command (K_write (conn_id c)) s'
              | Terminate e \<Rightarrow> Crashed e s'))"

text \<open>The end of the connection: a replica leaves the registry, and the client is no longer counted.\<close>

definition disconnect :: "connection \<Rightarrow> server \<Rightarrow> server" where
  "disconnect c s =
     on_disconnect
       (if registered_as_replica c then s\<lparr>replica_reg := remove_replica (replica_id c) (replica_reg s)\<rparr> else s)"

text \<open>A reply that cannot be written: the connection ends, but a replica stays registered.\<close>

definition write_fails :: "server \<Rightarrow> server" where
  "write_fails s = on_disconnect s"

section \<open>Histories of a connection\<close>

fun on_requests :: "string list \<Rightarrow> connection \<times> replica_registry \<Rightarrow> connection \<times> replica_registry" where
  "on_requests [] cr = cr"
| "on_requests (q # qs) cr = on_requests qs (snd (on_request q (fst cr) (snd cr)))"

text \<open>The type of the command that a read holds, if it holds one.\<close>

definition request_type :: "string \<Rightarrow> command_type option" where
  "request_type request =
     (case parse request of
        Inr (Some (command, _)) \<Rightarrow>
          if rtype command \<noteq> Array then None
          else (case parse_command command of Inr parsed \<Rightarrow> Some (ctype parsed) | Inl _ \<Rightarrow> None)
      | _ \<Rightarrow> None)"

lemma on_requests_snoc: "on_requests (qs @ [q]) cr = snd (on_request q (fst (on_requests qs cr)) (snd (on_requests qs cr)))"
  by (induction qs arbitrary: cr) simp_all

lemma on_request_type:
  obtains (none) "request_type q = None" "snd (on_request q c r) = (c, r)"
  | (refused) t err where "request_type q = Some t" "handshake t c r = Inl err" "snd (on_request q c r) = (c, r)"
  | (accepted) t c' r' where "request_type q = Some t" "handshake t c r = Inr (c', r')" "fst (snd (on_request q c r)) = c'"
      "snd (snd (on_request q c r)) = r' \<or> (\<exists>n. snd (snd (on_request q c r)) = record_ack (replica_id c') n r')"
proof (cases "parse q")
  case (Inl e)
  then show ?thesis by (intro none) (simp_all add: request_type_def on_request_def)
next
  case (Inr m)
  show ?thesis
  proof (cases m)
    case None
    with Inr show ?thesis by (intro none) (simp_all add: request_type_def on_request_def)
  next
    case (Some vn)
    obtain v n where vn: "vn = (v, n)" by (cases vn)
    show ?thesis
    proof (cases "rtype v \<noteq> Array \<or> elements v = []")
      case True
      with Inr Some vn show ?thesis
        by (intro none) (auto simp: request_type_def on_request_def parse_command_def split: list.split)
    next
      case False
      then obtain cmd where cmd: "parse_command v = Inr cmd" by (cases "elements v") (auto simp: parse_command_def)
      show ?thesis
      proof (cases "handshake (ctype cmd) c r")
        case (Inl err)
        with False cmd \<open>parse q = Inr m\<close> Some vn show ?thesis
          by (intro refused) (simp_all add: request_type_def on_request_def)
      next
        case (Inr cr)
        obtain c' r' where cr: "cr = (c', r')" by (cases cr)
        from Inr False cmd \<open>parse q = Inr m\<close> Some vn cr show ?thesis
          by (intro accepted [of "ctype cmd" c' r'])
             (auto simp: request_type_def on_request_def apply_ack_def split: from_chars_result.splits)
      qed
    qed
  qed
qed

text \<open>A history that ends with a complete handshake, and what a connection in the making has seen.\<close>

definition handshake_done :: "command_type option list \<Rightarrow> bool" where
  "handshake_done ts \<longleftrightarrow>
     (\<exists>pre post. ts = pre @ Some Psync # post \<and> set pre \<subseteq> {None, Some Ping, Some Replconf, Some Psync} \<and>
        Some Ping \<in> set pre \<and> 2 \<le> count_list pre (Some Replconf))"

definition handshake_seen :: "command_type option list \<Rightarrow> connection \<Rightarrow> bool" where
  "handshake_seen ts c \<longleftrightarrow>
     set ts \<subseteq> {None, Some Ping, Some Replconf, Some Psync} \<and> (repl_state c \<noteq> NotStarted \<longrightarrow> Some Ping \<in> set ts) \<and>
     replconf_count c \<le> int (count_list ts (Some Replconf)) \<and> (repl_state c = Replconf2 \<longrightarrow> 2 \<le> replconf_count c)"

definition connection_ok :: "command_type option list \<Rightarrow> connection \<Rightarrow> replica_registry \<Rightarrow> bool" where
  "connection_ok ts c r \<longleftrightarrow>
     (mode c = ModeUnknown \<longrightarrow> handshake_seen ts c) \<and> registered_as_replica c = (mode c = ModeReplication) \<and>
     (mode c = ModeReplication \<longrightarrow> handshake_done ts \<and>
        (\<exists>st. um_find (replicas r) (replica_id c) = Some st \<and> write_conn st = conn_id c))"

lemma handshake_done_snoc: "handshake_done ts \<Longrightarrow> handshake_done (ts @ [t])"
proof -
  assume "handshake_done ts"
  then obtain pre post where "ts = pre @ Some Psync # post" and
      pre: "set pre \<subseteq> {None, Some Ping, Some Replconf, Some Psync}" "Some Ping \<in> set pre" "2 \<le> count_list pre (Some Replconf)"
    unfolding handshake_done_def by blast
  then have "ts @ [t] = pre @ Some Psync # (post @ [t])" by simp
  with pre show ?thesis unfolding handshake_done_def by blast
qed

lemma connection_ok_skip:
  assumes "connection_ok ts c r" "t \<in> {None, Some Replconf, Some Psync}"
  shows "connection_ok (ts @ [t]) c r"
  using assms handshake_done_snoc [of ts t] by (auto simp: connection_ok_def handshake_seen_def)

lemma handshake_ok:
  assumes "connection_ok ts c r" "handshake t c r = Inr (c', r')"
  shows "connection_ok (ts @ [Some t]) c' r'"
proof (cases "mode c = ModeUnknown")
  case False
  with assms handshake_done_snoc [of ts "Some t"] show ?thesis by (auto simp: handshake_def connection_ok_def)
next
  case True
  with assms(1) have seen: "handshake_seen ts c" "\<not> registered_as_replica c" by (auto simp: connection_ok_def)
  show ?thesis
  proof (cases "t = Psync")
    case True
    with seen assms(2) \<open>mode c = ModeUnknown\<close> have "handshake_done (ts @ [Some t])"
      by (auto simp: handshake_def handshake_seen_def handshake_done_def split: if_splits)
    with True seen assms(2) \<open>mode c = ModeUnknown\<close> show ?thesis
      by (auto simp: handshake_def connection_ok_def add_replica_def Let_def split: if_splits)
  next
    case False
    with seen assms(2) True show ?thesis
      by (auto simp: handshake_def connection_ok_def handshake_seen_def Let_def split: if_splits)
  qed
qed

lemma connection_ok_ack:
  "connection_ok ts c r \<Longrightarrow> connection_ok ts c (record_ack (replica_id c) n r)"
  by (auto simp: connection_ok_def record_ack_def split: option.split)

lemma on_requests_ok:
  "connection_ok (map request_type qs) (fst (on_requests qs (new_connection conn h h', r)))
     (snd (on_requests qs (new_connection conn h h', r)))"
proof (induction qs rule: rev_induct)
  case Nil
  show ?case by (simp add: connection_ok_def handshake_seen_def new_connection_def)
next
  case (snoc q qs)
  define c0 r0 where "c0 = fst (on_requests qs (new_connection conn h h', r))"
    and "r0 = snd (on_requests qs (new_connection conn h h', r))"
  have ok: "connection_ok (map request_type qs) c0 r0" using snoc by (simp add: c0_def r0_def)
  have "connection_ok (map request_type qs @ [request_type q]) (fst (snd (on_request q c0 r0))) (snd (snd (on_request q c0 r0)))"
  proof (cases rule: on_request_type [of q c0 r0])
    case none
    with connection_ok_skip [OF ok, of None] show ?thesis by simp
  next
    case (refused t err)
    then have "t = Replconf \<or> t = Psync" by (auto simp: handshake_def Let_def split: if_splits)
    with refused connection_ok_skip [OF ok, of "Some t"] show ?thesis by auto
  next
    case (accepted t c' r')
    with handshake_ok [OF ok accepted(2)] connection_ok_ack show ?thesis by auto
  qed
  then show ?case by (simp add: on_requests_snoc c0_def r0_def)
qed

lemma on_request_enc:
  assumes "wf_resp v" "rtype v = Array" "parse_command v = Inr cmd"
  shows "on_request (serialize v) c r =
    (case handshake (ctype cmd) c r of
       Inl err \<Rightarrow> (Write_response err, c, r)
     | Inr (c', r') \<Rightarrow>
         if is_ack c' cmd then (Read_again, c', apply_ack c' cmd r')
         else (Post (choose_handler c' cmd) v, c', r'))"
proof -
  have "elements v \<noteq> []" using assms(3) by (auto simp: parse_command_def)
  then show ?thesis using resp.dec_enc [OF assms(1), of "[]"] assms(2,3) by (simp add: on_request_def)
qed

section \<open>Properties\<close>

text \<open>
  C21. A connection is treated as a replica only after a complete handshake: before the PSYNC that
  made it one it sent PING and at least two REPLCONF and nothing but handshake commands, and from
  then on the registry holds exactly its socket under its ID. A connection that has sent any other
  command first never becomes a replica.
\<close>

theorem replica_needs_handshake:
  assumes "on_requests qs (new_connection conn h h', r) = (c, r')" "mode c = ModeReplication"
  shows "\<exists>pre q post. qs = pre @ q # post \<and> request_type q = Some Psync \<and>
    set (map request_type pre) \<subseteq> {None, Some Ping, Some Replconf, Some Psync} \<and>
    Some Ping \<in> set (map request_type pre) \<and> 2 \<le> count_list (map request_type pre) (Some Replconf) \<and>
    (\<exists>st. um_find (replicas r') (replica_id c) = Some st \<and> write_conn st = conn_id c)"
proof -
  have "connection_ok (map request_type qs) c r'" using on_requests_ok [of qs conn h h' r] assms(1) by simp
  then obtain pre post where "map request_type qs = pre @ Some Psync # post"
      "set pre \<subseteq> {None, Some Ping, Some Replconf, Some Psync}" "Some Ping \<in> set pre" "2 \<le> count_list pre (Some Replconf)"
      "\<exists>st. um_find (replicas r') (replica_id c) = Some st \<and> write_conn st = conn_id c"
    using assms(2) by (auto simp: connection_ok_def handshake_done_def)
  moreover from calculation(1) obtain us z zs where "qs = us @ z # zs" "map request_type us = pre" "request_type z = Some Psync"
    by (auto simp: map_eq_append_conv map_eq_Cons_conv)
  ultimately show ?thesis by (intro exI [of _ us] exI [of _ z] exI [of _ zs]) simp
qed

theorem replica_needs_handshake_witness:
  "\<exists>c r'. on_requests (map (\<lambda>args. serialize (RespValue Array [] (map Bulk args)))
      [[''PING''], [''REPLCONF'', ''a'', ''b''], [''REPLCONF'', ''c'', ''d''], [''PSYNC'', ''?'', ''-1'']])
      (new_connection 5 0 1, empty_replicas) = (c, r') \<and>
    (\<exists>st. um_find (replicas r') (replica_id c) = Some st \<and> write_conn st = conn_id c)"
proof -
  let ?q = "\<lambda>args. serialize (RespValue Array [] (map Bulk args))"
  let ?qs = "map ?q [[''PING''], [''REPLCONF'', ''a'', ''b''], [''REPLCONF'', ''c'', ''d''], [''PSYNC'', ''?'', ''-1'']]"
  have types: "parse_type ''PING'' = Ping" "parse_type ''REPLCONF'' = Replconf" "parse_type ''PSYNC'' = Psync"
    by code_simp+
  obtain c r' where run: "on_requests ?qs (new_connection 5 0 1, empty_replicas) = (c, r')" by force
  have "mode c = ModeReplication"
    using run by (auto simp: on_request_enc parse_command_def types handshake_def is_ack_def new_connection_def add_replica_def Let_def
        simp del: serialize.simps)
  from replica_needs_handshake [OF run this] run show ?thesis by blast
qed



end
