(* ===== verification/Replication_Session.thy ===== *)
theory Replication_Session
  imports Command
begin

text \<open>
  The replica's side of replication (\<^verbatim>\<open>src/src/replication/ReplicationSession.cpp\<close>): the handshake with
  the master, the transfer of the snapshot, and the loop over the propagated commands. The session
  is a machine over the bytes that arrive: the phase says which read is pending, and a step takes
  from the buffer what that read waits for. Writes to the master are taken to succeed; a failed one
  ends the session.
\<close>

section \<open>Definitions\<close>

definition kAckInterval :: int where
  "kAckInterval = 1000000000"

definition is_getack :: "resp_value \<Rightarrow> bool" where
  "is_getack command \<longleftrightarrow>
     rtype command = Array \<and> length (elements command) \<ge> 2 \<and>
     lowercase (rstr (elements command ! 0)) = ''replconf'' \<and> lowercase (rstr (elements command ! 1)) = ''getack''"

text \<open>The reads of a session: four replies, the header and the body of the snapshot, commands.\<close>

datatype phase =
    Ping_sent
  | Port_sent
  | Capa_sent
  | Psync_sent
  | Rdb_header
  | Rdb_body nat
  | Command_loop
  | Stopped

text \<open>
  \<open>sent\<close> are the messages written to the master, \<open>commands\<close> the commands posted to the store thread,
  \<open>ack_timer\<close> the pending expiry of the acknowledgement timer.
\<close>

record session =
  phase :: phase
  buf :: string
  replica_offset :: "64 word"
  listening_port :: "16 word"
  ack_timer :: "int option"
  sent :: "string list"
  commands :: "resp_value list"

definition encode_array :: "string list \<Rightarrow> string" where
  "encode_array parts = serialize (RespValue Array [] (map Bulk parts))"

definition send_array :: "string list \<Rightarrow> session \<Rightarrow> session" where
  "send_array parts s = s\<lparr>sent := sent s @ [encode_array parts]\<rparr>"

definition send_ping :: "session \<Rightarrow> session" where
  "send_ping s = (send_array [''PING''] s)\<lparr>phase := Ping_sent\<rparr>"

definition send_replconf_listening_port :: "session \<Rightarrow> session" where
  "send_replconf_listening_port s =
     (send_array [''REPLCONF'', ''listening-port'', nat_str (unat (listening_port s))] s)\<lparr>phase := Port_sent\<rparr>"

definition send_replconf_capa :: "session \<Rightarrow> session" where
  "send_replconf_capa s = (send_array [''REPLCONF'', ''capa'', ''psync2''] s)\<lparr>phase := Capa_sent\<rparr>"

definition send_psync :: "session \<Rightarrow> session" where
  "send_psync s = (send_array [''PSYNC'', ''?'', ''-1''] s)\<lparr>phase := Psync_sent\<rparr>"

definition new_session :: "16 word \<Rightarrow> session" where
  "new_session port =
     \<lparr>phase = Stopped, buf = [], replica_offset = 0, listening_port = port, ack_timer = None, sent = [], commands = []\<rparr>"

definition start_session :: "16 word \<Rightarrow> session" where
  "start_session port = send_ping (new_session port)"

text \<open>The text after the last space; \<^const>\<open>None\<close> when there is none.\<close>

definition after_last_space :: "string \<Rightarrow> string option" where
  "after_last_space s =
     (if CHR '' '' \<in> set s then Some (rev (takeWhile (\<lambda>c. c \<noteq> CHR '' '') (rev s))) else None)"

definition parse_fullresync_offset :: "string \<Rightarrow> session \<Rightarrow> session" where
  "parse_fullresync_offset reply s =
     (case after_last_space reply of
        None \<Rightarrow> s
      | Some offset_part \<Rightarrow>
         (case from_chars_size offset_part of
            Num_ok offset _ \<Rightarrow> s\<lparr>replica_offset := of_nat offset\<rparr>
          | _ \<Rightarrow> s))"

text \<open>\<^verbatim>\<open>schedule_ack\<close> arms the timer; \<^verbatim>\<open>send_ack\<close> writes the offset and arms it again.\<close>

definition schedule_ack :: "session \<Rightarrow> session" where
  "schedule_ack s = s\<lparr>ack_timer := Some kAckInterval\<rparr>"

definition send_ack :: "session \<Rightarrow> session" where
  "send_ack s = schedule_ack (send_array [''REPLCONF'', ''ACK'', nat_str (unat (replica_offset s))] s)"

definition start_command_loop :: "session \<Rightarrow> session" where
  "start_command_loop s = schedule_ack (s\<lparr>phase := Command_loop\<rparr>)"

text \<open>
  A read that waits for a line takes the bytes up to and including CR LF. \<^const>\<open>None\<close> is a read that
  waits for more bytes.
\<close>

definition read_reply :: "(resp_value \<Rightarrow> session \<Rightarrow> session) \<Rightarrow> session \<Rightarrow> cpp_exn + session option" where
  "read_reply on_reply s =
     (case find_crlf (buf s) of
        None \<Rightarrow> Inr None
      | Some e \<Rightarrow>
         (let response = take (e + 2) (buf s); s' = s\<lparr>buf := drop (e + 2) (buf s)\<rparr>
          in case parse response of
               Inl ex \<Rightarrow> Inl ex
             | Inr None \<Rightarrow> Inr (Some (s'\<lparr>phase := Stopped\<rparr>))
             | Inr (Some (v, _)) \<Rightarrow> Inr (Some (on_reply v s'))))"

definition on_psync_reply :: "resp_value \<Rightarrow> session \<Rightarrow> session" where
  "on_psync_reply reply s =
     (if rtype reply = SimpleString then parse_fullresync_offset (rstr reply) s else s)\<lparr>phase := Rdb_header\<rparr>"

definition receive_rdb :: "session \<Rightarrow> session option" where
  "receive_rdb s =
     (case find_crlf (buf s) of
        None \<Rightarrow> None
      | Some e \<Rightarrow>
         (let line = take (e + 2) (buf s); s' = s\<lparr>buf := drop (e + 2) (buf s)\<rparr>
          in case line of
               c # num \<Rightarrow>
                 if c \<noteq> CHR ''$'' then Some (s'\<lparr>phase := Stopped\<rparr>)
                 else
                   (case from_chars_size (take (length line - 3) num) of
                      Num_ok sz _ \<Rightarrow> Some (s'\<lparr>phase := Rdb_body sz\<rparr>)
                    | _ \<Rightarrow> Some (s'\<lparr>phase := Stopped\<rparr>))
             | [] \<Rightarrow> Some (s'\<lparr>phase := Stopped\<rparr>)))"

definition receive_rdb_body :: "nat \<Rightarrow> session \<Rightarrow> session option" where
  "receive_rdb_body sz s =
     (if length (buf s) \<ge> sz then Some (start_command_loop (s\<lparr>buf := drop sz (buf s)\<rparr>)) else None)"

definition try_process_one_buffered_command :: "session \<Rightarrow> cpp_exn + session option" where
  "try_process_one_buffered_command s =
     (if buf s = [] then Inr None
      else
        (case parse (buf s) of
           Inl e \<Rightarrow> Inl e
         | Inr None \<Rightarrow> Inr None
         | Inr (Some (command, consumed)) \<Rightarrow>
             (let s' = s\<lparr>buf := drop consumed (buf s), replica_offset := replica_offset s + of_nat consumed\<rparr>
              in if is_getack command then Inr (Some (send_ack s'))
                 else Inr (Some (s'\<lparr>commands := commands s' @ [command]\<rparr>)))))"

text \<open>The completion of the pending read with what the buffer holds.\<close>

definition advance :: "session \<Rightarrow> cpp_exn + session option" where
  "advance s =
     (case phase s of
        Ping_sent \<Rightarrow> read_reply (\<lambda>_. send_replconf_listening_port) s
      | Port_sent \<Rightarrow> read_reply (\<lambda>_. send_replconf_capa) s
      | Capa_sent \<Rightarrow> read_reply (\<lambda>_. send_psync) s
      | Psync_sent \<Rightarrow> read_reply on_psync_reply s
      | Rdb_header \<Rightarrow> Inr (receive_rdb s)
      | Rdb_body sz \<Rightarrow> Inr (receive_rdb_body sz s)
      | Command_loop \<Rightarrow> try_process_one_buffered_command s
      | Stopped \<Rightarrow> Inr None)"

primrec phase_rank :: "phase \<Rightarrow> nat" where
  "phase_rank Ping_sent = 7"
| "phase_rank Port_sent = 6"
| "phase_rank Capa_sent = 5"
| "phase_rank Psync_sent = 4"
| "phase_rank Rdb_header = 3"
| "phase_rank (Rdb_body sz) = 2"
| "phase_rank Command_loop = 1"
| "phase_rank Stopped = 0"

lemma session_fields [simp]:
  "buf (send_array parts s) = buf s" "phase (send_array parts s) = phase s" "commands (send_array parts s) = commands s"
  "replica_offset (send_array parts s) = replica_offset s"
  "buf (schedule_ack s) = buf s" "phase (schedule_ack s) = phase s" "commands (schedule_ack s) = commands s"
  "replica_offset (schedule_ack s) = replica_offset s" "sent (schedule_ack s) = sent s"
  "buf (send_ack s) = buf s" "phase (send_ack s) = phase s" "commands (send_ack s) = commands s"
  "replica_offset (send_ack s) = replica_offset s"
  "phase (parse_fullresync_offset reply s) = phase s" "buf (parse_fullresync_offset reply s) = buf s"
  by (simp_all add: send_array_def schedule_ack_def send_ack_def parse_fullresync_offset_def
      split: option.split from_chars_result.split)

lemma phase_sends [simp]:
  "phase (send_replconf_listening_port s) = Port_sent" "phase (send_replconf_capa s) = Capa_sent"
  "phase (send_psync s) = Psync_sent" "phase (on_psync_reply v s) = Rdb_header"
  "phase (start_command_loop s) = Command_loop" "buf (start_command_loop s) = buf s"
  by (simp_all add: send_replconf_listening_port_def send_replconf_capa_def send_psync_def on_psync_reply_def
      start_command_loop_def)

lemma read_reply_rank:
  assumes "read_reply f s = Inr (Some s')" "\<And>v s. phase_rank (phase (f v s)) < phase_rank (phase s0)" "0 < phase_rank (phase s0)"
  shows "phase_rank (phase s') < phase_rank (phase s0)"
  using assms by (auto simp: read_reply_def Let_def split: option.splits sum.splits)

lemma advance_decreases:
  assumes "advance s = Inr (Some s')"
  shows "phase_rank (phase s') < phase_rank (phase s) \<or>
    phase_rank (phase s') = phase_rank (phase s) \<and> length (buf s') < length (buf s)"
proof (cases "phase s")
  case Command_loop
  with assms resp.dec_takes [of "buf s"] show ?thesis
    by (auto simp: advance_def try_process_one_buffered_command_def Let_def split: if_splits option.splits sum.splits)
qed (use assms in \<open>auto simp: advance_def receive_rdb_def receive_rdb_body_def Let_def
      dest!: read_reply_rank [where ?s0.0 = s] split: option.splits sum.splits list.splits if_splits from_chars_result.splits\<close>)

text \<open>Everything that the buffered bytes allow, until a read waits for more.\<close>

function drain :: "session \<Rightarrow> cpp_exn + session" where
  "drain s =
     (case advance s of
        Inl e \<Rightarrow> Inl e
      | Inr None \<Rightarrow> Inr s
      | Inr (Some s') \<Rightarrow> drain s')"
  by pat_completeness auto

termination
  by (relation "measures [phase_rank \<circ> phase, length \<circ> buf]") (use advance_decreases in auto)

declare drain.simps [simp del]

text \<open>The arrival of bytes from the master, all at once or in pieces.\<close>

definition feed :: "string \<Rightarrow> session \<Rightarrow> cpp_exn + session" where
  "feed bytes s = drain (s\<lparr>buf := buf s @ bytes\<rparr>)"

fun feed_all :: "string list \<Rightarrow> session \<Rightarrow> cpp_exn + session" where
  "feed_all [] s = Inr s"
| "feed_all (chunk # chunks) s = (case feed chunk s of Inl e \<Rightarrow> Inl e | Inr s' \<Rightarrow> feed_all chunks s')"

text \<open>The expiry of the acknowledgement timer.\<close>

definition on_ack_timer :: "session \<Rightarrow> session" where
  "on_ack_timer s = (if ack_timer s = None then s else send_ack (s\<lparr>ack_timer := None\<rparr>))"

section \<open>Pieces\<close>

definition keeps_buf :: "(session \<Rightarrow> session) \<Rightarrow> bool" where
  "keeps_buf f \<longleftrightarrow> (\<forall>s b. buf (f s) = buf s \<and> f (s\<lparr>buf := b\<rparr>) = (f s)\<lparr>buf := b\<rparr>)"

lemma keeps_buf_sends:
  "keeps_buf send_replconf_listening_port" "keeps_buf send_replconf_capa" "keeps_buf send_psync"
  "keeps_buf (on_psync_reply v)" "keeps_buf start_command_loop"
  by (auto simp: keeps_buf_def send_replconf_listening_port_def send_replconf_capa_def send_psync_def on_psync_reply_def
      start_command_loop_def send_array_def schedule_ack_def parse_fullresync_offset_def
      split: option.split from_chars_result.split)

text \<open>More bytes at the end of the buffer do not change what a step does.\<close>

primrec with_more :: "string \<Rightarrow> cpp_exn + session option \<Rightarrow> cpp_exn + session option" where
  "with_more t (Inl e) = Inl e"
| "with_more t (Inr m) = Inr (map_option (\<lambda>s. s\<lparr>buf := buf s @ t\<rparr>) m)"

lemma read_reply_extend:
  assumes "read_reply f s \<noteq> Inr None" "\<And>v. keeps_buf (f v)"
  shows "read_reply f (s\<lparr>buf := buf s @ t\<rparr>) = with_more t (read_reply f s)"
proof -
  obtain e where e: "find_crlf (buf s) = Some e" using assms(1) by (auto simp: read_reply_def split: option.splits)
  have "f v (s\<lparr>buf := b\<rparr>) = (f v s)\<lparr>buf := b\<rparr>" "buf (f v s) = buf s" for v s b
    using assms(2) by (simp_all add: keeps_buf_def)
  then show ?thesis
    using find_crlf_Some_append [OF e, of t] find_crlf_bound [OF e]
    by (auto simp: read_reply_def e Let_def split: sum.splits option.splits)
qed

lemma receive_rdb_extend:
  assumes "receive_rdb s \<noteq> None"
  shows "receive_rdb (s\<lparr>buf := buf s @ t\<rparr>) = map_option (\<lambda>s. s\<lparr>buf := buf s @ t\<rparr>) (receive_rdb s)"
proof -
  obtain e where e: "find_crlf (buf s) = Some e" using assms by (auto simp: receive_rdb_def split: option.splits)
  show ?thesis
    using find_crlf_Some_append [OF e, of t] find_crlf_bound [OF e]
    by (auto simp: receive_rdb_def e Let_def split: list.splits if_splits from_chars_result.splits)
qed

lemma try_process_extend:
  assumes "try_process_one_buffered_command s \<noteq> Inr None"
  shows "try_process_one_buffered_command (s\<lparr>buf := buf s @ t\<rparr>) = with_more t (try_process_one_buffered_command s)"
proof -
  have ne: "buf s \<noteq> []" "parse (buf s) \<noteq> Inr None"
    using assms by (auto simp: try_process_one_buffered_command_def split: if_splits)
  show ?thesis
    using ne(1) resp.dec_grow [OF ne(2), of t] resp.dec_takes [of "buf s"]
    by (auto simp: try_process_one_buffered_command_def send_ack_def send_array_def schedule_ack_def Let_def
        split: sum.split option.split)
qed

lemma advance_extend:
  assumes "advance s \<noteq> Inr None"
  shows "advance (s\<lparr>buf := buf s @ t\<rparr>) = with_more t (advance s)"
proof (cases "phase s")
  case (Rdb_body n)
  have "start_command_loop (s\<lparr>buf := b\<rparr>) = (start_command_loop s)\<lparr>buf := b\<rparr>" for s b
    using keeps_buf_sends(5) by (simp add: keeps_buf_def)
  with Rdb_body assms show ?thesis by (auto simp: advance_def receive_rdb_body_def split: if_splits)
qed (use assms keeps_buf_sends read_reply_extend receive_rdb_extend try_process_extend in \<open>simp_all add: advance_def\<close>)

lemma drain_extend:
  "drain (s\<lparr>buf := buf s @ t\<rparr>) =
     (case drain s of Inl e \<Rightarrow> Inl e | Inr s' \<Rightarrow> drain (s'\<lparr>buf := buf s' @ t\<rparr>))"
proof (induction s rule: drain.induct)
  case (1 s)
  show ?case
  proof (cases "advance s = Inr None")
    case True
    then show ?thesis by (simp add: drain.simps [of s])
  next
    case False
    note x = advance_extend [OF False, of t]
    show ?thesis
    proof (cases "advance s")
      case (Inl e)
      with x show ?thesis by (simp add: drain.simps [of s] drain.simps [of "s\<lparr>buf := buf s @ t\<rparr>"])
    next
      case (Inr m)
      then obtain s1 where s1: "advance s = Inr (Some s1)" using False by (cases m) auto
      with x "1.IH" [OF s1 refl] show ?thesis
        by (simp add: drain.simps [of s] drain.simps [of "s\<lparr>buf := buf s @ t\<rparr>"])
    qed
  qed
qed

lemma feed_append: "feed (a @ b) s = (case feed a s of Inl e \<Rightarrow> Inl e | Inr s' \<Rightarrow> feed b s')"
  using drain_extend [of "s\<lparr>buf := buf s @ a\<rparr>" b] by (simp add: feed_def split: sum.split)

lemma feed_all_concat: "chunks \<noteq> [] \<Longrightarrow> feed_all chunks s = feed (concat chunks) s"
proof (induction chunks arbitrary: s)
  case (Cons chunk chunks)
  then show ?case by (cases "chunks = []") (simp_all add: feed_append split: sum.split)
qed simp

section \<open>The handshake\<close>

lemma buf_same: "buf s = b \<Longrightarrow> s\<lparr>buf := b\<rparr> = s"
  by (cases s) simp

lemma drain_idle:
  "buf s = [] \<Longrightarrow> phase s \<in> {Ping_sent, Port_sent, Capa_sent, Psync_sent, Rdb_header, Command_loop, Stopped} \<Longrightarrow> drain s = Inr s"
  by (subst drain.simps)
     (auto simp: advance_def read_reply_def receive_rdb_def try_process_one_buffered_command_def)

lemma feed_simple:
  assumes "buf s = []" "find_crlf t = None" "\<And>b. advance (s\<lparr>buf := b\<rparr>) = read_reply f (s\<lparr>buf := b\<rparr>)"
    and "\<And>v. keeps_buf (f v)"
  shows "feed (CHR ''+'' # t @ crlf) s = drain (f (RespValue SimpleString t []) s)"
proof -
  let ?v = "RespValue SimpleString t []" and ?b = "CHR ''+'' # t @ crlf"
  have "find_crlf (CHR ''+'' # t) = None" using assms(2) by (cases t) simp_all
  then have c: "find_crlf ?b = Some (Suc (length t))" using find_crlf_append [of "CHR ''+'' # t" "[]"] by simp
  have p: "parse ?b = Inr (Some (?v, length ?b))" using resp.dec_enc [of ?v "[]"] assms(2) by simp
  have "f ?v (s\<lparr>buf := []\<rparr>) = f ?v s" using assms(1) by (simp add: buf_same)
  then have "advance (s\<lparr>buf := ?b\<rparr>) = Inr (Some (f ?v s))"
    using assms(3) c p by (simp add: read_reply_def)
  then show ?thesis using assms(1) by (simp add: feed_def drain.simps [of "s\<lparr>buf := ?b\<rparr>"])
qed

lemma feed_snapshot:
  assumes "buf s = []" "phase s = Rdb_header" "length body < 2 ^ 64"
  shows "feed (CHR ''$'' # nat_str (length body) @ crlf @ body) s = Inr (start_command_loop s)"
proof -
  let ?h = "CHR ''$'' # nat_str (length body) @ crlf"
  let ?s0 = "s\<lparr>buf := ?h @ body\<rparr>" and ?s1 = "s\<lparr>buf := body, phase := Rdb_body (length body)\<rparr>"
  have "find_crlf (CHR ''$'' # nat_str (length body)) = None" by (cases "nat_str (length body)") (use nat_str_no_crlf [of "length body"] in auto)
  then have "find_crlf (?h @ body) = Some (Suc (length (nat_str (length body))))"
    using find_crlf_append [of "CHR ''$'' # nat_str (length body)" body] by simp
  moreover have "from_chars_size (nat_str (length body)) = Num_ok (length body) []"
    using from_chars_size_nat_str [OF assms(3), of "[]"] by simp
  ultimately have "advance ?s0 = Inr (Some ?s1)" using assms(2) by (simp add: advance_def receive_rdb_def)
  moreover have "advance ?s1 = Inr (Some (start_command_loop (?s1\<lparr>buf := []\<rparr>)))"
    by (simp add: advance_def receive_rdb_body_def)
  moreover have "start_command_loop (?s1\<lparr>buf := []\<rparr>) = start_command_loop s"
    using buf_same [OF assms(1)] by (simp add: start_command_loop_def)
  moreover have "drain (start_command_loop s) = Inr (start_command_loop s)" using assms(1) by (intro drain_idle) simp_all
  ultimately have "drain ?s0 = Inr (start_command_loop s)"
    by (simp only: drain.simps [of ?s0] drain.simps [of ?s1] sum.case option.case)
  then show ?thesis using assms(1) by (simp add: feed_def)
qed

section \<open>The command loop\<close>

text \<open>What the loop does with a command that takes \<open>n\<close> bytes of the stream.\<close>

definition take_command :: "session \<Rightarrow> resp_value \<times> nat \<Rightarrow> session" where
  "take_command s vn =
     (case vn of (v, n) \<Rightarrow>
        let s' = s\<lparr>replica_offset := replica_offset s + of_nat n\<rparr>
        in if is_getack v then send_ack s' else s'\<lparr>commands := commands s' @ [v]\<rparr>)"

lemma take_command_fields [simp]:
  "phase (take_command s vn) = phase s" "buf (take_command s vn) = buf s"
  "replica_offset (take_command s vn) = replica_offset s + of_nat (snd vn)"
  "commands (take_command s vn) = commands s @ filter (\<lambda>v. \<not> is_getack v) [fst vn]"
  by (simp_all add: take_command_def Let_def split: prod.split)

lemma take_command_buf: "take_command (s\<lparr>buf := b\<rparr>) vn = (take_command s vn)\<lparr>buf := b\<rparr>"
  by (simp add: take_command_def send_ack_def send_array_def schedule_ack_def Let_def split: prod.split)

lemma foldl_take_buf:
  "(foldl take_command (s\<lparr>buf := b\<rparr>) vs)\<lparr>buf := p\<rparr> = (foldl take_command s vs)\<lparr>buf := p\<rparr>"
  by (induction vs arbitrary: s) (simp_all add: take_command_buf)

text \<open>The loop refines the specification of messages on a byte stream.\<close>

lemma drain_commands:
  assumes "phase s = Command_loop" "frames parse (buf s) = (vs, rest, None)"
  shows "drain s = Inr ((foldl take_command s vs)\<lparr>buf := rest\<rparr>)"
  using assms
proof (induction "length (buf s)" arbitrary: s vs rule: less_induct)
  case less
  have "parse (buf s) \<noteq> Inl e" for e using less.prems(2) by (auto simp: frames.simps [of _ "buf s"])
  then consider (stop) "parse (buf s) = Inr None" | (msg) v n where "parse (buf s) = Inr (Some (v, n))"
    by (cases "parse (buf s)") (auto, metis not_Some_eq surj_pair)
  then show ?case
  proof cases
    case stop
    then have "advance s = Inr None" using less.prems(1) by (simp add: advance_def try_process_one_buffered_command_def)
    with stop less.prems(2) resp.frames_stop [OF stop] show ?thesis by (simp add: drain.simps [of s])
  next
    case (msg v n)
    note takes = resp.dec_takes [OF msg]
    obtain vs' where vs: "frames parse (drop n (buf s)) = (vs', rest, None)" "vs = (v, n) # vs'"
      using less.prems(2) resp.frames_step [OF msg] by (auto split: prod.splits)
    let ?s1 = "take_command (s\<lparr>buf := drop n (buf s)\<rparr>) (v, n)"
    have "advance s = Inr (Some ?s1)"
      using less.prems(1) msg takes
      by (auto simp: advance_def try_process_one_buffered_command_def take_command_def Let_def)
    then have "drain s = drain ?s1" by (simp add: drain.simps [of s])
    also have "\<dots> = Inr ((foldl take_command ?s1 vs')\<lparr>buf := rest\<rparr>)"
      using less.hyps [of ?s1 vs'] less.prems(1) vs(1) takes by auto
    also have "\<dots> = Inr ((foldl take_command s vs)\<lparr>buf := rest\<rparr>)"
      using foldl_take_buf [where s = s and b = "drop n (buf s)" and vs = vs and p = rest] by (simp add: vs(2))
    finally show ?thesis .
  qed
qed

lemma foldl_take_command:
  "replica_offset (foldl take_command s vs) = replica_offset s + of_nat (sum_list (map snd vs)) \<and>
   commands (foldl take_command s vs) = commands s @ filter (\<lambda>v. \<not> is_getack v) (map fst vs) \<and>
   phase (foldl take_command s vs) = phase s"
  by (induction vs arbitrary: s) (simp_all add: add.assoc)

text \<open>A stream of encoded commands, with a part of the next one at its end.\<close>

lemma feed_commands:
  assumes "phase s = Command_loop" "buf s = []" "list_all wf_resp qs" "p = [] \<or> wf_resp q \<and> strict_prefix p (serialize q)"
  shows "feed (concat (map serialize qs) @ p) s =
    Inr ((foldl take_command s (map (\<lambda>v. (v, length (serialize v))) qs))\<lparr>buf := p\<rparr>)"
proof -
  let ?s = "s\<lparr>buf := concat (map serialize qs) @ p\<rparr>" and ?vs = "map (\<lambda>v. (v, length (serialize v))) qs"
  have "frames parse (buf ?s) = (?vs, p, None)" using resp.frames_cut [OF assms(3,4)] by simp
  then have "drain ?s = Inr ((foldl take_command ?s ?vs)\<lparr>buf := p\<rparr>)" using assms(1) by (intro drain_commands) simp_all
  then show ?thesis using assms(2) by (simp add: feed_def foldl_take_buf)
qed

lemma feed_commands_fields:
  assumes "phase s = Command_loop" "buf s = []" "list_all wf_resp qs"
  obtains s' where "feed (concat (map serialize qs)) s = Inr s'" "phase s' = Command_loop" "buf s' = []"
    "replica_offset s' = replica_offset s + of_nat (length (concat (map serialize qs)))"
    "commands s' = commands s @ filter (\<lambda>v. \<not> is_getack v) qs"
  using feed_commands [OF assms, of "[]"] foldl_take_command [of s "map (\<lambda>v. (v, length (serialize v))) qs"] assms(1)
  by (auto simp: length_concat comp_def)

section \<open>The properties of a session\<close>

text \<open>
  A replica does the same with the bytes of its master however TCP cuts them into pieces, in
  every phase of the session and up to the same exception if there is one.
\<close>

theorem feed_pieces:
  assumes "chunks \<noteq> []"
  shows "feed_all chunks s = feed (concat chunks) s"
  using assms by (rule feed_all_concat)

theorem feed_pieces_witness:
  "feed_all [''+PO'', ''NG'' @ [CR], [LF]] (start_session 7) = feed (''+PONG'' @ crlf) (start_session 7)"
  using feed_pieces [of "[''+PO'', ''NG'' @ [CR], [LF]]"] by simp

end
