(* ===== verification/Startup.thy ===== *)
theory Startup
  imports Replication_Session "HOL-Library.Sublist"
begin

text \<open>
  The start of the program (\<^verbatim>\<open>src/src/main.cpp\<close>): the port from the environment and the arguments, the
  configuration as a master or a replica, and the master's address that the replication manager
  (\<^verbatim>\<open>src/src/replication/ReplicationManager.cpp\<close>) reads back from it. The random numbers of the replication
  IDs are the parameter \<open>draw\<close>, a function from the number of the draw.
\<close>

section \<open>Configurations\<close>

definition replid_chars :: string where
  "replid_chars = ''0123456789abcdefghijklmnopqrstuvwxyzABCDEFGHIJKLMNOPQRSTUVWXYZ''"

definition id_length :: nat where
  "id_length = 40"

text \<open>The replication ID from the draws that start at a number.\<close>

definition generate_replid :: "(nat \<Rightarrow> nat) \<Rightarrow> nat \<Rightarrow> string" where
  "generate_replid draw n = map (\<lambda>i. replid_chars ! draw i) [n..<n + id_length]"

definition master_config :: "(nat \<Rightarrow> nat) \<Rightarrow> nat \<Rightarrow> server_config" where
  "master_config draw n =
     \<lparr>is_replica = False, replicaof = None, master_replid = generate_replid draw n, master_repl_offset = 0\<rparr>"

definition replica_config :: "(nat \<Rightarrow> nat) \<Rightarrow> nat \<Rightarrow> string \<Rightarrow> server_config" where
  "replica_config draw n master_addr = (master_config draw n)\<lparr>is_replica := True, replicaof := Some master_addr\<rparr>"

section \<open>Arguments\<close>

text \<open>The settings of \<^verbatim>\<open>main\<close>, the draws so far, and the messages on the error stream.\<close>

record settings =
  s_port :: int
  s_config :: server_config
  s_draws :: nat
  s_errors :: "string list"

definition default_port :: int where
  "default_port = 6379"

definition env_port :: "string list \<Rightarrow> int \<Rightarrow> int" where
  "env_port envp port =
     (case List.find (prefix ''REDIS_PORT='') envp of
        None \<Rightarrow> port
      | Some env_entry \<Rightarrow>
         (case from_chars_int (drop 11 env_entry) of Num_ok v _ \<Rightarrow> v | _ \<Rightarrow> port))"

definition port_arg :: "string \<Rightarrow> settings \<Rightarrow> settings" where
  "port_arg port_str s =
     (case from_chars_int port_str of
        Num_ok v _ \<Rightarrow> s\<lparr>s_port := v\<rparr>
      | _ \<Rightarrow> s\<lparr>s_errors := s_errors s @ [''Invalid port argument: '' @ [CHR 0x27] @ port_str @ [CHR 0x27, LF]]\<rparr>)"

definition replicaof_arg :: "(nat \<Rightarrow> nat) \<Rightarrow> string \<Rightarrow> string \<Rightarrow> settings \<Rightarrow> settings" where
  "replicaof_arg draw host replica_port s =
     s\<lparr>s_config := replica_config draw (s_draws s) (host @ '' '' @ replica_port), s_draws := s_draws s + id_length\<rparr>"

text \<open>An option whose value is missing at the end of the arguments is skipped.\<close>

fun parse_args :: "(nat \<Rightarrow> nat) \<Rightarrow> string list \<Rightarrow> settings \<Rightarrow> settings" where
  "parse_args draw [] s = s"
| "parse_args draw [arg] s = s"
| "parse_args draw [arg, v] s =
     (if arg = ''--port'' then port_arg v s
      else if arg = ''--replicaof'' then
        s\<lparr>s_errors := s_errors s @ [''Invalid --replicaof argument: expected '' @ [CHR 0x27] @ ''host port'' @ [CHR 0x27, LF]]\<rparr>
      else parse_args draw [v] s)"
| "parse_args draw (arg # v # w # args) s =
     (if arg = ''--port'' then parse_args draw (w # args) (port_arg v s)
      else if arg = ''--replicaof'' then parse_args draw args (replicaof_arg draw v w s)
      else parse_args draw (v # w # args) s)"

definition startup :: "(nat \<Rightarrow> nat) \<Rightarrow> string list \<Rightarrow> string list \<Rightarrow> settings" where
  "startup draw envp argv =
     parse_args draw (drop 1 argv)
       \<lparr>s_port = env_port envp default_port, s_config = master_config draw 0, s_draws = id_length, s_errors = []\<rparr>"

text \<open>Server and replica take the port as an \<^verbatim>\<open>unsigned short\<close>.\<close>

definition listen_port :: "settings \<Rightarrow> 16 word" where
  "listen_port s = of_int (s_port s)"

section \<open>The master's address\<close>

text \<open>\<^verbatim>\<open>iss >> word\<close>: it skips white space and fails when no other character follows.\<close>

definition stream_word :: "string \<Rightarrow> (string \<times> string) option" where
  "stream_word s =
     (let t = dropWhile is_space s
      in if t = [] then None else Some (takeWhile (\<lambda>c. \<not> is_space c) t, dropWhile (\<lambda>c. \<not> is_space c) t))"

text \<open>The host and the port that \<^verbatim>\<open>start\<close> connects to, if it does.\<close>

definition replication_target :: "server_config \<Rightarrow> (string \<times> string) option" where
  "replication_target config =
     (if \<not> is_replica config then None
      else
        (case replicaof config of
           None \<Rightarrow> None
         | Some addr \<Rightarrow>
            (case stream_word addr of
               None \<Rightarrow> None
             | Some (host, rest) \<Rightarrow>
                (case stream_word rest of None \<Rightarrow> None | Some (port, _) \<Rightarrow> Some (host, port)))))"

section \<open>Properties\<close>

text \<open>Options as values, and how they are written on the command line.\<close>

datatype startup_option = Opt_port int | Opt_replicaof string string

primrec option_args :: "startup_option \<Rightarrow> string list" where
  "option_args (Opt_port p) = [''--port'', int_str p]"
| "option_args (Opt_replicaof host port) = [''--replicaof'', host, port]"

primrec option_ok :: "startup_option \<Rightarrow> bool" where
  "option_ok (Opt_port p) = (INT_MIN \<le> p \<and> p \<le> INT_MAX)"
| "option_ok (Opt_replicaof host port) = (\<forall>w \<in> {host, port}. w \<noteq> [] \<and> list_all (\<lambda>c. \<not> is_space c) w)"

primrec apply_option :: "(nat \<Rightarrow> nat) \<Rightarrow> startup_option \<Rightarrow> settings \<Rightarrow> settings" where
  "apply_option draw (Opt_port p) s = s\<lparr>s_port := p\<rparr>"
| "apply_option draw (Opt_replicaof host port) s = replicaof_arg draw host port s"

lemma port_arg_int: "INT_MIN \<le> p \<Longrightarrow> p \<le> INT_MAX \<Longrightarrow> port_arg (int_str p) s = s\<lparr>s_port := p\<rparr>"
  using from_chars_signed_int_str [of INT_MIN p INT_MAX "[]"] by (simp add: port_arg_def from_chars_int_def)

lemma parse_args_port: "parse_args draw (''--port'' # v # args) s = parse_args draw args (port_arg v s)"
  by (cases args) simp_all

lemma parse_args_options:
  "list_all option_ok opts \<Longrightarrow> parse_args draw (concat (map option_args opts)) s = fold (apply_option draw) opts s"
proof (induction opts arbitrary: s)
  case (Cons x opts)
  then show ?case by (cases x) (simp_all add: parse_args_port port_arg_int)
qed simp

lemma stream_word_word:
  assumes "w \<noteq> []" "list_all (\<lambda>c. \<not> is_space c) w" "r = [] \<or> is_space (hd r)"
  shows "stream_word (w @ r) = Some (w, r)"
proof -
  have "dropWhile is_space (w @ r) = w @ r" using assms(1,2) by (cases w) simp_all
  moreover have "takeWhile (\<lambda>c. \<not> is_space c) (w @ r) = w" "dropWhile (\<lambda>c. \<not> is_space c) (w @ r) = r"
    using assms(2,3) by (cases r; simp add: list_all_iff takeWhile_append dropWhile_append)+
  ultimately show ?thesis using assms(1) by (simp add: stream_word_def)
qed

lemma replication_target_replica:
  assumes "option_ok (Opt_replicaof host port)"
  shows "replication_target (replica_config draw n (host @ '' '' @ port)) = Some (host, port)"
proof -
  have "stream_word (host @ '' '' @ port) = Some (host, '' '' @ port)"
    using assms by (intro stream_word_word) (simp_all add: is_space_def)
  moreover have "stream_word ('' '' @ port) = stream_word (port @ [])" by (simp add: stream_word_def is_space_def)
  ultimately show ?thesis
    using assms stream_word_word [of port "[]"] by (simp add: replication_target_def replica_config_def)
qed

text \<open>The values of the options of one kind, in the order of the command line.\<close>

fun option_ports :: "startup_option list \<Rightarrow> int list" where
  "option_ports [] = []"
| "option_ports (Opt_port p # opts) = p # option_ports opts"
| "option_ports (_ # opts) = option_ports opts"

fun option_masters :: "startup_option list \<Rightarrow> (string \<times> string) list" where
  "option_masters [] = []"
| "option_masters (Opt_replicaof host port # opts) = (host, port) # option_masters opts"
| "option_masters (_ # opts) = option_masters opts"

lemma fold_options:
  assumes "list_all option_ok opts"
  shows "s_port (fold (apply_option draw) opts s) = last (s_port s # option_ports opts)"
    and "s_errors (fold (apply_option draw) opts s) = s_errors s"
    and "replication_target (s_config (fold (apply_option draw) opts s)) =
      last (replication_target (s_config s) # map Some (option_masters opts))"
    and "(\<exists>n. master_replid (s_config s) = generate_replid draw n) \<Longrightarrow>
      \<exists>n. master_replid (s_config (fold (apply_option draw) opts s)) = generate_replid draw n"
  using assms
proof (induction opts arbitrary: s)
  case (Cons x opts)
  {
    case 1
    then show ?case using Cons.IH(1) by (cases x) (simp_all add: replicaof_arg_def)
  next
    case 2
    then show ?case using Cons.IH(2) by (cases x) (simp_all add: replicaof_arg_def)
  next
    case 3
    then show ?case
      using Cons.IH(3) replication_target_replica by (cases x) (simp_all add: replicaof_arg_def del: option_ok.simps)
  next
    case 4
    then show ?case
      using Cons.IH(4) [of "apply_option draw x s"]
      by (cases x) (auto simp: replicaof_arg_def replica_config_def master_config_def)
  }
qed simp_all

lemma replid_alphabet:
  assumes "\<forall>i. draw i < length replid_chars"
  shows "set (generate_replid draw n) \<subseteq> set replid_chars" "length (generate_replid draw n) = 40"
  using assms nth_mem by (fastforce simp: generate_replid_def, simp add: generate_replid_def id_length_def)

text \<open>
  C26. The options of the command line are read back: the last \<open>--port\<close> wins over the earlier ones, the
  environment and the default, and the replication manager connects exactly if there is a
  \<open>--replicaof\<close>, to the host and the port of the last one. No message is printed, and the replication
  ID has forty characters of its alphabet.
\<close>

theorem startup_options:
  assumes "list_all option_ok opts" "\<forall>i. draw i < length replid_chars"
    and "st = startup draw envp (prog # concat (map option_args opts))"
  shows "s_errors st = [] \<and> s_port st = last (env_port envp default_port # option_ports opts) \<and>
    replication_target (s_config st) = last (None # map Some (option_masters opts)) \<and>
    length (master_replid (s_config st)) = 40 \<and> set (master_replid (s_config st)) \<subseteq> set replid_chars"
proof -
  let ?s = "\<lparr>s_port = env_port envp default_port, s_config = master_config draw 0, s_draws = id_length, s_errors = []\<rparr>"
  have st: "st = fold (apply_option draw) opts ?s"
    using assms(3) parse_args_options [OF assms(1)] by (simp add: startup_def)
  moreover obtain n where "master_replid (s_config st) = generate_replid draw n"
    using fold_options(4) [OF assms(1), of ?s draw] unfolding st by (auto simp: master_config_def)
  ultimately show ?thesis
    using fold_options(1-3) [OF assms(1), of draw ?s] replid_alphabet [OF assms(2), of n]
    by (simp add: master_config_def replication_target_def)
qed

theorem startup_options_witness:
  "let st = startup (\<lambda>i. i mod 62) [''REDIS_PORT=7000''] [''redis'', ''--port'', ''6380'', ''--replicaof'', ''localhost'', ''6379'']
   in s_port st = 6380 \<and> replication_target (s_config st) = Some (''localhost'', ''6379'') \<and> listen_port st = 6380"
proof -
  let ?opts = "[Opt_port 6380, Opt_replicaof ''localhost'' ''6379'']"
  have "int_str 6380 = ''6380''" by (simp add: int_str_def nat_str.simps num_simps)
  then have opts: "list_all option_ok ?opts" "concat (map option_args ?opts) = [''--port'', ''6380'', ''--replicaof'', ''localhost'', ''6379'']"
    by (simp_all add: is_space_def ll_limits)
  have "length replid_chars = 62" by code_simp
  then have "\<forall>i. i mod 62 < length replid_chars" by simp
  from startup_options [OF opts(1) this refl, of "[''REDIS_PORT=7000'']" "''redis''"] show ?thesis
    unfolding opts(2) by (simp add: Let_def listen_port_def)
qed

end
