(* ===== verification/Server_System.thy ===== *)
theory Server_System
  imports Isolation Connection Startup
begin

text \<open>
  The whole process: the server with its connections, its session with a master if it is a replica,
  and its two kinds of threads. A network thread completes a read of a connection
  (\<^verbatim>\<open>src/src/net/Connection.cpp\<close>) or of the session and posts requests to the store context; the store
  thread takes the posted tasks in their order, one at a time. Reads, tasks, timers, new connections
  and closed sockets interleave in any way. A connection may complete a read at any time: the order in
  which it waits for its replies is not assumed.
\<close>

section \<open>Definitions\<close>

text \<open>
  \<open>queue\<close> holds the tasks of the store context: the reply callback, the handler and the request.
  \<open>master_link\<close> is the session with the master and its handler.
\<close>

record system =
  srv :: server
  conns :: "(nat, connection) umap"
  queue :: "(reply_k \<times> nat \<times> resp_value) list"
  own_port :: "16 word"
  master_link :: "(nat \<times> session) option"

definition init_system :: "server_config \<Rightarrow> string \<Rightarrow> 16 word \<Rightarrow> system" where
  "init_system cfg ver port = \<lparr>srv = init_server cfg ver, conns = [], queue = [], own_port = port, master_link = None\<rparr>"

text \<open>\<^verbatim>\<open>main\<close>, up to the start of its threads.\<close>

definition boot :: "(nat \<Rightarrow> nat) \<Rightarrow> string list \<Rightarrow> string list \<Rightarrow> string \<Rightarrow> system" where
  "boot draw envp argv ver = (let st = startup draw envp argv in init_system (s_config st) ver (listen_port st))"

definition open_connection :: "nat \<Rightarrow> nat \<Rightarrow> nat \<Rightarrow> system \<Rightarrow> system" where
  "open_connection k h h' y =
     y\<lparr>srv := accept_connection h h' (srv y), conns := um_put k (new_connection k h h') (conns y)\<rparr>"

text \<open>The success of \<^verbatim>\<open>connect_to_master\<close> starts the session.\<close>

definition connect_to_master :: "nat \<Rightarrow> system \<Rightarrow> system" where
  "connect_to_master h y =
     y\<lparr>srv := add_session_handler h (srv y), master_link := Some (h, start_session (own_port y))\<rparr>"

text \<open>Bytes from the master; the commands that they complete are posted with a callback that drops the reply.\<close>

definition session_read :: "string \<Rightarrow> system \<Rightarrow> system option" where
  "session_read bytes y =
     (case master_link y of
        None \<Rightarrow> None
      | Some (h, t) \<Rightarrow>
         (case feed bytes t of
            Inl e \<Rightarrow> None
          | Inr t' \<Rightarrow>
             Some (y\<lparr>master_link := Some (h, t'),
               queue := queue y @ map (\<lambda>q. (K_ignore, h, q)) (drop (length (commands t)) (commands t'))\<rparr>)))"

definition session_ack :: "system \<Rightarrow> system" where
  "session_ack y = y\<lparr>master_link := map_option (\<lambda>(h, t). (h, on_ack_timer t)) (master_link y)\<rparr>"

text \<open>The completion of a read with what its handler does on the network thread; \<^const>\<open>None\<close> ends the process.\<close>

definition complete_read :: "string \<Rightarrow> connection \<Rightarrow> system \<Rightarrow> system option" where
  "complete_read request c y =
     (case on_request request c (replica_reg (srv y)) of
        (out, c', r) \<Rightarrow>
          let s' = (srv y)\<lparr>replica_reg := r\<rparr>; y' = y\<lparr>srv := s', conns := um_put (conn_id c) c' (conns y)\<rparr>
          in case out of
               Write_response t \<Rightarrow> Some (y'\<lparr>srv := s'\<lparr>posted := posted s' @ [(conn_id c, t)]\<rparr>\<rparr>)
             | Parse_error \<Rightarrow> Some (y'\<lparr>srv := s'\<lparr>posted := posted s' @ [(conn_id c, ''-ERR parse error'' @ crlf)]\<rparr>\<rparr>)
             | Read_again \<Rightarrow> Some y'
             | Post h command \<Rightarrow> Some (y'\<lparr>queue := queue y' @ [(K_write (conn_id c), h, command)]\<rparr>)
             | Terminate e \<Rightarrow> None)"

text \<open>The next task of the store context, if no exception ends the process.\<close>

definition run_task :: "system \<Rightarrow> system option" where
  "run_task y =
     (case queue y of
        [] \<Rightarrow> None
      | (k, h, command) # tasks \<Rightarrow>
         (case handle h command k (srv y) of
            Done s \<Rightarrow> Some (y\<lparr>srv := s, queue := tasks\<rparr>)
          | _ \<Rightarrow> None))"

text \<open>The end of a connection by a read error and by a write error.\<close>

definition read_error :: "connection \<Rightarrow> system \<Rightarrow> system" where
  "read_error c y = y\<lparr>srv := disconnect c (srv y), conns := um_erase (conn_id c) (conns y)\<rparr>"

definition write_error :: "connection \<Rightarrow> system \<Rightarrow> system" where
  "write_error c y = y\<lparr>srv := write_fails (srv y), conns := um_erase (conn_id c) (conns y)\<rparr>"

definition unused_number :: "nat \<Rightarrow> system \<Rightarrow> bool" where
  "unused_number k y \<longleftrightarrow>
     um_find (conns y) k = None \<and> list_all (\<lambda>(_, st). write_conn st \<noteq> k) (replicas (replica_reg (srv y)))"

text \<open>A handler lives as long as its connection or session is there or one of its requests is posted.\<close>

definition unused_handler :: "nat \<Rightarrow> system \<Rightarrow> bool" where
  "unused_handler h y \<longleftrightarrow>
     list_all (\<lambda>(_, c). h \<noteq> client_handler c \<and> h \<noteq> replication_handler c) (conns y) \<and>
     list_all (\<lambda>(_, h', _). h' \<noteq> h) (queue y) \<and> (\<forall>t. master_link y \<noteq> Some (h, t))"

inductive net_step :: "system \<Rightarrow> system \<Rightarrow> bool" where
  accepts: "unused_number k y \<Longrightarrow> um_find (handlers (srv y)) h = None \<Longrightarrow> um_find (handlers (srv y)) h' = None \<Longrightarrow> h \<noteq> h' \<Longrightarrow>
    net_step y (open_connection k h h' y)"
| connects: "replication_target (config (srv y)) \<noteq> None \<Longrightarrow> master_link y = None \<Longrightarrow> um_find (handlers (srv y)) h = None \<Longrightarrow>
    net_step y (connect_to_master h y)"
| session_reads: "session_read bytes y = Some y' \<Longrightarrow> net_step y y'"
| session_acks: "net_step y (session_ack y)"
| reads: "um_find (conns y) k = Some c \<Longrightarrow> complete_read request c y = Some y' \<Longrightarrow> net_step y y'"
| runs: "run_task y = Some y' \<Longrightarrow> net_step y y'"
| timer_expires: "net_step y (y\<lparr>srv := expire_timer tid (srv y)\<rparr>)"
| timer_runs: "fire_timer tid (srv y) = Done s \<Longrightarrow> net_step y (y\<lparr>srv := s\<rparr>)"
| time_passes: "clock (srv y) \<le> t \<Longrightarrow> in_ll w \<Longrightarrow> net_step y (y\<lparr>srv := (srv y)\<lparr>clock := t, wall := w\<rparr>\<rparr>)"
| read_fails: "um_find (conns y) k = Some c \<Longrightarrow> net_step y (read_error c y)"
| write_fails: "um_find (conns y) k = Some c \<Longrightarrow> net_step y (write_error c y)"
| destroys: "unused_handler h y \<Longrightarrow> net_step y (y\<lparr>srv := close_handler h (srv y)\<rparr>)"

section \<open>The threads together refine the server\<close>

text \<open>What a read does to the replica registry.\<close>

lemma handshake_registry:
  "handshake t c r = Inr (c', r') \<Longrightarrow> r' = r \<or> (\<exists>k. r' = snd (add_replica k r))"
  by (auto simp: handshake_def Let_def split: if_splits prod.splits) (metis snd_conv)

lemma on_request_steps:
  assumes "on_request q c (replica_reg s) = (out, c', r)"
  shows "sys_step\<^sup>*\<^sup>* s (s\<lparr>replica_reg := r\<rparr>)"
proof (cases rule: on_request_type [of q c "replica_reg s"])
  case (accepted t c1 r1)
  have "sys_step\<^sup>*\<^sup>* s (s\<lparr>replica_reg := r1\<rparr>)"
    using handshake_registry [OF accepted(2)] sys_step.replica_joins [of s] by auto
  moreover have "sys_step\<^sup>*\<^sup>* (s\<lparr>replica_reg := r1\<rparr>) (s\<lparr>replica_reg := r\<rparr>)"
    using accepted(4) assms sys_step.replica_acks [of "s\<lparr>replica_reg := r1\<rparr>"] by auto
  ultimately show ?thesis by (rule rtranclp_trans)
qed (use assms in auto)

lemma net_step_refines: "net_step y y' \<Longrightarrow> sys_step\<^sup>*\<^sup>* (srv y) (srv y')"
proof (induction rule: net_step.induct)
  case (accepts k y h h')
  then show ?case by (simp add: open_connection_def sys_step.accepts r_into_rtranclp)
next
  case (connects y h)
  then show ?case by (simp add: connect_to_master_def sys_step.connects r_into_rtranclp)
next
  case (session_reads bytes y y')
  then show ?case by (auto simp: session_read_def split: option.splits sum.splits)
next
  case (session_acks y)
  then show ?case by (simp add: session_ack_def)
next
  case (reads y k c request y')
  obtain out c' r where o: "on_request request c (replica_reg (srv y)) = (out, c', r)" by (metis prod_cases3)
  have "srv y' = (srv y)\<lparr>replica_reg := r\<rparr> \<or> (\<exists>ws. srv y' = (srv y)\<lparr>replica_reg := r, posted := posted (srv y) @ ws\<rparr>)"
    using reads(2) o by (auto simp: complete_read_def Let_def split: read_outcome.splits)
  then show ?case
    using on_request_steps [OF o] sys_step.network_replies [of "(srv y)\<lparr>replica_reg := r\<rparr>"]
    by (auto intro: rtranclp.rtrancl_into_rtrancl)
next
  case (runs y y')
  then show ?case
    by (auto simp: run_task_def intro!: r_into_rtranclp sys_step.request split: list.splits machine.splits)
next
  case (read_fails y k c)
  have "sys_step (srv y) ((srv y)\<lparr>replica_reg := remove_replica (replica_id c) (replica_reg (srv y))\<rparr>)"
    by (rule sys_step.replica_leaves)
  then show ?case
    using sys_step.disconnects by (auto simp: read_error_def disconnect_def intro: converse_rtranclp_into_rtranclp)
next
  case (write_fails y k c)
  then show ?case by (simp add: write_error_def Connection.write_fails_def sys_step.disconnects r_into_rtranclp)
qed (auto intro!: r_into_rtranclp intro: sys_step.intros)

definition initial_system :: "system \<Rightarrow> bool" where
  "initial_system y \<longleftrightarrow> (\<exists>cfg ver port. y = init_system cfg ver port)"

lemma initial_system_boot [simp]: "initial_system (boot draw envp argv ver)"
  by (auto simp: initial_system_def boot_def Let_def)

lemma threads_initial: "initial_system y \<Longrightarrow> initial_server (srv y)"
  by (auto simp: initial_system_def init_system_def)

interpretation threads: refined_invariant initial_system net_step initial_server sys_step srv invariants
  by unfold_locales (auto intro: threads_initial net_step_refines)

interpretation thread_queues: refined_invariant initial_system net_step initial_server sys_step srv queues_ok
  by unfold_locales

section \<open>Connections and the replica registry\<close>

definition registry_keys_ok :: "replica_registry \<Rightarrow> bool" where
  "registry_keys_ok r \<longleftrightarrow>
     um_ok (replicas r) \<and> (\<forall>j st. um_find (replicas r) j = Some st \<longrightarrow> j < next_replica_id r) \<and>
     (\<forall>j st j' st'. um_find (replicas r) j = Some st \<longrightarrow> um_find (replicas r) j' = Some st' \<longrightarrow>
        write_conn st = write_conn st' \<longrightarrow> j = j')"

text \<open>A connection is in the registry, under its ID and with its own socket, exactly in replication mode.\<close>

definition linked :: "replica_registry \<Rightarrow> nat \<Rightarrow> connection \<Rightarrow> bool" where
  "linked r k c \<longleftrightarrow> conn_id c = k \<and> registered_as_replica c = (mode c = ModeReplication) \<and>
     (if mode c = ModeReplication then map_option write_conn (um_find (replicas r) (replica_id c)) = Some k
      else (\<forall>j st. um_find (replicas r) j = Some st \<longrightarrow> write_conn st \<noteq> k))"

definition links_ok :: "system \<Rightarrow> bool" where
  "links_ok y \<longleftrightarrow> registry_keys_ok (replica_reg (srv y)) \<and>
     (\<forall>k c. um_find (conns y) k = Some c \<longrightarrow> linked (replica_reg (srv y)) k c)"

lemma linked_serves:
  assumes "registry_keys_ok r" "linked r k c" "mode c = ModeReplication"
  shows "serves (replica_id c) k r"
  using assms by (auto simp: registry_keys_ok_def linked_def serves_def um_in_set)

text \<open>The registry operations of one connection, seen by itself and by the others.\<close>

lemma links_ok_same:
  assumes "links_ok y" "replicas_kept (srv y) s"
  shows "links_ok (y\<lparr>srv := s\<rparr>)"
  using assms by (simp add: links_ok_def registry_keys_ok_def linked_def replicas_kept_def)

lemma registry_keys_ack: "registry_keys_ok r \<Longrightarrow> registry_keys_ok (record_ack i n r)"
  by (auto simp: registry_keys_ok_def record_ack_def split: option.split)

lemma linked_ack: "linked (record_ack i n r) k c = linked r k c"
  by (auto simp: linked_def record_ack_def split: option.split)

lemma registry_keys_remove: "registry_keys_ok r \<Longrightarrow> registry_keys_ok (remove_replica i r)"
  by (auto simp: registry_keys_ok_def remove_replica_def split: if_splits)

lemma registry_keys_add:
  "registry_keys_ok r \<Longrightarrow> \<forall>j st. um_find (replicas r) j = Some st \<longrightarrow> write_conn st \<noteq> k \<Longrightarrow>
     registry_keys_ok (snd (add_replica k r))"
  by (auto simp: registry_keys_ok_def add_replica_def Let_def less_Suc_eq split: if_splits)

lemma linked_add:
  assumes "registry_keys_ok r" "add_replica k r = (i, r')"
  shows "um_find (replicas r') i = Some \<lparr>write_conn = k, acked_offset = 0\<rparr>"
    and "k2 \<noteq> k \<Longrightarrow> linked r k2 c2 \<Longrightarrow> linked r' k2 c2"
proof -
  have i: "i = next_replica_id r" "replicas r' = um_put i \<lparr>write_conn = k, acked_offset = 0\<rparr> (replicas r)"
    using assms(2) by (auto simp: add_replica_def Let_def)
  then show "um_find (replicas r') i = Some \<lparr>write_conn = k, acked_offset = 0\<rparr>" by simp
  assume k2: "k2 \<noteq> k" "linked r k2 c2"
  have "replica_id c2 \<noteq> i" if "mode c2 = ModeReplication"
    using k2(2) that assms(1) i(1) by (auto simp: linked_def registry_keys_ok_def)
  with k2 i(2) show "linked r' k2 c2" by (auto simp: linked_def)
qed

lemma handshake_linked:
  assumes "registry_keys_ok r" "linked r k c" "handshake t c r = Inr (c', r')"
  shows "registry_keys_ok r' \<and> linked r' k c' \<and> (\<forall>k2 c2. k2 \<noteq> k \<longrightarrow> linked r k2 c2 \<longrightarrow> linked r' k2 c2)"
proof (cases "mode c = ModeUnknown \<and> t = Psync")
  case True
  with assms(3) obtain i where h: "add_replica (conn_id c) r = (i, r')"
      "c' = c\<lparr>mode := ModeReplication, registered_as_replica := True, replica_id := i\<rparr>"
    using assms(2) by (auto simp: handshake_def linked_def split: if_splits prod.splits)
  have k: "conn_id c = k" "\<forall>j st. um_find (replicas r) j = Some st \<longrightarrow> write_conn st \<noteq> k"
    using assms(2) True by (auto simp: linked_def)
  have "registry_keys_ok r'" using registry_keys_add [OF assms(1), of k] k h(1) by simp
  moreover have "linked r' k c'" using linked_add(1) [OF assms(1) h(1)] h(2) k(1) by (simp add: linked_def)
  ultimately show ?thesis using linked_add(2) [OF assms(1) h(1)] k(1) by blast
next
  case False
  then have "r' = r" using assms(3) by (auto simp: handshake_def Let_def split: if_splits)
  moreover have "linked r k c'"
    using assms(2,3) False by (auto simp: handshake_def linked_def Let_def split: if_splits)
  ultimately show ?thesis using assms(1) by simp
qed

lemma on_request_linked:
  assumes "registry_keys_ok r" "linked r k c" "on_request q c r = (out, c', r')"
  shows "registry_keys_ok r' \<and> linked r' k c' \<and> (\<forall>k2 c2. k2 \<noteq> k \<longrightarrow> linked r k2 c2 \<longrightarrow> linked r' k2 c2)"
proof (cases rule: on_request_type [of q c r])
  case (accepted t c1 r1)
  with handshake_linked [OF assms(1,2) accepted(2)] assms(3) show ?thesis
    by (auto simp: registry_keys_ack linked_ack)
qed (use assms in auto)

lemma complete_read_links:
  assumes "links_ok y" "um_find (conns y) k = Some c" "complete_read q c y = Some y'"
  shows "links_ok y'"
proof -
  obtain out c' r where o: "on_request q c (replica_reg (srv y)) = (out, c', r)" by (metis prod_cases3)
  have k: "registry_keys_ok (replica_reg (srv y))" "linked (replica_reg (srv y)) k c" "conn_id c = k"
    using assms(1,2) by (auto simp: links_ok_def linked_def)
  have "replica_reg (srv y') = r" "conns y' = um_put k c' (conns y)"
    using assms(3) o k(3) by (auto simp: complete_read_def Let_def split: read_outcome.splits)
  with on_request_linked [OF k(1,2) o] assms(1) show ?thesis by (auto simp: links_ok_def)
qed

lemma read_error_links:
  assumes "links_ok y" "um_find (conns y) k = Some c"
  shows "links_ok (read_error c y)"
proof -
  let ?r = "replica_reg (srv y)"
  let ?r' = "if registered_as_replica c then remove_replica (replica_id c) ?r else ?r"
  have ok: "registry_keys_ok ?r" and c: "linked ?r k c" using assms by (auto simp: links_ok_def)
  have others: "linked ?r' k2 c2" if "um_find (conns y) k2 = Some c2" "k2 \<noteq> k" for k2 c2
  proof -
    have "linked ?r k2 c2" using assms(1) that(1) by (simp add: links_ok_def)
    moreover from this have "replica_id c2 \<noteq> replica_id c" if "mode c2 = ModeReplication" "mode c = ModeReplication"
      using c that \<open>k2 \<noteq> k\<close> by (auto simp: linked_def)
    ultimately show ?thesis using c by (auto simp: linked_def remove_replica_def)
  qed
  have "replica_reg (srv (read_error c y)) = ?r'" "conns (read_error c y) = um_erase k (conns y)"
    using c by (simp_all add: read_error_def disconnect_def on_disconnect_def linked_def)
  with others ok show ?thesis by (auto simp: links_ok_def registry_keys_remove split: if_splits)
qed

lemma open_connection_links:
  assumes "links_ok y" "unused_number k y"
  shows "links_ok (open_connection k h h' y)"
proof -
  have "um_ok (replicas (replica_reg (srv y)))" using assms(1) by (simp add: links_ok_def registry_keys_ok_def)
  then have "write_conn st \<noteq> k" if "um_find (replicas (replica_reg (srv y))) j = Some st" for j st
    using assms(2) that by (auto simp: unused_number_def list_all_iff um_in_set)
  with assms(1) show ?thesis
    by (auto simp: links_ok_def linked_def open_connection_def accept_connection_def new_connection_def)
qed

lemma net_step_links:
  assumes "net_step y y'" "queues_ok (srv y)" "links_ok y"
  shows "links_ok y'"
  using assms
proof (induction rule: net_step.induct)
  case (runs y y')
  then obtain h q k s where y': "handle h q k (srv y) = Done s" "srv y' = s" "conns y' = conns y"
    by (auto simp: run_task_def split: list.splits machine.splits)
  then have "replicas_kept (srv y) s" using handle_own_tm runs(2) by (auto simp: own_tm_def)
  with links_ok_same [OF runs(3)] y'(2,3) show ?case by (simp add: links_ok_def)
next
  case (timer_runs tid y s)
  then have "kept (srv y) s" by (intro fire_timer_kept) (auto simp: queues_ok_def)
  with timer_runs show ?case by (intro links_ok_same) (simp_all add: kept_def)
next
  case (write_fails y k c)
  then show ?case by (auto simp: write_error_def Connection.write_fails_def on_disconnect_def links_ok_def)
next
  case (session_reads bytes y y')
  then show ?case by (auto simp: session_read_def links_ok_def split: option.splits sum.splits)
next
  case (connects y h)
  then show ?case by (simp add: connect_to_master_def add_session_handler_def links_ok_def)
next
  case (session_acks y)
  then show ?case by (simp add: session_ack_def links_ok_def)
next
  case (destroys h y)
  then show ?case by (intro links_ok_same) (auto simp: replicas_kept_def close_handler_def split: prod.split)
qed (auto simp: open_connection_links complete_read_links read_error_links links_ok_same replicas_kept_def expire_timer_def
    split: option.split)

section \<open>The session with the master\<close>

text \<open>The requests of the session that wait for the store thread.\<close>

definition session_tasks :: "system \<Rightarrow> resp_value list" where
  "session_tasks y = map (\<lambda>(_, _, q). q) (filter (\<lambda>(k, _, _). k = K_ignore) (queue y))"

definition session_ok :: "system \<Rightarrow> bool" where
  "session_ok y \<longleftrightarrow>
     (case master_link y of None \<Rightarrow> session_tasks y = [] | Some (_, t) \<Rightarrow> suffix (session_tasks y) (commands t))"

lemma read_reply_commands:
  "read_reply f s = Inr (Some s') \<Longrightarrow> (\<And>v s. commands (f v s) = commands s) \<Longrightarrow> commands s' = commands s"
  by (auto simp: read_reply_def Let_def split: option.splits sum.splits)

lemma commands_sends:
  "commands (send_replconf_listening_port s) = commands s" "commands (send_replconf_capa s) = commands s"
  "commands (send_psync s) = commands s" "commands (on_psync_reply v s) = commands s" "commands (start_command_loop s) = commands s"
  "commands (on_ack_timer s) = commands s"
  by (auto simp: send_replconf_listening_port_def send_replconf_capa_def send_psync_def on_psync_reply_def start_command_loop_def
      parse_fullresync_offset_def on_ack_timer_def split: option.split from_chars_result.split)

lemma advance_commands: "advance s = Inr (Some s') \<Longrightarrow> prefix (commands s) (commands s')"
  by (cases "phase s")
     (auto simp: advance_def receive_rdb_def receive_rdb_body_def try_process_one_buffered_command_def Let_def commands_sends
       dest!: read_reply_commands split: option.splits sum.splits list.splits if_splits from_chars_result.splits)

lemma drain_commands_prefix: "drain s = Inr s' \<Longrightarrow> prefix (commands s) (commands s')"
proof (induction s rule: drain.induct)
  case (1 s)
  show ?case
  proof (cases "advance s")
    case (Inr m)
    with 1 advance_commands [of s] show ?thesis
      by (cases m) (auto simp: drain.simps [of s] intro: prefix_order.trans)
  qed (use 1 in \<open>simp add: drain.simps [of s]\<close>)
qed

lemma feed_commands_prefix: "feed bytes t = Inr t' \<Longrightarrow> prefix (commands t) (commands t')"
  using drain_commands_prefix by (fastforce simp: feed_def)

lemma session_tasks_simps [simp]:
  "session_tasks (y\<lparr>srv := s\<rparr>) = session_tasks y" "session_tasks (y\<lparr>conns := cs\<rparr>) = session_tasks y"
  "session_tasks (y\<lparr>master_link := l\<rparr>) = session_tasks y"
  by (simp_all add: session_tasks_def)

lemma session_ok_same:
  "session_ok y \<Longrightarrow> master_link y' = master_link y \<Longrightarrow> suffix (session_tasks y') (session_tasks y) \<Longrightarrow> session_ok y'"
  by (auto simp: session_ok_def split: option.splits intro: suffix_order.trans)

lemma session_read_ok:
  assumes "session_ok y" "session_read bytes y = Some y'"
  shows "session_ok y'"
proof -
  obtain h t t' where t: "master_link y = Some (h, t)" "feed bytes t = Inr t'" "master_link y' = Some (h, t')"
      "session_tasks y' = session_tasks y @ drop (length (commands t)) (commands t')"
    using assms(2) by (auto simp: session_read_def session_tasks_def filter_map comp_def split: option.splits sum.splits)
  obtain cs where "commands t' = commands t @ cs" using feed_commands_prefix [OF t(2)] by (auto simp: prefix_def)
  with assms(1) t show ?thesis by (auto simp: session_ok_def suffix_def)
qed

lemma complete_read_tasks:
  "complete_read q c y = Some y' \<Longrightarrow> master_link y' = master_link y \<and> session_tasks y' = session_tasks y"
  by (auto simp: complete_read_def Let_def session_tasks_def split: prod.splits read_outcome.splits)

lemma net_step_session: "net_step y y' \<Longrightarrow> session_ok y \<Longrightarrow> session_ok y'"
proof (induction rule: net_step.induct)
  case (runs y y')
  then show ?case
    by (intro session_ok_same [OF runs(2)])
       (auto simp: run_task_def session_tasks_def suffix_Cons split: list.splits machine.splits)
next
  case (connects y h)
  then show ?case by (simp add: session_ok_def connect_to_master_def)
next
  case (session_acks y)
  then show ?case by (auto simp: session_ok_def session_ack_def commands_sends split: option.splits)
next
  case (reads y k c request y')
  then show ?case using complete_read_tasks by (intro session_ok_same [OF reads(3)]) auto
qed (auto simp: session_read_ok open_connection_def read_error_def write_error_def elim: session_ok_same)

interpretation net_inv: inductive_invariant initial_system net_step "\<lambda>y. links_ok y \<and> session_ok y \<and> queues_ok (srv y)"
proof
  show "links_ok y \<and> session_ok y \<and> queues_ok (srv y)" if "initial_system y" for y
    using that thread_queues.concrete.initially [OF that]
    by (auto simp: initial_system_def init_system_def init_server_def empty_replicas_def links_ok_def registry_keys_ok_def
        session_ok_def session_tasks_def)
  show "links_ok y' \<and> session_ok y' \<and> queues_ok (srv y')" if "net_step y y'" "links_ok y \<and> session_ok y \<and> queues_ok (srv y)" for y y'
    using that net_step_links net_step_session thread_queues.concrete.preserved by blast
qed

section \<open>Properties\<close>

text \<open>
  C1. From its start on, with any arguments and under every interleaving of its threads, the process
  keeps its invariants: store, registries and watches are well formed; a connection in replication mode
  is registered under one ID of its own, so that it receives every propagated byte exactly once; an
  open connection in any other mode is not registered, so that a client receives replies only; and
  the requests that a replica still has to run for its master are the last ones it received, in
  their order.
\<close>

theorem reachable_system:
  assumes "net_step\<^sup>*\<^sup>* (boot draw envp argv ver) y" "um_find (conns y) k = Some c"
  shows "server_ok (srv y) \<and> watch_ok (srv y) \<and>
    (mode c = ModeReplication \<longrightarrow> serves (replica_id c) k (replica_reg (srv y)) \<and>
       sent_to k (fst (propagate bytes (replica_reg (srv y)))) = bytes) \<and>
    (mode c \<noteq> ModeReplication \<longrightarrow> sent_to k (fst (propagate bytes (replica_reg (srv y)))) = []) \<and>
    (\<forall>h t. master_link y = Some (h, t) \<longrightarrow> suffix (session_tasks y) (commands t))"
proof -
  have "invariants (srv y)" by (rule threads.concrete.reachable [OF initial_system_boot assms(1)])
  moreover have links: "registry_keys_ok (replica_reg (srv y))" "linked (replica_reg (srv y)) k c"
    using net_inv.reachable [OF initial_system_boot assms(1)] assms(2) by (auto simp: links_ok_def)
  moreover have "\<forall>h t. master_link y = Some (h, t) \<longrightarrow> suffix (session_tasks y) (commands t)"
    using net_inv.reachable [OF initial_system_boot assms(1)] by (auto simp: session_ok_def)
  moreover have "sent_to k (fst (propagate bytes (replica_reg (srv y)))) = []" if "mode c \<noteq> ModeReplication"
  proof -
    have "write_conn st \<noteq> k" if "(j, st) \<in> set (replicas (replica_reg (srv y)))" for j st
      using links \<open>mode c \<noteq> ModeReplication\<close> that by (auto simp: linked_def registry_keys_ok_def um_in_set)
    then have "filter (\<lambda>w. fst w = k) (fst (propagate bytes (replica_reg (srv y)))) = []"
      by (fastforce simp: propagate_def filter_empty_conv)
    then show ?thesis by (simp add: sent_to_def)
  qed
  ultimately show ?thesis
    using linked_serves [OF links] sent_to_propagate [of "replica_id c" k "replica_reg (srv y)" bytes]
    by (simp add: invariants_def)
qed

definition first_connection :: system where
  "first_connection = open_connection 5 0 1 (boot (\<lambda>i. i mod 62) [] [''redis''] ''1'')"

lemma first_connection_reachable: "net_step\<^sup>*\<^sup>* (boot (\<lambda>i. i mod 62) [] [''redis''] ''1'') first_connection"
  unfolding first_connection_def
  by (rule r_into_rtranclp, rule net_step.accepts)
     (simp_all add: boot_def Let_def init_system_def init_server_def unused_number_def empty_replicas_def)

theorem reachable_system_witness:
  "watch_ok (srv first_connection) \<and> sent_to 5 (fst (propagate ''abc'' (replica_reg (srv first_connection)))) = []"
proof -
  have "um_find (conns first_connection) 5 = Some (new_connection 5 0 1)"
    by (simp add: first_connection_def open_connection_def)
  from reachable_system [OF first_connection_reachable this, of "''abc''"] show ?thesis by (simp add: new_connection_def)
qed

end
