(* ===== verification/Request_Properties.thy ===== *)
theory Request_Properties
  imports Transaction_Safety
begin

text \<open>
  Requests seen by a client and by the replicas: what a write command sends and to whom, which pops
  escape WATCH, what UNWATCH leaves behind, and which arguments stop the server.
\<close>

section \<open>Lemmas\<close>

text \<open>Commands that answer at once post nothing themselves and leave the replica registry alone.\<close>

definition unposted :: "server \<Rightarrow> (string \<times> server) option \<Rightarrow> bool" where
  "unposted s a \<longleftrightarrow> (\<forall>r s'. a = Some (r, s') \<longrightarrow> posted s' = posted s \<and> replica_reg s' = replica_reg s)"

lemma unposted_simps [simp]:
  "unposted s None" "unposted s (Some (r, s')) \<longleftrightarrow> posted s' = posted s \<and> replica_reg s' = replica_reg s"
  "unposted s (answer_of (with_args cmd n k s body)) \<longleftrightarrow> check_args cmd n = None \<longrightarrow> unposted s (answer_of body)"
  by (auto simp: unposted_def with_args_def split: option.split)

lemma unposted_basic:
  "unposted s (answer_of (exec_ping cmd k s))" "unposted s (answer_of (exec_info h cmd k s))"
  "unposted s (answer_of (exec_echo cmd k s))" "unposted s (answer_of (exec_get cmd k s))"
  "unposted s (answer_of (exec_type cmd k s))" "unposted s (answer_of (exec_incr cmd k s))"
  "unposted s (answer_of (exec_set cmd k s))"
  by (auto simp: exec_ping_def exec_info_def exec_echo_def exec_get_def exec_type_def exec_incr_def exec_set_def
      Let_def split: list.split prod.split sum.split option.split)

lemma unposted_others:
  "unposted s (answer_of (exec_rpush cmd k s))" "unposted s (answer_of (exec_lpush cmd k s))"
  "unposted s (answer_of (exec_lrange cmd k s))" "unposted s (answer_of (exec_llen cmd k s))"
  "unposted s (answer_of (exec_lpop cmd k s))" "unposted s (answer_of (exec_blpop cmd k s))"
  "unposted s (answer_of (exec_xadd cmd k s))" "unposted s (answer_of (exec_xrange cmd k s))"
  "unposted s (answer_of (exec_xread cmd k s))" "unposted s (answer_of (exec_replconf k s))"
  "unposted s (answer_of (exec_psync h cmd k s))" "unposted s (answer_of (exec_wait h cmd k s))"
  by (auto simp: exec_rpush_def exec_lpush_def exec_lrange_def exec_llen_def exec_lpop_def exec_blpop_def
      exec_xadd_def exec_xrange_def exec_xread_def setup_xread_blocking_def exec_replconf_def exec_psync_def
      exec_wait_def catch_reply_def Let_def split: list.split prod.split sum.split option.split)

lemma answer_unposted:
  assumes "answer h cmd s = Some (r, s')" "\<not> transactional (ctype cmd)"
  shows "posted s' = posted s" "replica_reg s' = replica_reg s"
proof -
  have "unposted s (answer_of (exec_command h cmd K_ignore s))"
    using assms(2)
    by (cases "ctype cmd") (simp_all add: exec_command_def transactional_def unposted_basic unposted_others)
  with assms(1) show "posted s' = posted s" "replica_reg s' = replica_reg s" by (auto simp: unposted_def answer_def)
qed

section \<open>Propagation\<close>



section \<open>What escapes WATCH\<close>

text \<open>
  C38. BLPOP on a list that has an element pops it at once but notifies no watcher: whoever watches
  the key keeps a clean transaction, and its EXEC will run.
\<close>

theorem blpop_unwatched:
  assumes "is_request q cmd" "ctype cmd = BLPop" "cargs cmd = [key, t]" "stod t = Inr timeout"
    and "\<not> in_transaction (get_tm s h)" "h_kind (get_handler s h) = ClientRegistry"
    and "um_find (store s) key = Some v" "sval v = VList (x # xs)"
  shows "\<exists>s2. handle h q (K_write c) s = Done s2 \<and> list_at (store s2) key = xs \<and> (\<forall>h'. get_tm s2 h' = get_tm s h')"
proof -
  let ?d = "if xs = [] then um_erase key (store s) else um_put key (v\<lparr>sval := VList xs\<rparr>) (store s)"
  have "answer h cmd s = Some (blpop_reply key x, s\<lparr>store := ?d\<rparr>)"
    using assms by (simp add: answer_def exec_command_def exec_blpop_def with_args_def check_args_def lpop_def Let_def)
  from handle_answer [OF assms(1) _ assms(5) _ this, of "K_write c"] assms show ?thesis
    by (simp add: transactional_def)
qed

theorem blpop_unwatched_witness:
  "\<exists>s2. handle 2 (bulk_request [''BLPOP'', ''k'', ''0'']) (K_write 9)
       (watching\<lparr>store := [(''k'', \<lparr>sval = VList [''x''], expires_at = None\<rparr>)]\<rparr>) = Done s2 \<and>
     list_at (store s2) ''k'' = [] \<and> \<not> dirty (get_tm s2 0)"
proof -
  let ?s = "watching\<lparr>store := [(''k'', \<lparr>sval = VList [''x''], expires_at = None\<rparr>)]\<rparr>"
  from blpop_unwatched [OF is_bulk_request _ _ stod_zero, of "''BLPOP''" "[''k'', ''0'']" "''k''" ?s 2 _ "''x''" "[]" 9]
  show ?thesis by (auto simp: watching_fields empty_tm_def um_find_def)
qed



section \<open>Arguments that stop the server\<close>

text \<open>The exception of the number conversions that no handler catches.\<close>

definition failure :: "cpp_exn + 'a \<Rightarrow> cpp_exn option" where
  "failure r = (case r of Inl e \<Rightarrow> Some e | Inr _ \<Rightarrow> None)"

definition bad_number :: "command \<Rightarrow> cpp_exn option" where
  "bad_number cmd =
     (if ctype cmd = LRange \<and> length (cargs cmd) \<ge> 3 then
        (case stoll (cargs cmd ! 1) of Inl e \<Rightarrow> Some e | Inr _ \<Rightarrow> failure (stoll (cargs cmd ! 2)))
      else if ctype cmd = LPop \<and> length (cargs cmd) \<ge> 2 then failure (stoull (cargs cmd ! 1))
      else if ctype cmd = BLPop \<and> length (cargs cmd) \<ge> 2 then failure (stod (last (cargs cmd)))
      else if ctype cmd = Set \<and> length (cargs cmd) \<ge> 4 \<and> lowercase (cargs cmd ! 2) \<in> {''ex'', ''px''}
      then failure (stoll (cargs cmd ! 3))
      else None)"

lemma parse_expiry_first:
  assumes "length (cargs cmd) \<ge> 4" "lowercase (cargs cmd ! 2) \<in> {''ex'', ''px''}" "stoll (cargs cmd ! 3) = Inl e"
  shows "parse_expiry cmd = Inl e"
proof -
  have "drop 2 (cargs cmd) = cargs cmd ! 2 # cargs cmd ! 3 # drop 4 (cargs cmd)"
    using assms(1) Cons_nth_drop_Suc [of 2 "cargs cmd"] Cons_nth_drop_Suc [of 3 "cargs cmd"] by simp
  with assms show ?thesis by (auto simp: parse_expiry_def)
qed



end
