(* ===== verification/Blocking.thy ===== *)
theory Blocking
  imports Request_Properties
begin

text \<open>
  Blocked clients: who is served by a push, in which order and with what, what a blocked reader of a
  stream receives, and that WAIT replies.
\<close>

section \<open>Serving BLPOP\<close>

lemma post_reply_cong:
  "posted s = posted t \<Longrightarrow> replica_reg s = replica_reg t \<Longrightarrow>
   posted (post_reply k r s) = posted (post_reply k r t) \<and> replica_reg (post_reply k r s) = replica_reg (post_reply k r t)"
  by (induction k) (auto simp: post_propagate_def split: prod.split)

lemma post_reply_more [simp]:
  "blpop_reg (post_reply k r s) = blpop_reg s" "xread_reg (post_reply k r s) = xread_reg s"
  "timers (post_reply k r s) = timers s" "clock (post_reply k r s) = clock s" "ctxs (post_reply k r s) = ctxs s"
  by (induction k) simp_all

text \<open>The replies to the first waiters, each with one element.\<close>

definition serve_each :: "string \<Rightarrow> blpop_waiter list \<Rightarrow> string list \<Rightarrow> server \<Rightarrow> server" where
  "serve_each key ws vs s = foldl (\<lambda>s (w, v). post_reply (bw_reply w) (blpop_reply key v) s) s (zip ws vs)"

lemma serve_each_Cons:
  "serve_each key (w # ws) (v # vs) s = serve_each key ws vs (post_reply (bw_reply w) (blpop_reply key v) s)"
  by (simp add: serve_each_def)

lemma serve_each_cong:
  "posted s = posted t \<Longrightarrow> replica_reg s = replica_reg t \<Longrightarrow>
   posted (serve_each key ws vs s) = posted (serve_each key ws vs t) \<and>
   replica_reg (serve_each key ws vs s) = replica_reg (serve_each key ws vs t)"
proof (induction ws arbitrary: vs s t)
  case (Cons w ws)
  show ?case
  proof (cases vs)
    case (Cons v vs')
    note same = post_reply_cong [OF Cons.prems, where k = "bw_reply w" and r = "blpop_reply key v"]
    show ?thesis using Cons.IH [OF same [THEN conjunct1] same [THEN conjunct2]] Cons by (simp add: serve_each_Cons)
  qed (use Cons.prems in \<open>simp add: serve_each_def\<close>)
qed (simp add: serve_each_def)

lemma lpop_one:
  "um_find d key = Some v \<Longrightarrow> sval v = VList (x # xs) \<Longrightarrow>
   lpop d key 1 = (Inr [x], if xs = [] then um_erase key d else um_put key (v\<lparr>sval := VList xs\<rparr>) d)"
  by (simp add: lpop_def)

lemma lpop_none:
  assumes "store_ok d" "list_at d key = []"
  obtains e where "lpop d key 1 = (Inl e, d)"
proof -
  have "sval v \<noteq> VList []" if "um_find d key = Some v" for v
    using assms(1) that by (auto simp: store_ok_def) (metis variant_ok.simps(2))
  with assms(2) that show ?thesis
    by (cases "um_find d key") (auto simp: lpop_def list_at_def split: value_variant.splits)
qed

lemma list_at_Cons: "list_at d key = x # xs \<Longrightarrow> \<exists>v. um_find d key = Some v \<and> sval v = VList (x # xs)"
  by (auto simp: list_at_def split: option.splits value_variant.splits)

lemma serve_first:
  assumes "store_ok (store s)" "registry_ok (blpop_reg s)" "regs_at (blpop_reg s) key = (cid, w) # ws"
    and "direct (bw_reply w)" "list_at (store s) key = v # vs" "distinct (map fst ((cid, w) # ws))"
  obtains s1 where "run (F_serve_blpop key # fs) s = run (F_serve_blpop key # fs) (post_reply (bw_reply w) (blpop_reply key v) s1)"
    "posted s1 = posted s" "replica_reg s1 = replica_reg s" "handlers s1 = handlers s" "store_ok (store s1)"
    "registry_ok (blpop_reg s1)" "regs_at (blpop_reg s1) key = ws" "list_at (store s1) key = vs"
    "\<And>k. k \<noteq> key \<Longrightarrow> um_find (store s1) k = um_find (store s) k"
proof -
  obtain x where x: "um_find (store s) key = Some x" "sval x = VList (v # vs)" using list_at_Cons [OF assms(5)] by blast
  let ?d = "if vs = [] then um_erase key (store s) else um_put key (x\<lparr>sval := VList vs\<rparr>) (store s)"
  let ?s1 = "cancel_timer (bw_timer w) (s\<lparr>store := ?d, blpop_reg := unregister cid (blpop_reg s)\<rparr>)"
  have "run (F_serve_blpop key # fs) s = run ([F_reply (bw_reply w) (blpop_reply key v), F_serve_blpop key] @ fs) ?s1"
    using assms(3) lpop_one [OF x] by (intro run_Next) (simp add: serve_blpop_waiters_def)
  then have "run (F_serve_blpop key # fs) s = run (F_serve_blpop key # fs) (post_reply (bw_reply w) (blpop_reply key v) ?s1)"
    by (simp add: run_reply [OF assms(4)])
  moreover have "filter (\<lambda>x. fst x \<noteq> cid) ws = ws"
    using assms(6) by (simp add: filter_id_conv) (metis fst_conv image_eqI)
  ultimately show ?thesis
    using assms(1-3) by (intro that [of ?s1]) (auto simp: regs_at_unregister registry_ok_unregister)
qed

lemma serve_fifo:
  assumes "store_ok (store s)" "registry_ok (blpop_reg s)" "regs_at (blpop_reg s) key = ws"
    and "distinct (map fst ws)" "list_all (\<lambda>x. direct (bw_reply (snd x))) ws" "list_at (store s) key = vs"
  shows "\<exists>s'. run (F_serve_blpop key # fs) s = run fs s' \<and>
    posted s' = posted (serve_each key (map snd ws) vs s) \<and>
    replica_reg s' = replica_reg (serve_each key (map snd ws) vs s) \<and>
    list_at (store s') key = drop (length ws) vs \<and> regs_at (blpop_reg s') key = drop (length vs) ws \<and>
    handlers s' = handlers s \<and> (\<forall>k. k \<noteq> key \<longrightarrow> um_find (store s') k = um_find (store s) k)"
  using assms
proof (induction ws arbitrary: s vs)
  case Nil
  then have "run (F_serve_blpop key # fs) s = run ([] @ fs) s"
    by (intro run_Next) (simp add: serve_blpop_waiters_def)
  with Nil show ?case by (auto simp: serve_each_def)
next
  case (Cons x ws)
  obtain cid w where x: "x = (cid, w)" by (cases x)
  show ?case
  proof (cases vs)
    case Nil
    then obtain e where "lpop (store s) key 1 = (Inl e, store s)" using lpop_none Cons.prems by metis
    then have "run (F_serve_blpop key # fs) s = run ([] @ fs) s"
      using Cons.prems by (intro run_Next) (simp add: serve_blpop_waiters_def x)
    with Nil Cons.prems show ?thesis by (auto simp: serve_each_def)
  next
    case (Cons v vs')
    have p: "regs_at (blpop_reg s) key = (cid, w) # ws" "direct (bw_reply w)" "list_at (store s) key = v # vs'"
        "distinct (map fst ((cid, w) # ws))"
      using Cons.prems Cons by (auto simp: x)
    obtain s1 where s1: "run (F_serve_blpop key # fs) s = run (F_serve_blpop key # fs) (post_reply (bw_reply w) (blpop_reply key v) s1)"
      "posted s1 = posted s" "replica_reg s1 = replica_reg s" "handlers s1 = handlers s" "store_ok (store s1)"
      "registry_ok (blpop_reg s1)" "regs_at (blpop_reg s1) key = ws" "list_at (store s1) key = vs'"
      "\<And>k. k \<noteq> key \<Longrightarrow> um_find (store s1) k = um_find (store s) k"
      using serve_first [OF Cons.prems(1,2) p(1-4)] by metis
    let ?s2 = "post_reply (bw_reply w) (blpop_reply key v)"
    note same = serve_each_cong [OF post_reply_cong [OF s1(2,3), THEN conjunct1] post_reply_cong [OF s1(2,3), THEN conjunct2]]
    show ?thesis
      using Cons.IH [of "?s2 s1" vs'] s1 Cons.prems Cons same [where ws = "map snd ws" and vs = vs' and key = key]
      by (auto simp: x serve_each_Cons)
  qed
qed

definition pushed :: "command \<Rightarrow> string list \<Rightarrow> string list" where
  "pushed cmd xs =
     (if ctype cmd = RPush then xs @ drop 1 (cargs cmd) else rev (drop 1 (cargs cmd)) @ xs)"

lemma handle_push:
  assumes "is_request q cmd" "ctype cmd = RPush \<or> ctype cmd = LPush" "length (cargs cmd) \<ge> 2"
    and "\<not> in_transaction (get_tm s h)" "h_kind (get_handler s h) = ClientRegistry" "store_ok (store s)"
    and "key = cargs cmd ! 0" "xs = pushed cmd (list_at (store s) key)"
  obtains d where "handle h q k s = run [F_serve_blpop key, F_reply (reply_to h q cmd k s) (length_reply (length xs))]
      (notify_write key (s\<lparr>store := d\<rparr>))"
    "store_ok d" "list_at d key = xs" "\<And>k. k \<noteq> key \<Longrightarrow> um_find d k = um_find (store s) k"
proof -
  let ?d = "um_put key ((fst (list_slot (store s) key))\<lparr>sval := VList xs\<rparr>) (store s)"
  let ?fs = "[F_serve_blpop key, F_reply (reply_to h q cmd k s) (length_reply (length xs))]"
  have "exec_command h cmd (reply_to h q cmd k s) s = Next ?fs (notify_write key (s\<lparr>store := ?d\<rparr>))"
    using assms(2)
  proof
    assume "ctype cmd = RPush"
    with assms(3) show ?thesis
      unfolding assms(7,8) by (simp add: exec_command_def exec_rpush_def with_args_def check_args_def pushed_def rpush_eq Let_def)
  next
    assume "ctype cmd = LPush"
    with assms(3) show ?thesis
      unfolding assms(7,8) by (simp add: exec_command_def exec_lpush_def with_args_def check_args_def pushed_def lpush_eq Let_def)
  qed
  then have "handle h q k s = run ?fs (notify_write key (s\<lparr>store := ?d\<rparr>))"
    using handle_command [OF assms(1) _ assms(4), of k] assms(2,5) by (auto simp: transactional_def)
  moreover have "xs \<noteq> []" using assms(3,8) by (auto simp: pushed_def)
  ultimately show ?thesis using assms(6) by (intro that [of ?d]) auto
qed

lemma push_served:
  assumes "is_request q cmd" "ctype cmd = RPush \<or> ctype cmd = LPush" "length (cargs cmd) \<ge> 2"
    and "\<not> in_transaction (get_tm s h)" "h_kind (get_handler s h) = ClientRegistry" "server_ok s"
    and "key = cargs cmd ! 0" "xs = pushed cmd (list_at (store s) key)"
    and "regs_at (blpop_reg s) key = ws" "distinct (map fst ws)" "list_all (\<lambda>x. direct (bw_reply (snd x))) ws"
  shows "\<exists>s'. handle h q (K_write c) s = Done s' \<and>
    posted s' = posted (post_reply (reply_to h q cmd (K_write c) s) (length_reply (length xs))
      (serve_each key (map snd ws) xs s)) \<and>
    list_at (store s') key = drop (length ws) xs \<and> regs_at (blpop_reg s') key = drop (length xs) ws"
proof -
  have ok: "store_ok (store s)" "registry_ok (blpop_reg s)" using assms(6) by (auto simp: server_ok_def)
  let ?k = "reply_to h q cmd (K_write c) s" and ?r = "length_reply (length xs)"
  obtain d where d: "handle h q (K_write c) s = run [F_serve_blpop key, F_reply ?k ?r] (notify_write key (s\<lparr>store := d\<rparr>))"
      "store_ok d" "list_at d key = xs"
    using handle_push [OF assms(1-5) ok(1) assms(7,8)] by metis
  let ?s0 = "notify_write key (s\<lparr>store := d\<rparr>)"
  obtain s1 where s1: "run [F_serve_blpop key, F_reply ?k ?r] ?s0 = run [F_reply ?k ?r] s1"
      "posted s1 = posted (serve_each key (map snd ws) xs ?s0)"
      "replica_reg s1 = replica_reg (serve_each key (map snd ws) xs ?s0)"
      "list_at (store s1) key = drop (length ws) xs" "regs_at (blpop_reg s1) key = drop (length xs) ws"
    using serve_fifo [of ?s0 key ws xs "[F_reply ?k ?r]"] d ok assms(9-11) by auto
  have "direct ?k" by (simp add: reply_to_def)
  then have "handle h q (K_write c) s = Done (post_reply ?k ?r s1)" using d(1) s1(1) by (simp add: run_reply)
  moreover have "posted (post_reply ?k ?r s1) = posted (post_reply ?k ?r (serve_each key (map snd ws) xs s))"
    using serve_each_cong [of ?s0 s key "map snd ws" xs] s1(2,3)
    by (intro post_reply_cong [THEN conjunct1]) simp_all
  ultimately show ?thesis using s1(4,5) by (intro exI [of _ "post_reply ?k ?r s1"]) simp
qed

text \<open>
  C11. A push serves the clients blocked on its list first come, first served: the longest waiting
  client gets the first element, and so on until the waiters or the elements run out. The elements
  that are left stay in the list, the clients that are left stay blocked, and the pusher's own reply,
  which counts all elements, comes last.
\<close>

theorem push_serves_in_order:
  assumes "is_request q cmd" "ctype cmd = RPush \<or> ctype cmd = LPush" "length (cargs cmd) \<ge> 2"
    and "\<not> in_transaction (get_tm s h)" "h_kind (get_handler s h) = ClientRegistry" "server_ok s"
    and "key = cargs cmd ! 0" "xs = pushed cmd (list_at (store s) key)"
    and "regs_at (blpop_reg s) key = ws" "distinct (map fst ws)" "list_all (\<lambda>x. direct (bw_reply (snd x))) ws"
  shows "\<exists>s'. handle h q (K_write c) s = Done s' \<and>
    posted s' = posted (post_reply (reply_to h q cmd (K_write c) s) (length_reply (length xs))
      (serve_each key (map snd ws) xs s)) \<and>
    list_at (store s') key = drop (length ws) xs \<and> regs_at (blpop_reg s') key = drop (length xs) ws"
  by (rule push_served [OF assms])

theorem push_serves_in_order_witness:
  "\<exists>s'. handle 0 (bulk_request [''RPUSH'', ''k'', ''a'']) (K_write 7)
      (two_clients\<lparr>blpop_reg := \<lparr>callbacks = [(''k'', [(3, \<lparr>bw_timer = 0, bw_reply = K_write 5\<rparr>), (4, \<lparr>bw_timer = 1, bw_reply = K_write 6\<rparr>)])],
          id_to_keys = [(3, [''k'']), (4, [''k''])], next_id = 5\<rparr>\<rparr>) = Done s' \<and>
    posted s' = [(5, blpop_reply ''k'' ''a''), (7, length_reply 1)] \<and> list_at (store s') ''k'' = [] \<and>
    regs_at (blpop_reg s') ''k'' = [(4, \<lparr>bw_timer = 1, bw_reply = K_write 6\<rparr>)]"
proof -
  let ?r = "\<lparr>callbacks = [(''k'', [(3, \<lparr>bw_timer = 0, bw_reply = K_write 5\<rparr>), (4, \<lparr>bw_timer = 1, bw_reply = K_write 6\<rparr>)])],
          id_to_keys = [(3, [''k'']), (4, [''k''])], next_id = 5\<rparr> :: blpop_waiter registry"
  let ?s = "two_clients\<lparr>blpop_reg := ?r\<rparr>"
  have r: "registry_ok ?r" "regs_at ?r ''k'' = [(3, \<lparr>bw_timer = 0, bw_reply = K_write 5\<rparr>), (4, \<lparr>bw_timer = 1, bw_reply = K_write 6\<rparr>)]"
    by (auto simp: registry_ok_def regs_at_def um_list_def um_find_def um_ok_def)
  have s: "server_ok ?s" "h_kind (get_handler ?s 0) = ClientRegistry" "\<not> in_transaction (get_tm ?s 0)"
      "store ?s = []" "posted ?s = []" "replicas (replica_reg ?s) = []"
    using r(1) by (simp_all add: server_ok_def two_clients_def accept_connection_def init_server_def get_tm_def get_handler_def
        empty_tm_def empty_replicas_def ll_limits)
  have "parse_type ''RPUSH'' = RPush" by code_simp
  then have q: "is_request (bulk_request [''RPUSH'', ''k'', ''a'']) \<lparr>ctype = RPush, cname = ''RPUSH'', cargs = [''k'', ''a'']\<rparr>"
    using is_bulk_request [of "''RPUSH''" "[''k'', ''a'']"] by simp
  have w: "regs_at (blpop_reg ?s) ''k'' = [(3, \<lparr>bw_timer = 0, bw_reply = K_write 5\<rparr>), (4, \<lparr>bw_timer = 1, bw_reply = K_write 6\<rparr>)]"
    using r(2) by simp
  from push_serves_in_order [OF q _ _ s(3,2,1) _ refl w, where c = 7] s(4-6) show ?thesis
    by (auto simp: pushed_def list_at_def [of "[]"] serve_each_def reply_to_def post_propagate_def propagate_def split: if_splits)
qed

section \<open>Serving XREAD\<close>

text \<open>The replies to blocked readers, each with what its streams hold now.\<close>

definition wake_each :: "data \<Rightarrow> (nat \<times> xread_waiter) list \<Rightarrow> server \<Rightarrow> server" where
  "wake_each d ws s =
     foldl (\<lambda>s (cid, w). post_reply (xw_reply w) (format_stream_entries (projr (xread d (xw_keys w) (xw_ids w)))) s) s ws"

lemma wake_each_Cons:
  "wake_each d ((cid, w) # ws) s =
     wake_each d ws (post_reply (xw_reply w) (format_stream_entries (projr (xread d (xw_keys w) (xw_ids w)))) s)"
  by (simp add: wake_each_def)

lemma wake_each_cong:
  "posted s = posted t \<Longrightarrow> replica_reg s = replica_reg t \<Longrightarrow>
   posted (wake_each d ws s) = posted (wake_each d ws t) \<and> replica_reg (wake_each d ws s) = replica_reg (wake_each d ws t)"
proof (induction ws arbitrary: s t)
  case (Cons x ws)
  obtain cid w where x: "x = (cid, w)" by (cases x)
  note same = post_reply_cong [OF Cons.prems, where k = "xw_reply w"
      and r = "format_stream_entries (projr (xread d (xw_keys w) (xw_ids w)))"]
  show ?case using Cons.IH [OF same [THEN conjunct1] same [THEN conjunct2]] by (simp add: x wake_each_Cons)
qed (simp add: wake_each_def)

definition readable :: "data \<Rightarrow> xread_waiter \<Rightarrow> bool" where
  "readable d w \<longleftrightarrow> direct (xw_reply w) \<and> (\<exists>res. xread d (xw_keys w) (xw_ids w) = Inr res)"

lemma serve_readers:
  assumes "registry_ok (xread_reg s)" "list_all (\<lambda>x. readable (store s) (snd x)) ws"
  shows "\<exists>s'. run (F_serve_xread ws # fs) s = run fs s' \<and>
    posted s' = posted (wake_each (store s) ws s) \<and> replica_reg s' = replica_reg (wake_each (store s) ws s) \<and>
    store s' = store s \<and> (\<forall>k. regs_at (xread_reg s') k = filter (\<lambda>x. fst x \<notin> fst ` set ws) (regs_at (xread_reg s) k))"
  using assms
proof (induction ws arbitrary: s)
  case Nil
  have "run (F_serve_xread [] # fs) s = run ([] @ fs) s" by (rule run_Next) (simp add: serve_xread_waiters_def)
  then show ?case by (auto simp: wake_each_def)
next
  case (Cons x ws)
  obtain cid w where x: "x = (cid, w)" by (cases x)
  obtain res where res: "xread (store s) (xw_keys w) (xw_ids w) = Inr res" "direct (xw_reply w)"
    using Cons.prems(2) by (auto simp: x readable_def)
  let ?s1 = "cancel_timer (xw_timer w) (s\<lparr>xread_reg := unregister cid (xread_reg s)\<rparr>)"
  let ?p = "post_reply (xw_reply w) (format_stream_entries res)"
  have "run (F_serve_xread (x # ws) # fs) s =
      run ([F_reply (xw_reply w) (format_stream_entries res), F_serve_xread ws] @ fs) ?s1"
    by (rule run_Next) (simp add: serve_xread_waiters_def x res Let_def)
  then have "run (F_serve_xread (x # ws) # fs) s = run (F_serve_xread ws # fs) (?p ?s1)" by (simp add: run_reply [OF res(2)])
  moreover obtain s' where "run (F_serve_xread ws # fs) (?p ?s1) = run fs s'"
      "posted s' = posted (wake_each (store s) ws (?p ?s1))" "replica_reg s' = replica_reg (wake_each (store s) ws (?p ?s1))"
      "store s' = store s"
      "\<forall>k. regs_at (xread_reg s') k = filter (\<lambda>x. fst x \<notin> fst ` set ws) (regs_at (unregister cid (xread_reg s)) k)"
    using Cons.IH [of "?p ?s1"] Cons.prems registry_ok_unregister [of "xread_reg s" cid] by auto
  moreover have "posted (?p ?s1) = posted (?p s)" "replica_reg (?p ?s1) = replica_reg (?p s)"
    using post_reply_cong [of ?s1 s] by simp_all
  ultimately show ?case
    using wake_each_cong [of "?p ?s1" "?p s" "store s" ws] Cons.prems(1) res(1)
    by (intro exI [of _ s']) (simp add: x wake_each_Cons regs_at_unregister conj_commute)
qed



section \<open>WAIT\<close>

text \<open>
  A round of WAIT: some time passes, acknowledgements of replicas arrive, and the timer of the poll
  expires and runs.
\<close>

definition poll_round :: "int \<times> (nat \<times> int) list \<Rightarrow> nat \<Rightarrow> server \<Rightarrow> machine" where
  "poll_round turn tid s =
     (case turn of (d, acks) \<Rightarrow>
        fire_timer tid (expire_timer tid
          (s\<lparr>clock := clock s + d, replica_reg := foldl (\<lambda>r (i, n). record_ack i n r) (replica_reg s) acks\<rparr>)))"

fun wait_rounds :: "(int \<times> (nat \<times> int) list) list \<Rightarrow> nat \<Rightarrow> server \<Rightarrow> machine" where
  "wait_rounds [] tid s = Done s"
| "wait_rounds (turn # turns) tid s =
     (case poll_round turn tid s of Done s' \<Rightarrow> wait_rounds turns (next_timer s) s' | m \<Rightarrow> m)"

definition fresh_timers :: "server \<Rightarrow> bool" where
  "fresh_timers s \<longleftrightarrow> (\<forall>i. next_timer s \<le> i \<longrightarrow> um_find (timers s) i = None)"

lemma poll_round_none:
  "um_find (timers s) tid = None \<Longrightarrow> \<exists>s'. poll_round turn tid s = Done s' \<and> posted s' = posted s \<and>
     timers s' = timers s \<and> next_timer s' = next_timer s"
  by (simp add: poll_round_def expire_timer_def fire_timer_def split: prod.split)

lemma wait_rounds_done:
  "fresh_timers s \<Longrightarrow> um_find (timers s) tid = None \<Longrightarrow>
   \<exists>s'. wait_rounds turns tid s = Done s' \<and> posted s' = posted s"
proof (induction turns arbitrary: s tid)
  case (Cons turn turns)
  obtain s1 where s1: "poll_round turn tid s = Done s1" "posted s1 = posted s" "timers s1 = timers s"
      "next_timer s1 = next_timer s"
    using poll_round_none [OF Cons.prems(2)] by blast
  with Cons.IH [of s1 "next_timer s"] Cons.prems show ?case by (simp add: fresh_timers_def)
qed simp

lemma poll_round_poll:
  assumes "fresh_timers s" "um_find (timers s) tid = Some \<lparr>t_after = Some kWaitPollInterval, t_ready = b, t_task = T_poll target n (Some dl) (K_write c)\<rparr>"
  obtains (reply) s1 m where "poll_round (d, acks) tid s = Done s1" "posted s1 = posted s @ [(c, CHR '':'' # int_str m @ crlf)]"
      "fresh_timers s1" "um_find (timers s1) (next_timer s) = None"
  | (again) s1 where "poll_round (d, acks) tid s = Done s1" "posted s1 = posted s" "clock s1 = clock s + d" "clock s1 < dl"
      "fresh_timers s1" "um_find (timers s1) (next_timer s) =
        Some \<lparr>t_after = Some kWaitPollInterval, t_ready = False, t_task = T_poll target n (Some dl) (K_write c)\<rparr>"
proof -
  let ?r = "foldl (\<lambda>r (i, n). record_ack i n r) (replica_reg s) acks"
  let ?s = "s\<lparr>clock := clock s + d, replica_reg := ?r,
      timers := um_erase tid (um_put tid \<lparr>t_after = Some kWaitPollInterval, t_ready = True, t_task = T_poll target n (Some dl) (K_write c)\<rparr> (timers s))\<rparr>"
  have p: "poll_round (d, acks) tid s = run [F_poll target n (Some dl) (K_write c)] ?s"
    using assms(2) by (simp add: poll_round_def expire_timer_def fire_timer_def)
  have fresh: "um_find (timers s) (next_timer s) = None" "fresh_timers ?s"
    using assms(1) by (simp_all add: fresh_timers_def)
  let ?m = "int (count_acked_at_least target ?r)"
  show ?thesis
  proof (cases "?m \<ge> n \<or> clock s + d \<ge> dl")
    case True
    then have "run [F_poll target n (Some dl) (K_write c)] ?s = run ([F_reply (K_write c) (CHR '':'' # int_str ?m @ crlf)] @ []) ?s"
      by (intro run_Next) (simp add: wait_poll_def Let_def)
    then have "poll_round (d, acks) tid s = Done (?s\<lparr>posted := posted s @ [(c, CHR '':'' # int_str ?m @ crlf)]\<rparr>)"
      using p by simp
    then show ?thesis by (rule reply) (use fresh in \<open>simp_all add: fresh_timers_def\<close>)
  next
    case False
    then have "run [F_poll target n (Some dl) (K_write c)] ?s =
        run ([] @ []) (new_timer (Some kWaitPollInterval) (T_poll target n (Some dl) (K_write c)) ?s)"
      by (intro run_Next) (simp add: wait_poll_def Let_def)
    then have "poll_round (d, acks) tid s = Done (new_timer (Some kWaitPollInterval) (T_poll target n (Some dl) (K_write c)) ?s)"
      using p by simp
    then show ?thesis by (rule again) (use fresh False in \<open>auto simp: new_timer_def fresh_timers_def\<close>)
  qed
qed

lemma wait_rounds_poll:
  assumes "fresh_timers s" "um_find (timers s) tid = Some \<lparr>t_after = Some kWaitPollInterval, t_ready = b, t_task = T_poll target n (Some dl) (K_write c)\<rparr>"
    and "turns \<noteq> []" "dl \<le> clock s + kWaitPollInterval * int (length turns)" "list_all (\<lambda>(d, acks). kWaitPollInterval \<le> d) turns"
  shows "\<exists>s' m. wait_rounds turns tid s = Done s' \<and> posted s' = posted s @ [(c, CHR '':'' # int_str m @ crlf)]"
  using assms
proof (induction turns arbitrary: s tid b)
  case (Cons turn turns)
  obtain d acks where turn: "turn = (d, acks)" by (cases turn)
  from Cons.prems(1,2) show ?case
  proof (cases rule: poll_round_poll [where d = d and acks = acks])
    case (reply s1 m)
    with wait_rounds_done [OF reply(3,4), of turns] show ?thesis by (auto simp: turn)
  next
    case (again s1)
    have "kWaitPollInterval \<le> d" using Cons.prems(5) by (simp add: turn)
    then have dl: "dl \<le> clock s1 + kWaitPollInterval * int (length turns)"
      using Cons.prems(4) again(3) by (simp add: algebra_simps)
    with again(4) have "turns \<noteq> []" by auto
    from Cons.IH [OF again(5,6) this dl] Cons.prems(5) again(1,2) show ?thesis by (auto simp: turn)
  qed
qed simp

lemma wait_poll_rounds:
  assumes "fresh_timers s" "clock s < dl" "dl \<le> clock s + kWaitPollInterval * int (length turns)"
    and "list_all (\<lambda>(d, acks). kWaitPollInterval \<le> d) turns"
  shows "\<exists>s1 s2 m. run [F_poll target n (Some dl) (K_write c)] s = Done s1 \<and>
    wait_rounds turns (next_timer s) s1 = Done s2 \<and> posted s2 = posted s @ [(c, CHR '':'' # int_str m @ crlf)]"
proof -
  let ?m = "int (count_acked_at_least target (replica_reg s))"
  have none: "um_find (timers s) (next_timer s) = None" using assms(1) by (simp add: fresh_timers_def)
  show ?thesis
  proof (cases "?m \<ge> n")
    case True
    let ?s1 = "s\<lparr>posted := posted s @ [(c, CHR '':'' # int_str ?m @ crlf)]\<rparr>"
    have "run [F_poll target n (Some dl) (K_write c)] s = run ([F_reply (K_write c) (CHR '':'' # int_str ?m @ crlf)] @ []) s"
      using True by (intro run_Next) (simp add: wait_poll_def Let_def)
    then have "run [F_poll target n (Some dl) (K_write c)] s = Done ?s1" by simp
    moreover obtain s2 where "wait_rounds turns (next_timer s) ?s1 = Done s2" "posted s2 = posted ?s1"
      using wait_rounds_done [of ?s1 "next_timer s" turns] assms(1) none by (auto simp: fresh_timers_def)
    ultimately show ?thesis by (intro exI [of _ ?s1] exI [of _ s2] exI [of _ ?m]) simp
  next
    case False
    let ?s1 = "new_timer (Some kWaitPollInterval) (T_poll target n (Some dl) (K_write c)) s"
    have "run [F_poll target n (Some dl) (K_write c)] s = run ([] @ []) ?s1"
      using False assms(2) by (intro run_Next) (simp add: wait_poll_def Let_def)
    then have s1: "run [F_poll target n (Some dl) (K_write c)] s = Done ?s1" by simp
    have "fresh_timers ?s1" using assms(1) by (auto simp: fresh_timers_def new_timer_def)
    moreover have "um_find (timers ?s1) (next_timer s) =
        Some \<lparr>t_after = Some kWaitPollInterval, t_ready = False, t_task = T_poll target n (Some dl) (K_write c)\<rparr>"
      by (simp add: new_timer_def)
    moreover have "turns \<noteq> []" using assms(2,3) by auto
    ultimately obtain s2 m where "wait_rounds turns (next_timer s) ?s1 = Done s2"
        "posted s2 = posted ?s1 @ [(c, CHR '':'' # int_str m @ crlf)]"
      using wait_rounds_poll [of ?s1 "next_timer s" False target n dl c turns] assms(3,4) by auto
    with s1 show ?thesis by (intro exI [of _ ?s1] exI [of _ s2] exI [of _ m]) simp
  qed
qed

text \<open>
  C19. WAIT with a timeout answers, exactly once: after as many polls of its timer as fit into the
  timeout, whatever the replicas acknowledge in the meantime, the client has one reply.
\<close>

theorem wait_replies:
  assumes "is_request q cmd" "ctype cmd = Wait" "cargs cmd = [a, t]"
    and "parse_nonnegative a = Some n" "parse_nonnegative t = Some ms" "0 < ms" "expiry_time (clock s) ms = Inr dl"
    and "\<not> in_transaction (get_tm s h)" "h_kind (get_handler s h) = ClientRegistry" "h_replicas (get_handler s h)"
    and "fresh_timers s" "list_all (\<lambda>(d, acks). kWaitPollInterval \<le> d) turns" "ms \<le> 20 * int (length turns)"
  shows "\<exists>s1 s2 ws m. handle h q (K_write c) s = Done s1 \<and> wait_rounds turns (next_timer s) s1 = Done s2 \<and>
    posted s2 = posted s @ ws @ [(c, CHR '':'' # int_str m @ crlf)] \<and>
    (ws = [] \<or> ws = fst (request_getack (replica_reg s)))"
proof -
  let ?target = "master_offset (replica_reg s)"
  let ?k = "int (count_acked_at_least ?target (replica_reg s))"
  obtain ws r where wr: "request_getack (replica_reg s) = (ws, r)" by force
  have h: "handle h q (K_write c) s = finish (exec_wait h cmd (K_write c) s)"
    using handle_command [OF assms(1) _ assms(8), of "K_write c"] assms(2,9)
    by (simp add: transactional_def reply_to_def exec_command_def is_write_command_def)
  show ?thesis
  proof (cases "?k \<ge> n")
    case True
    let ?s1 = "s\<lparr>posted := posted s @ [(c, CHR '':'' # int_str ?k @ crlf)]\<rparr>"
    have "handle h q (K_write c) s = Done ?s1" using h True assms by (simp add: exec_wait_def Let_def)
    moreover obtain s2 where "wait_rounds turns (next_timer s) ?s1 = Done s2" "posted s2 = posted ?s1"
      using wait_rounds_done [of ?s1 "next_timer s" turns] assms(11) by (auto simp: fresh_timers_def)
    ultimately show ?thesis by (intro exI [of _ ?s1] exI [of _ s2] exI [of _ "[]"] exI [of _ ?k]) simp
  next
    case False
    let ?s0 = "s\<lparr>replica_reg := r, posted := posted s @ ws\<rparr>"
    have dl: "dl = clock s + ms * 1000000"
      using assms(7) by (auto simp: expiry_time_def ll_checked_def split: sum.splits if_splits)
    have "handle h q (K_write c) s = run [F_poll ?target n (Some dl) (K_write c)] ?s0"
      using h False assms wr by (simp add: exec_wait_def Let_def)
    moreover have "fresh_timers ?s0" using assms(11) by (simp add: fresh_timers_def)
    ultimately obtain s1 s2 m where "handle h q (K_write c) s = Done s1"
        "wait_rounds turns (next_timer s) s1 = Done s2" "posted s2 = posted ?s0 @ [(c, CHR '':'' # int_str m @ crlf)]"
      using wait_poll_rounds [of ?s0 dl turns ?target n c] dl assms(6,12,13) by (auto simp: kWaitPollInterval_def)
    with wr show ?thesis by (intro exI [of _ s1] exI [of _ s2] exI [of _ ws] exI [of _ m]) simp
  qed
qed

theorem wait_replies_witness:
  "\<exists>s1 s2 ws m. handle 0 (bulk_request [''WAIT'', ''1'', ''20'']) (K_write 7) two_clients = Done s1 \<and>
     wait_rounds [(kWaitPollInterval, [])] 0 s1 = Done s2 \<and> posted s2 = ws @ [(7, CHR '':'' # int_str m @ crlf)]"
proof -
  have n: "parse_nonnegative ''1'' = Some 1" "parse_nonnegative ''20'' = Some 20" "expiry_time 0 20 = Inr 20000000"
      "parse_type ''WAIT'' = Wait"
    by code_simp+
  have s: "\<not> in_transaction (get_tm two_clients 0)" "h_kind (get_handler two_clients 0) = ClientRegistry"
      "h_replicas (get_handler two_clients 0)" "fresh_timers two_clients" "clock two_clients = 0"
      "next_timer two_clients = 0" "posted two_clients = []"
    by (simp_all add: two_clients_def accept_connection_def init_server_def get_tm_def get_handler_def empty_tm_def
        fresh_timers_def)
  from wait_replies [OF is_bulk_request [of "''WAIT''" "[''1'', ''20'']"] _ _ n(1,2) _ _ s(1-4),
      where turns = "[(kWaitPollInterval, [])]" and c = 7 and dl = 20000000]
  show ?thesis using n s(5-7) by auto
qed

end
