(* ===== verification/Replication.thy ===== *)
theory Replication
  imports Request_Properties Connection Replication_Session
begin

text \<open>
  Master and replica together: the full synchronisation, the stream of propagated commands with its
  offsets, the acknowledgements that WAIT counts, and the data that the replica ends up with.
\<close>

section \<open>Full synchronisation\<close>

lemma after_last_space_append: "CHR '' '' \<notin> set u \<Longrightarrow> after_last_space (a @ CHR '' '' # u) = Some u"
proof -
  assume "CHR '' '' \<notin> set u"
  then have "takeWhile (\<lambda>c. c \<noteq> CHR '' '') (rev u @ CHR '' '' # rev a) = rev u"
    by (subst takeWhile_append2) auto
  then show ?thesis by (simp add: after_last_space_def)
qed

lemma start_session_fields:
  "phase (start_session port) = Ping_sent" "buf (start_session port) = []" "commands (start_session port) = []"
  by (simp_all add: start_session_def send_ping_def new_session_def)

text \<open>The replies to PING and to the two REPLCONF bring the session to its PSYNC, one at a time or together.\<close>

lemma handshake_feeds:
  assumes "buf s = []"
  shows "phase s = Ping_sent \<Longrightarrow> feed (''+PONG'' @ crlf) s = Inr (send_replconf_listening_port s)"
    and "phase s = Port_sent \<Longrightarrow> feed (''+OK'' @ crlf) s = Inr (send_replconf_capa s)"
    and "phase s = Capa_sent \<Longrightarrow> feed (''+OK'' @ crlf) s = Inr (send_psync s)"
proof -
  have buf: "buf (send_replconf_listening_port s) = []" "buf (send_replconf_capa s) = []" "buf (send_psync s) = []"
    using keeps_buf_sends assms by (simp_all add: keeps_buf_def)
  have idle: "drain (send_replconf_listening_port s) = Inr (send_replconf_listening_port s)"
      "drain (send_replconf_capa s) = Inr (send_replconf_capa s)" "drain (send_psync s) = Inr (send_psync s)"
    using buf by (auto intro!: drain_idle)
  show "feed (''+PONG'' @ crlf) s = Inr (send_replconf_listening_port s)" if "phase s = Ping_sent"
    using feed_simple [OF assms, of "''PONG''" "\<lambda>_. send_replconf_listening_port"] that idle(1)
    by (simp add: advance_def keeps_buf_sends)
  show "feed (''+OK'' @ crlf) s = Inr (send_replconf_capa s)" if "phase s = Port_sent"
    using feed_simple [OF assms, of "''OK''" "\<lambda>_. send_replconf_capa"] that idle(2)
    by (simp add: advance_def keeps_buf_sends)
  show "feed (''+OK'' @ crlf) s = Inr (send_psync s)" if "phase s = Capa_sent"
    using feed_simple [OF assms, of "''OK''" "\<lambda>_. send_psync"] that idle(3)
    by (simp add: advance_def keeps_buf_sends)
qed

lemma handshake_replies:
  "feed (''+PONG'' @ crlf @ ''+OK'' @ crlf @ ''+OK'' @ crlf) (start_session port) =
     Inr (send_psync (send_replconf_capa (send_replconf_listening_port (start_session port))))"
proof -
  let ?s0 = "start_session port"
  let ?s1 = "send_replconf_listening_port ?s0"
  let ?s2 = "send_replconf_capa ?s1"
  have "buf ?s0 = []" "buf ?s1 = []" "buf ?s2 = []"
    using keeps_buf_sends start_session_fields(2) by (simp_all add: keeps_buf_def)
  then have "feed (''+PONG'' @ crlf) ?s0 = Inr ?s1" "feed (''+OK'' @ crlf) ?s1 = Inr ?s2" "feed (''+OK'' @ crlf) ?s2 = Inr (send_psync ?s2)"
    by (simp_all only: handshake_feeds start_session_fields phase_sends)
  then show ?thesis
    using feed_append [of "''+PONG'' @ crlf" "''+OK'' @ crlf @ ''+OK'' @ crlf" ?s0]
      feed_append [of "''+OK'' @ crlf" "''+OK'' @ crlf" ?s1] by simp
qed

lemma feed_psync_answer:
  assumes "buf s = []" "phase s = Psync_sent" "CR \<notin> set replid" "0 \<le> offset" "offset < 2 ^ 64" "length body < 2 ^ 64"
  shows "feed ((''+FULLRESYNC '' @ replid @ '' '' @ int_str offset @ crlf) @ ''$'' @ nat_str (length body) @ crlf @ body) s =
    Inr (start_command_loop (s\<lparr>replica_offset := of_int offset, phase := Rdb_header\<rparr>))"
proof -
  let ?t = "''FULLRESYNC '' @ replid @ '' '' @ int_str offset"
  let ?s1 = "s\<lparr>replica_offset := of_int offset, phase := Rdb_header\<rparr>"
  obtain n where n: "offset = int n" "n < 2 ^ 64" using assms(4,5) by (metis nat_eq_iff2 nat_less_numeral_power_cancel_iff)
  have i: "int_str offset = nat_str n" by (simp add: n int_str_nonneg)
  have no: "CHR '' '' \<notin> set (nat_str n)" "CR \<notin> set (nat_str n)"
    using nat_str_digits [of _ n] digit_neq by auto
  then have "CR \<notin> set ?t" using assms(3) by (auto simp: i)
  then have crlf: "find_crlf ?t = None" by (rule find_crlf_no_CR)
  have "after_last_space ?t = Some (nat_str n)"
    using after_last_space_append [OF no(1), of "''FULLRESYNC '' @ replid"] by (simp add: i)
  moreover have "from_chars_size (nat_str n) = Num_ok n []" using from_chars_size_nat_str [OF n(2), of "[]"] by simp
  ultimately have "on_psync_reply (RespValue SimpleString ?t []) s = ?s1"
    by (simp add: on_psync_reply_def parse_fullresync_offset_def n)
  moreover have "feed (CHR ''+'' # ?t @ crlf) s = drain (on_psync_reply (RespValue SimpleString ?t []) s)"
    by (rule feed_simple [OF assms(1) crlf]) (simp_all add: assms(2) advance_def keeps_buf_sends)
  moreover have "drain ?s1 = Inr ?s1" using assms(1) by (intro drain_idle) simp_all
  moreover have "feed (''$'' @ nat_str (length body) @ crlf @ body) ?s1 = Inr (start_command_loop ?s1)"
    using feed_snapshot [of ?s1 body] assms(1,6) by simp
  ultimately show ?thesis
    using feed_append [of "''+FULLRESYNC '' @ replid @ '' '' @ int_str offset @ crlf"
        "''$'' @ nat_str (length body) @ crlf @ body" s] by simp
qed

text \<open>
  The master's answers to a replica's handshake bring the replica into its command loop: PONG, two
  OK and the answer of PSYNC with the snapshot, followed by any propagated commands and cut by TCP in
  any way. Its offset is the master's at the time of PSYNC plus the bytes of the commands, and it runs
  exactly the commands that are not requests for an acknowledgement, in order.
\<close>

theorem full_synchronisation:
  assumes "exec_psync h cmd k m = reply k ans m'" "length (cargs cmd) \<ge> 2" "\<not> is_replica (config m)"
    and "h_replicas (get_handler m h)" "CR \<notin> set (master_replid (config m))"
    and "0 \<le> master_offset (replica_reg m)" "master_offset (replica_reg m) < 2 ^ 64" "list_all wf_resp qs"
    and "chunks \<noteq> []" "concat chunks = ''+PONG'' @ crlf @ ''+OK'' @ crlf @ ''+OK'' @ crlf @ ans @ concat (map serialize qs)"
  shows "\<exists>t. feed_all chunks (start_session port) = Inr t \<and> phase t = Command_loop \<and> buf t = [] \<and>
    replica_offset t = of_int (master_offset (replica_reg m) + int (length (concat (map serialize qs)))) \<and>
    commands t = filter (\<lambda>q. \<not> is_getack q) qs"
proof -
  let ?off = "master_offset (replica_reg m)" and ?id = "master_replid (config m)"
  have ans: "ans = (''+FULLRESYNC '' @ ?id @ '' '' @ int_str ?off @ crlf) @ ''$'' @ nat_str (length rdb_payload) @ crlf @ rdb_payload"
    using assms(1-4) by (auto simp: exec_psync_def with_args_def check_args_def)
  let ?s3 = "send_psync (send_replconf_capa (send_replconf_listening_port (start_session port)))"
  let ?s4 = "start_command_loop (?s3\<lparr>replica_offset := of_int ?off, phase := Rdb_header\<rparr>)"
  have b: "buf ?s3 = []" "phase ?s3 = Psync_sent" "commands ?s3 = []"
    using keeps_buf_sends start_session_fields
    by (simp_all add: keeps_buf_def) (simp add: send_psync_def send_replconf_capa_def send_replconf_listening_port_def)
  have f: "feed ans ?s3 = Inr ?s4"
    unfolding ans by (rule feed_psync_answer [OF b(1,2) assms(5-7)]) (simp add: rdb_payload_def)
  have s4: "replica_offset ?s4 = of_int ?off" "commands ?s4 = []" "phase ?s4 = Command_loop" "buf ?s4 = []"
    using b by (simp_all add: start_command_loop_def)
  obtain t where t: "feed (concat (map serialize qs)) ?s4 = Inr t" "phase t = Command_loop" "buf t = []"
      "replica_offset t = replica_offset ?s4 + of_nat (length (concat (map serialize qs)))"
      "commands t = commands ?s4 @ filter (\<lambda>q. \<not> is_getack q) qs"
    by (rule feed_commands_fields [OF s4(3,4) assms(8)])
  have "feed_all chunks (start_session port) = feed (ans @ concat (map serialize qs)) ?s3"
    using feed_all_concat [OF assms(9)] assms(10) handshake_replies [of port]
      feed_append [of "''+PONG'' @ crlf @ ''+OK'' @ crlf @ ''+OK'' @ crlf" "ans @ concat (map serialize qs)" "start_session port"]
    by simp
  also have "\<dots> = Inr t" using f t(1) by (simp only: feed_append sum.case)
  finally show ?thesis using t s4(1,2) by simp
qed

theorem full_synchronisation_witness:
  "\<exists>t. feed_all [''+PONG'' @ crlf @ ''+O'', ''K'' @ crlf @ ''+OK'' @ crlf @ ''+FULLRESYNC r 0'' @ crlf @
      ''$'' @ nat_str (length rdb_payload) @ crlf @ rdb_payload @ serialize (bulk_request [''INCR'', ''a''])] (start_session 7) = Inr t \<and>
    phase t = Command_loop \<and> buf t = [] \<and> replica_offset t = 21 \<and> commands t = [bulk_request [''INCR'', ''a'']]"
proof -
  let ?cmd = "\<lparr>ctype = Psync, cname = ''PSYNC'', cargs = [''?'', ''-1'']\<rparr>" and ?q = "bulk_request [''INCR'', ''a'']"
  let ?ans = "''+FULLRESYNC r 0'' @ crlf @ ''$'' @ nat_str (length rdb_payload) @ crlf @ rdb_payload"
  have "int_str 0 = ''0''" by code_simp
  then have s: "\<not> is_replica (config two_clients)" "h_replicas (get_handler two_clients 1)" "CR \<notin> set (master_replid (config two_clients))"
    "0 \<le> master_offset (replica_reg two_clients)" "master_offset (replica_reg two_clients) < 2 ^ 64"
    "exec_psync 1 ?cmd (K_write 5) two_clients = reply (K_write 5) ?ans two_clients"
    by (simp_all add: two_clients_def accept_connection_def init_server_def get_handler_def empty_replicas_def
        exec_psync_def with_args_def check_args_def)
  have q: "wf_resp ?q" "length (serialize ?q) = 21" "\<not> is_getack ?q" by (simp add: bulk_request_def) code_simp+
  show ?thesis
    using full_synchronisation [OF s(6) _ s(1-5), of "[?q]"
        "[''+PONG'' @ crlf @ ''+O'', ''K'' @ crlf @ ''+OK'' @ crlf @ ?ans @ serialize ?q]" 7] q s(4)
    by (simp add: two_clients_def init_server_def accept_connection_def empty_replicas_def)
qed

section \<open>The stream of commands\<close>

text \<open>
  While a replica is registered, its offset follows the master's: whatever replicas join, leave
  or acknowledge and however the bytes are cut, once the replica has received what was sent to it,
  it has run exactly the propagated commands in their order, and the two offsets are equal.
\<close>

theorem replica_tracks_master:
  assumes "serves i conn r" "list_all (keeps_replica i conn) ps" "run_replica ps r = (ws, r')"
    and "concat (map op_bytes ps) = concat (map serialize qs)" "list_all wf_resp qs"
    and "phase t = Command_loop" "buf t = []" "replica_offset t = of_int (master_offset r)"
    and "concat chunks = sent_to conn ws" "chunks \<noteq> []"
  shows "\<exists>t'. feed_all chunks t = Inr t' \<and> commands t' = commands t @ filter (\<lambda>q. \<not> is_getack q) qs \<and>
    replica_offset t' = of_int (master_offset r') \<and> buf t' = []"
proof -
  have "concat chunks = concat (map serialize qs)"
    and off: "master_offset r' = master_offset r + int (length (concat (map serialize qs)))"
    using replica_stream [OF assms(1-3)] assms(4,9) by auto
  moreover obtain t' where "feed (concat (map serialize qs)) t = Inr t'" "buf t' = []"
      "replica_offset t' = replica_offset t + of_nat (length (concat (map serialize qs)))"
      "commands t' = commands t @ filter (\<lambda>q. \<not> is_getack q) qs"
    using feed_commands_fields [OF assms(6,7,5)] by metis
  ultimately show ?thesis using feed_all_concat [OF assms(10)] assms(8) by simp
qed

theorem replica_tracks_master_witness:
  "\<exists>t'. feed_all [''*1'', crlf @ ''$1'' @ crlf @ ''x'' @ crlf] ((start_session 7)\<lparr>phase := Command_loop, replica_offset := 5\<rparr>) = Inr t' \<and>
     commands t' = [bulk_request [''x'']] \<and> replica_offset t' = 16 \<and> buf t' = []"
proof -
  let ?r = "\<lparr>replicas = [(0, \<lparr>write_conn = 7, acked_offset = 0\<rparr>)], next_replica_id = 1, master_offset = 5\<rparr>"
  let ?q = "bulk_request [''x'']" and ?t = "(start_session 7)\<lparr>phase := Command_loop, replica_offset := 5\<rparr>"
  have q: "serialize ?q = ''*1'' @ crlf @ ''$1'' @ crlf @ ''x'' @ crlf" "\<not> is_getack ?q"
    by code_simp+
  have r: "serves 0 7 ?r" by (simp add: serves_def um_ok_def um_find_def)
  show ?thesis
    using replica_tracks_master [OF r, of "[Op_propagate (serialize ?q)]" "[(7, serialize ?q)]" "?r\<lparr>master_offset := 16\<rparr>" "[?q]" ?t
        "[''*1'', crlf @ ''$1'' @ crlf @ ''x'' @ crlf]"] q
    by (simp add: keeps_replica_def propagate_def start_session_fields sent_to_def) (simp add: bulk_request_def)
qed

section \<open>Acknowledgements\<close>

lemma length_nat_str: "n < 10 ^ Suc k \<Longrightarrow> length (nat_str n) \<le> Suc k"
proof (induction k arbitrary: n)
  case (Suc k)
  then show ?case by (subst nat_str.simps) (simp add: less_mult_imp_div_less mult.commute)
qed (simp add: nat_str.simps)

lemma ack_request:
  "n < 2 ^ 64 \<Longrightarrow> wf_resp (RespValue Array [] (map Bulk [''REPLCONF'', ''ACK'', nat_str n]))"
  "parse_command (RespValue Array [] (map Bulk [''REPLCONF'', ''ACK'', nat_str n])) =
     Inr \<lparr>ctype = Replconf, cname = ''REPLCONF'', cargs = [''ACK'', nat_str n]\<rparr>"
  "lowercase ''ACK'' = ''ack''" "is_getack getack_command" "wf_resp getack_command"
proof -
  have "parse_type ''REPLCONF'' = Replconf" "is_getack getack_command" "lowercase ''ACK'' = ''ack''" by code_simp+
  then show "parse_command (RespValue Array [] (map Bulk [''REPLCONF'', ''ACK'', nat_str n])) =
     Inr \<lparr>ctype = Replconf, cname = ''REPLCONF'', cargs = [''ACK'', nat_str n]\<rparr>"
    "lowercase ''ACK'' = ''ack''" "is_getack getack_command"
    by (simp_all add: parse_command_def)
next
  assume "n < 2 ^ 64"
  then show "wf_resp (RespValue Array [] (map Bulk [''REPLCONF'', ''ACK'', nat_str n]))"
    using length_nat_str [of n 19] by simp
qed (simp_all add: getack_command_def)

lemma record_ack_counts:
  assumes "um_find (replicas r) i = Some st"
  shows "acked_offset_of i (record_ack i n r) = Some n" "1 \<le> count_acked_at_least n (record_ack i n r)"
proof -
  let ?r = "record_ack i n r"
  have f: "um_find (replicas ?r) i = Some (st\<lparr>acked_offset := n\<rparr>)" using assms by (simp add: record_ack_def)
  then show "acked_offset_of i ?r = Some n" by (simp add: acked_offset_of_def)
  have "(i, st\<lparr>acked_offset := n\<rparr>) \<in> set (filter (\<lambda>(_, st). acked_offset st \<ge> n) (replicas ?r))"
    using f by (auto simp: um_find_def dest: map_of_SomeD)
  then have "0 < count_acked_at_least n ?r" unfolding count_acked_at_least_def by (rule length_pos_if_in_set)
  then show "1 \<le> count_acked_at_least n ?r" by simp
qed

text \<open>
  C20. A request for acknowledgements comes back as one: the replica that was in step with the master
  answers GETACK at once with the offset that includes GETACK itself, and the master's connection
  takes the answer without a reply, records it for that replica, and counts the replica as having
  reached the master's offset.
\<close>

theorem ack_round_trip:
  assumes "um_find (replicas r) (replica_id c) = Some st" "mode c = ModeReplication"
    and "request_getack r = (ws, r1)" "0 \<le> master_offset r" "master_offset r1 < 2 ^ 63"
    and "phase t = Command_loop" "buf t = []" "replica_offset t = of_int (master_offset r)"
  shows "\<exists>t' ack r2. feed (serialize getack_command) t = Inr t' \<and> sent t' = sent t @ [ack] \<and>
    on_request ack c r1 = (Read_again, c, r2) \<and> acked_offset_of (replica_id c) r2 = Some (master_offset r1) \<and>
    1 \<le> count_acked_at_least (master_offset r1) r2"
proof -
  let ?n = "length (serialize getack_command)" and ?t = "take_command t (getack_command, length (serialize getack_command))"
  have r1: "master_offset r1 = master_offset r + int ?n" "replicas r1 = replicas r"
    using assms(3) by (auto simp: request_getack_def propagate_def)
  obtain m where m: "master_offset r1 = int m" "m < 2 ^ 63"
    using assms(4,5) r1(1) by (intro that [of "nat (master_offset r1)"]) simp_all
  have "replica_offset t + of_nat ?n = of_nat m"
    using m(1) r1(1) assms(8) by (metis of_int_add of_int_of_nat_eq)
  then have sent: "sent ?t = sent t @ [encode_array [''REPLCONF'', ''ACK'', nat_str m]]"
    using m(2) ack_request(4)
    by (simp add: take_command_def send_ack_def send_array_def schedule_ack_def Let_def unsigned_of_nat take_bit_nat_eq_self)
  have feed: "feed (serialize getack_command) t = Inr (?t\<lparr>buf := []\<rparr>)"
    using feed_commands [OF assms(6,7), of "[getack_command]" "[]"] ack_request(5) by simp
  have num: "from_chars_ll (nat_str m) = Num_ok (int m) []"
    using from_chars_ll_int_str [of "int m" "[]"] m(2) by (simp add: in_ll_def LLONG_MIN_def LLONG_MAX_def int_str_nonneg)
  have "on_request (encode_array [''REPLCONF'', ''ACK'', nat_str m]) c r1 =
      (Read_again, c, record_ack (replica_id c) (int m) r1)"
    using on_request_enc [OF ack_request(1) _ ack_request(2), of m c r1] m(2) assms(2) num ack_request(3)
    by (simp add: encode_array_def handshake_def is_ack_def apply_ack_def)
  with feed sent record_ack_counts [of r1 "replica_id c" st "int m"] assms(1) r1(2) m(1) show ?thesis
    by (intro exI [of _ "?t\<lparr>buf := []\<rparr>"] exI conjI) simp_all
qed

theorem ack_round_trip_witness:
  "\<exists>t' ack r2. feed (serialize getack_command) ((start_session 7)\<lparr>phase := Command_loop\<rparr>) = Inr t' \<and>
    on_request ack ((new_connection 5 0 1)\<lparr>mode := ModeReplication\<rparr>)
      \<lparr>replicas = [(0, \<lparr>write_conn = 5, acked_offset = 0\<rparr>)], next_replica_id = 1, master_offset = 37\<rparr> =
      (Read_again, (new_connection 5 0 1)\<lparr>mode := ModeReplication\<rparr>, r2) \<and>
    acked_offset_of 0 r2 = Some 37"
proof -
  let ?r = "\<lparr>replicas = [(0, \<lparr>write_conn = 5, acked_offset = 0\<rparr>)], next_replica_id = 1, master_offset = 0\<rparr>"
  let ?c = "(new_connection 5 0 1)\<lparr>mode := ModeReplication\<rparr>" and ?t = "(start_session 7)\<lparr>phase := Command_loop\<rparr>"
  have g: "length (serialize getack_command) = 37" by code_simp
  have r: "request_getack ?r = ([(5, serialize getack_command)], ?r\<lparr>master_offset := 37\<rparr>)"
    using g by (simp add: request_getack_def propagate_def)
  have t: "replica_offset ?t = 0" "buf ?t = []" by (simp_all add: start_session_fields start_session_def send_ping_def send_array_def new_session_def)
  have "um_find (replicas ?r) (replica_id ?c) = Some \<lparr>write_conn = 5, acked_offset = 0\<rparr>"
    by (simp add: um_find_def new_connection_def)
  from ack_round_trip [OF this _ r, of ?t] t show ?thesis by (simp add: new_connection_def) blast
qed

end
