(* ===== verification/Convergence.thy ===== *)
theory Convergence
  imports Blocking Replication
begin

text \<open>
  The data of master and replica: write commands whose effect does not depend on a clock, run by the
  master for any clients and sent to the replica as a byte stream, leave both stores equal.
\<close>

section \<open>Commands that replay\<close>

text \<open>
  A write command replays if its effect is the same on any server: no expiry, no ID taken from the
  wall clock, no blocking. Errors replay too.
\<close>

definition replayable :: "command \<Rightarrow> bool" where
  "replayable cmd \<longleftrightarrow>
     ctype cmd \<in> {Incr, RPush, LPush, LPop} \<or> ctype cmd = Set \<and> length (cargs cmd) \<le> 2 \<or>
     ctype cmd = XAdd \<and> take 1 (drop 1 (cargs cmd)) \<noteq> [''*'']"

definition timeless :: "data \<Rightarrow> bool" where
  "timeless d \<longleftrightarrow> (\<forall>key v. um_find d key = Some v \<longrightarrow> expires_at v = None)"

definition idle :: "server \<Rightarrow> bool" where
  "idle s \<longleftrightarrow> (\<forall>key. regs_at (blpop_reg s) key = [] \<and> regs_at (xread_reg s) key = [])"

definition ready :: "nat \<Rightarrow> server \<Rightarrow> bool" where
  "ready h s \<longleftrightarrow> h_kind (get_handler s h) = ClientRegistry \<and> \<not> in_transaction (get_tm s h)"

lemma timeless_updates [simp]:
  "timeless []" "timeless d \<Longrightarrow> timeless (um_erase key d)"
  "timeless d \<Longrightarrow> expires_at v = None \<Longrightarrow> timeless (um_put key v d)"
  by (auto simp: timeless_def)

text \<open>The states in which a command can leave a server when it answers with a reply and a new store.\<close>

definition answered :: "server \<Rightarrow> string \<Rightarrow> data \<Rightarrow> (string \<times> server) option \<Rightarrow> bool" where
  "answered s r d a \<longleftrightarrow> a = Some (r, s\<lparr>store := d\<rparr>) \<or> (\<exists>key. a = Some (r, notify_write key (s\<lparr>store := d\<rparr>)))"

lemma answered_simps [simp]:
  "answered s r d (Some (r, s\<lparr>store := d\<rparr>))" "answered s r d (Some (r, notify_write key (s\<lparr>store := d\<rparr>)))"
  "answered s r (store s) (Some (r, s))"
  by (auto simp: answered_def)

text \<open>On equal data such a command throws everywhere, or answers everywhere with one reply and one effect.\<close>

definition replays :: "command \<Rightarrow> data \<Rightarrow> bool" where
  "replays cmd d \<longleftrightarrow>
     (\<exists>r d'. timeless d' \<and> (\<forall>h s. store s = d \<longrightarrow> idle s \<longrightarrow> answered s r d' (answer h cmd s))) \<or>
     (\<forall>h k s. store s = d \<longrightarrow> (\<exists>e s'. exec_command h cmd k s = Throw e s'))"

lemma replaysI:
  assumes "timeless d'" "\<And>h s. store s = d \<Longrightarrow> idle s \<Longrightarrow> answered s r d' (answer h cmd s)"
  shows "replays cmd d"
  using assms unfolding replays_def by blast

lemma replays_args:
  assumes "check_args cmd n = Some err" "timeless d"
    and "\<And>h s. exec_command h cmd K_ignore s = with_args cmd n K_ignore s (body s)"
  shows "replays cmd d"
  using assms by (intro replaysI [of d _ err]) (auto simp: answer_def with_args_def Let_def)

lemma replays_set:
  assumes "ctype cmd = Set" "length (cargs cmd) \<le> 2" "timeless d"
  shows "replays cmd d"
proof (cases "check_args cmd 2")
  case (Some err)
  then show ?thesis using assms(1,3) by (rule_tac replays_args) (simp_all add: exec_command_def exec_set_def)
next
  case None
  then have "length (cargs cmd) = 2" using assms(2) by (simp add: check_args_def split: if_splits)
  with None assms show ?thesis
    by (intro replaysI [of "string_set d (cargs cmd ! 0) (cargs cmd ! 1)" _ "''+OK'' @ crlf"])
       (auto simp: string_set_def answer_def exec_command_def exec_set_def with_args_def parse_expiry_short Let_def)
qed

lemma string_incr_timeless:
  assumes "timeless d"
  shows "string_incr now d key = string_incr 0 d key" "timeless (snd (string_incr now d key))"
  using assms by (auto simp: string_incr_def timeless_def expired_def Let_def
      split: option.split value_variant.split from_chars_result.split)

lemma replays_incr:
  assumes "ctype cmd = Incr" "timeless d"
  shows "replays cmd d"
proof (cases "check_args cmd 1")
  case (Some err)
  then show ?thesis using assms by (rule_tac replays_args) (simp_all add: exec_command_def exec_incr_def)
next
  case None
  obtain r d' where "string_incr 0 d (cargs cmd ! 0) = (r, d')" by force
  with string_incr_timeless [OF assms(2), of _ "cargs cmd ! 0"]
  have r: "string_incr now d (cargs cmd ! 0) = (r, d')" and t: "timeless d'" for now by (simp, metis snd_conv)
  with None assms show ?thesis
    by (intro replaysI [OF t, of _ "case r of Inr n \<Rightarrow> CHR '':'' # int_str n @ crlf | Inl err \<Rightarrow> err"])
       (auto simp: answer_def exec_command_def exec_incr_def with_args_def Let_def split: sum.split)
qed

lemma list_ops_timeless:
  assumes "timeless d"
  shows "timeless (snd (rpush d key vs))" "timeless (snd (lpush d key vs))" "timeless (snd (lpop d key n))"
  using assms by (auto simp: rpush_def lpush_def lpop_def list_slot_def default_value_def timeless_def Let_def
      split: option.split value_variant.split)

lemma replays_push:
  assumes "ctype cmd \<in> {RPush, LPush}" "timeless d"
  shows "replays cmd d"
proof (cases "check_args cmd 2")
  case (Some err)
  with assms show ?thesis
    by (intro replaysI [of d _ err]) (auto simp: answer_def exec_command_def exec_rpush_def exec_lpush_def with_args_def Let_def)
next
  case None
  let ?p = "(if ctype cmd = RPush then rpush else lpush) d (cargs cmd ! 0) (drop 1 (cargs cmd))"
  from None assms list_ops_timeless [OF assms(2)] show ?thesis
    by (intro replaysI [of "snd ?p" _ "length_reply (fst ?p)"])
       (auto simp: answer_def exec_command_def exec_rpush_def exec_lpush_def with_args_def Let_def idle_def Let_def split: prod.split)
qed

lemma replays_pop:
  assumes "ctype cmd = LPop" "timeless d"
  shows "replays cmd d"
proof -
  consider (args) err where "check_args cmd 1 = Some err"
    | (number) e where "check_args cmd 1 = None" "lpop_count cmd = Inl e"
    | (error) n err where "check_args cmd 1 = None" "lpop_count cmd = Inr n" "lpop d (cargs cmd ! 0) n = (Inl err, d)"
    | (empty) n d' where "check_args cmd 1 = None" "lpop_count cmd = Inr n" "lpop d (cargs cmd ! 0) n = (Inr [], d')" "length (cargs cmd) < 2"
    | (popped) n vs d' where "check_args cmd 1 = None" "lpop_count cmd = Inr n" "lpop d (cargs cmd ! 0) n = (Inr vs, d')"
        "length (cargs cmd) < 2 \<longrightarrow> vs \<noteq> []"
    by (cases "check_args cmd 1"; cases "lpop_count cmd") (auto, metis live_lpop(1) surj_pair sum.exhaust)
  then show ?thesis
  proof cases
    case args
    then show ?thesis using assms by (rule_tac replays_args) (simp_all add: exec_command_def exec_lpop_def)
  next
    case error
    with assms show ?thesis
      by (intro replaysI [of d _ "if sublist ''-WRONGTYPE'' err then err else null_bulk"])
         (simp_all add: answer_def exec_command_def exec_lpop_def with_args_def Let_def)
  next
    case popped
    with assms list_ops_timeless(3) [OF assms(2), of "cargs cmd ! 0" n] show ?thesis
      by (intro replaysI [of d' _ "if length (cargs cmd) < 2 then bulk_reply (hd vs) else items_reply vs"])
         (auto simp: answer_def exec_command_def exec_lpop_def with_args_def Let_def split: list.split)
  qed (use assms in \<open>auto simp: replays_def exec_command_def exec_lpop_def with_args_def\<close>)
qed

lemma xadd_timeless:
  shows "timeless d \<Longrightarrow> timeless (snd (xadd w d key i fs))" "i \<noteq> ''*'' \<Longrightarrow> xadd w d key i fs = xadd 0 d key i fs"
proof -
  assume "i \<noteq> ''*''"
  then have "generate_stream_id w i l = generate_stream_id 0 i l" for l
    by (simp add: generate_stream_id_def parse_stream_id_def)
  then show "xadd w d key i fs = xadd 0 d key i fs" by (simp add: xadd_def)
next
  assume d: "timeless d"
  obtain v es where v: "stream_slot d key = (v, es)" by force
  have "expires_at v = None"
    using d v by (auto simp: stream_slot_def default_value_def timeless_def Let_def split: option.splits value_variant.splits)
  with d v show "timeless (snd (xadd w d key i fs))" by (simp add: xadd_def Let_def split: sum.split cpp_exn.split)
qed

lemma replays_xadd:
  assumes "ctype cmd = XAdd" "take 1 (drop 1 (cargs cmd)) \<noteq> [''*'']" "timeless d"
  shows "replays cmd d"
proof (cases "length (cargs cmd) < 4 \<or> (length (cargs cmd) - 2) mod 2 \<noteq> 0")
  case True
  with assms show ?thesis
    by (intro replaysI [of d _ "''-ERR wrong number of arguments for XADD'' @ crlf"])
       (auto simp: answer_def exec_command_def exec_xadd_def Let_def)
next
  case False
  then have "cargs cmd ! 1 \<noteq> ''*''" using assms(2) by (cases "cargs cmd"; cases "tl (cargs cmd)") auto
  note same = xadd_timeless(2) [OF this, of _ d "cargs cmd ! 0" "pair_fields (drop 2 (cargs cmd))"]
  obtain r d' where "xadd 0 d (cargs cmd ! 0) (cargs cmd ! 1) (pair_fields (drop 2 (cargs cmd))) = (r, d')" by force
  then have r: "xadd w d (cargs cmd ! 0) (cargs cmd ! 1) (pair_fields (drop 2 (cargs cmd))) = (r, d')" for w
    using same by simp
  then have t: "timeless d'" using xadd_timeless(1) [OF assms(3)] by (metis snd_conv)
  show ?thesis
  proof (cases r)
    case (Inl e)
    with False assms(1) r show ?thesis by (auto simp: replays_def exec_command_def exec_xadd_def Let_def)
  next
    case (Inr q)
    with False assms(1) r t show ?thesis
      by (intro replaysI [OF t, of _ "case q of Inr i \<Rightarrow> bulk_reply i | Inl err \<Rightarrow> err @ crlf"])
         (auto simp: answer_def exec_command_def exec_xadd_def Let_def idle_def Let_def split: sum.split)
  qed
qed

lemma replayable_replays: "replayable cmd \<Longrightarrow> timeless d \<Longrightarrow> replays cmd d"
  using replays_set replays_incr replays_push replays_pop replays_xadd by (auto simp: replayable_def)

section \<open>One request\<close>

lemma get_tm_store [simp]: "get_tm (s\<lparr>store := d\<rparr>) h = get_tm s h" "get_handler (s\<lparr>store := d\<rparr>) h = get_handler s h"
  by (simp_all add: get_tm_def get_handler_def)

lemma answered_fields:
  assumes "answered s r d a" "idle s"
  obtains s' where "a = Some (r, s')" "store s' = d" "idle s'" "\<And>h. ready h s' = ready h s"
    "\<And>h. h_replicas (get_handler s' h) = h_replicas (get_handler s h)"
    "posted s' = posted s" "replica_reg s' = replica_reg s"
proof -
  obtain s' where s': "a = Some (r, s')" "s' = s\<lparr>store := d\<rparr> \<or> (\<exists>key. s' = notify_write key (s\<lparr>store := d\<rparr>))"
    using assms(1) by (auto simp: answered_def)
  show thesis
  proof (rule that [OF s'(1)])
    show "ready h s' = ready h s" "h_replicas (get_handler s' h) = h_replicas (get_handler s h)" for h
      using s'(2) by (auto simp: ready_def notify_write_tm mark_dirty_def split: if_splits)
  qed (use s'(2) assms(2) in \<open>auto simp: idle_def\<close>)
qed

lemma replayable_facts:
  "replayable cmd \<Longrightarrow> \<not> transactional (ctype cmd)" "replayable cmd \<Longrightarrow> is_write_command (ctype cmd)"
  "replayable cmd \<Longrightarrow> registry_find ClientRegistry (ctype cmd)"
  by (auto simp: replayable_def transactional_def)

text \<open>A request that does not stop one server has the same effect on another one with equal data.\<close>

lemma handle_replays:
  assumes "is_request q cmd" "replayable cmd" "timeless (store s)" "idle s" "ready h s" "handle h q k s = Done s1"
  shows "\<exists>r d. timeless d \<and> (\<forall>g x. store x = store s \<longrightarrow> idle x \<longrightarrow> answered x r d (answer g cmd x))"
proof -
  have "\<not> (\<forall>h k x. store x = store s \<longrightarrow> (\<exists>e x'. exec_command h cmd k x = Throw e x'))"
  proof
    assume "\<forall>h k x. store x = store s \<longrightarrow> (\<exists>e x'. exec_command h cmd k x = Throw e x')"
    then obtain e x' where "exec_command h cmd (reply_to h q cmd k s) s = Throw e x'" by blast
    with handle_command [OF assms(1), of s h k] replayable_facts [OF assms(2)] assms(5,6) show False
      by (simp add: ready_def finish_def)
  qed
  with replayable_replays [OF assms(2,3)] show ?thesis unfolding replays_def by blast
qed

lemma handle_answered:
  assumes "is_request q cmd" "replayable cmd" "idle s" "ready h s" "direct k" "answered s r d (answer h cmd s)"
  obtains s' where "handle h q k s = Done (post_reply (reply_to h q cmd k s) r s')" "store s' = d" "idle s'"
    "\<And>g. ready g s' = ready g s" "\<And>g. h_replicas (get_handler s' g) = h_replicas (get_handler s g)"
    "posted s' = posted s" "replica_reg s' = replica_reg s"
proof -
  obtain s' where s': "answer h cmd s = Some (r, s')" "store s' = d" "idle s'" "\<And>g. ready g s' = ready g s"
      "\<And>g. h_replicas (get_handler s' g) = h_replicas (get_handler s g)" "posted s' = posted s" "replica_reg s' = replica_reg s"
    using answered_fields [OF assms(6,3)] by metis
  have "handle h q k s = Done (post_reply (reply_to h q cmd k s) r s')"
    using handle_answer [OF assms(1) replayable_facts(1) [OF assms(2)] _ _ s'(1) assms(5)] replayable_facts(3) [OF assms(2)] assms(4)
    by (simp add: ready_def)
  then show thesis using s'(2-) by (rule that)
qed

lemma post_reply_state [simp]: "idle (post_reply k r s) = idle s" "ready h (post_reply k r s) = ready h s"
  by (simp_all add: idle_def ready_def)

text \<open>What a client's write does on the master, for a registered replica.\<close>

definition master_ready :: "nat \<Rightarrow> nat \<Rightarrow> server \<Rightarrow> bool" where
  "master_ready i conn s \<longleftrightarrow> idle s \<and> timeless (store s) \<and> serves i conn (replica_reg s)"

lemma master_step:
  assumes "is_request q cmd" "replayable cmd" "master_ready i conn m" "ready h m" "h_replicas (get_handler m h)" "c \<noteq> conn"
    and "handle h q (K_write c) m = Done m1"
  shows "master_ready i conn m1" "ready g m1 = ready g m" "h_replicas (get_handler m1 g) = h_replicas (get_handler m g)"
    and "sent_to conn (posted m1) = sent_to conn (posted m) @ serialize q"
    and "master_offset (replica_reg m1) = master_offset (replica_reg m) + int (length (serialize q))"
    and "store x = store m \<Longrightarrow> idle x \<Longrightarrow> ready g x \<Longrightarrow>
      \<exists>x1. handle g q K_ignore x = Done x1 \<and> store x1 = store m1 \<and> idle x1 \<and> ready g x1"
proof -
  have m: "idle m" "timeless (store m)" "serves i conn (replica_reg m)" using assms(3) by (simp_all add: master_ready_def)
  obtain r d where d: "timeless d" "\<forall>g x. store x = store m \<longrightarrow> idle x \<longrightarrow> answered x r d (answer g cmd x)"
    using handle_replays [OF assms(1,2) m(2,1) assms(4,7)] by blast
  have "answered m r d (answer h cmd m)" using d(2) m(1) by simp
  then obtain m' where m': "handle h q (K_write c) m = Done (post_reply (reply_to h q cmd (K_write c) m) r m')" "store m' = d"
      "idle m'" "\<And>g. ready g m' = ready g m" "\<And>g. h_replicas (get_handler m' g) = h_replicas (get_handler m g)"
      "posted m' = posted m" "replica_reg m' = replica_reg m"
    using handle_answered [OF assms(1,2) m(1) assms(4), of "K_write c"] by (metis direct.simps(1))
  have k: "reply_to h q cmd (K_write c) m = K_propagate (K_write c) (serialize q)"
    using assms(5) replayable_facts(2) [OF assms(2)] by (simp add: reply_to_def)
  then have m1: "m1 = post_reply (K_propagate (K_write c) (serialize q)) r m'" using m'(1) assms(7) by simp
  note e = exec_replica_serves [OF m(3), of "Op_propagate (serialize q)"]
  show "ready g m1 = ready g m" "h_replicas (get_handler m1 g) = h_replicas (get_handler m g)"
    unfolding m1 post_reply_state post_reply_tm by (rule m')+
  show "master_ready i conn m1" "sent_to conn (posted m1) = sent_to conn (posted m) @ serialize q"
    "master_offset (replica_reg m1) = master_offset (replica_reg m) + int (length (serialize q))"
    using m'(2,3,6,7) d(1) e assms(6)
    by (auto simp: m1 master_ready_def idle_def keeps_replica_def post_propagate_def sent_to_def split: prod.split)
  assume x: "store x = store m" "idle x" "ready g x"
  obtain x' where "handle g q K_ignore x = Done (post_reply (reply_to g q cmd K_ignore x) r x')" "store x' = d" "idle x'"
      "ready g x' = ready g x"
    using handle_answered [OF assms(1,2) x(2,3) _ d(2) [rule_format, OF x(1,2)], of K_ignore] by (metis direct.simps(2))
  then show "\<exists>x1. handle g q K_ignore x = Done x1 \<and> store x1 = store m1 \<and> idle x1 \<and> ready g x1"
    using x(3) m'(2) by (simp add: m1)
qed

section \<open>Histories\<close>

text \<open>A history of requests with their handlers and reply closures.\<close>

fun serve_all :: "(nat \<times> reply_k \<times> resp_value) list \<Rightarrow> server \<Rightarrow> machine" where
  "serve_all [] s = Done s"
| "serve_all ((h, k, q) # rs) s = (case handle h q k s of Done s' \<Rightarrow> serve_all rs s' | m \<Rightarrow> m)"

text \<open>A request of a client of the master that the replica can replay, and its byte stream.\<close>

definition client_write :: "nat \<Rightarrow> server \<Rightarrow> nat \<times> nat \<times> resp_value \<Rightarrow> bool" where
  "client_write conn m = (\<lambda>(h, c, q). ready h m \<and> h_replicas (get_handler m h) \<and> c \<noteq> conn \<and> wf_resp q \<and>
     (\<exists>cmd. is_request q cmd \<and> replayable cmd))"

lemma serve_all_replays:
  assumes "master_ready i conn m" "list_all (client_write conn m) rs"
    and "serve_all (map (\<lambda>(h, c, q). (h, K_write c, q)) rs) m = Done m'"
  shows "sent_to conn (posted m') = sent_to conn (posted m) @ concat (map (\<lambda>(h, c, q). serialize q) rs) \<and>
    master_offset (replica_reg m') = master_offset (replica_reg m) + int (length (concat (map (\<lambda>(h, c, q). serialize q) rs))) \<and>
    (\<forall>x. store x = store m \<longrightarrow> idle x \<longrightarrow> ready g x \<longrightarrow>
      (\<exists>x'. serve_all (map (\<lambda>(h, c, q). (g, K_ignore, q)) rs) x = Done x' \<and> store x' = store m'))"
  using assms
proof (induction rs arbitrary: m)
  case (Cons p rs)
  obtain h c q where p: "p = (h, c, q)" by (cases p)
  obtain cmd where q: "is_request q cmd" "replayable cmd" "ready h m" "h_replicas (get_handler m h)" "c \<noteq> conn"
    using Cons.prems(2) by (auto simp: p client_write_def)
  obtain m1 where m1: "handle h q (K_write c) m = Done m1" "serve_all (map (\<lambda>(h, c, q). (h, K_write c, q)) rs) m1 = Done m'"
    using Cons.prems(3) by (auto simp: p split: machine.splits)
  note step = master_step [OF q(1,2) Cons.prems(1) q(3-5) m1(1)]
  have "list_all (client_write conn m1) rs"
    using Cons.prems(2) by (simp add: client_write_def step(2,3))
  note ih = Cons.IH [OF step(1) this m1(2)]
  then show ?case using step(4,5) step(6) [of _ g] by (fastforce simp: p)
qed simp

lemma not_getack: "is_request q cmd \<Longrightarrow> ctype cmd \<noteq> Replconf \<Longrightarrow> \<not> is_getack q"
proof
  assume q: "is_request q cmd" "ctype cmd \<noteq> Replconf" "is_getack q"
  then obtain e es where "elements q = e # es" "ctype cmd = parse_type (rstr e)" "lowercase (rstr e) = ''replconf''"
    by (auto simp: is_request_def parse_command_def is_getack_def split: list.splits)
  then show False using q(2) by (simp add: parse_type_def lowercase_def command_names_def)
qed

text \<open>
  A replica converges to its master: the master serves write requests of any clients that do not
  depend on a clock, TCP cuts what it sends to the replica in any way, and the replica runs the
  commands it takes from the stream. If both started with equal data, the two stores and the two
  offsets are equal at the end.
\<close>

theorem replica_converges:
  assumes "idle m" "timeless (store m)" "serves i conn (replica_reg m)" "list_all (client_write conn m) rs"
    and "serve_all (map (\<lambda>(h, c, q). (h, K_write c, q)) rs) m = Done m'"
    and "sent_to conn (posted m') = sent_to conn (posted m) @ concat chunks" "chunks \<noteq> []"
    and "phase t = Command_loop" "buf t = []" "commands t = []" "replica_offset t = of_int (master_offset (replica_reg m))"
    and "store x = store m" "idle x" "ready g x"
  shows "\<exists>t' x'. feed_all chunks t = Inr t' \<and> serve_all (map (\<lambda>q. (g, K_ignore, q)) (commands t')) x = Done x' \<and>
    store x' = store m' \<and> replica_offset t' = of_int (master_offset (replica_reg m'))"
proof -
  let ?qs = "map (\<lambda>(h, c, q). q) rs"
  have rs: "concat (map (\<lambda>(h, c, q). serialize q) rs) = concat (map serialize ?qs)"
    "map (\<lambda>(h, c, q). (g, K_ignore, q)) rs = map (\<lambda>q. (g, K_ignore, q)) ?qs"
    by (induction rs) auto
  have "master_ready i conn m" using assms(1-3) by (simp add: master_ready_def)
  note run = serve_all_replays [OF this assms(4,5), of g, unfolded rs]
  have wf: "list_all wf_resp ?qs" using assms(4) by (auto simp: list_all_iff client_write_def)
  have "\<not> is_getack q" if "q \<in> set ?qs" for q
    using assms(4) that not_getack by (fastforce simp: list_all_iff client_write_def replayable_def)
  then have "filter (\<lambda>q. \<not> is_getack q) ?qs = ?qs" by simp
  then obtain t' where t': "feed (concat (map serialize ?qs)) t = Inr t'" "commands t' = ?qs"
      "replica_offset t' = replica_offset t + of_nat (length (concat (map serialize ?qs)))"
    using feed_commands_fields [OF assms(8,9) wf] assms(10) by (metis append_Nil)
  have "concat chunks = concat (map serialize ?qs)" using run assms(6) by simp
  then have "feed_all chunks t = Inr t'" using feed_all_concat [OF assms(7)] t'(1) by simp
  moreover have "replica_offset t' = of_int (master_offset (replica_reg m'))" using run t'(3) assms(11) by simp
  ultimately show ?thesis using run assms(12-14) by (intro exI [of _ t']) (auto simp: t'(2))
qed

text \<open>A master with two clients and a replica on connection 9, and a server for the replica's session.\<close>

definition master_example :: server where
  "master_example = two_clients\<lparr>replica_reg := \<lparr>replicas = [(0, \<lparr>write_conn = 9, acked_offset = 0\<rparr>)], next_replica_id = 1, master_offset = 0\<rparr>\<rparr>"

theorem replica_converges_witness:
  "\<exists>m' t' x'. serve_all [(0, K_write 4, bulk_request [''SET'', ''a'', ''1'']), (2, K_write 5, bulk_request [''SET'', ''a'', ''2''])] master_example = Done m' \<and>
    feed_all [take 5 (sent_to 9 (posted m')), drop 5 (sent_to 9 (posted m'))] ((start_session 7)\<lparr>phase := Command_loop\<rparr>) = Inr t' \<and>
    serve_all (map (\<lambda>q. (0, K_ignore, q)) (commands t')) two_clients = Done x' \<and>
    store x' = store m' \<and> replica_offset t' = of_int (master_offset (replica_reg m'))"
proof -
  let ?m = master_example and ?qs = "[(0, 4, bulk_request [''SET'', ''a'', ''1'']), (2, 5, bulk_request [''SET'', ''a'', ''2''])]"
  have types: "parse_type ''SET'' = Set" by code_simp
  have rq: "is_request (bulk_request [''SET'', ''a'', v]) \<lparr>ctype = Set, cname = ''SET'', cargs = [''a'', v]\<rparr>" for v
    using is_bulk_request [of "''SET''" "[''a'', v]"] types by simp
  have "serves 0 9 (replica_reg ?m)"
    by (simp add: serves_def um_ok_def um_find_def master_example_def)
  then have m: "idle ?m" "timeless (store ?m)" "serves 0 9 (replica_reg ?m)" "posted ?m = []" "idle two_clients" "ready 0 two_clients"
    "store two_clients = store ?m" "master_offset (replica_reg ?m) = 0"
    by (simp_all add: idle_def ready_def empty_tm_def master_example_def two_clients_def accept_connection_def
        init_server_def regs_at_def um_list_def empty_registry_def get_tm_def get_handler_def)
  have ready: "ready h ?m \<and> h_replicas (get_handler ?m h)" if "h \<in> {0, 2}" for h
    using that by (auto simp: ready_def empty_tm_def master_example_def two_clients_def accept_connection_def init_server_def
        get_tm_def get_handler_def)
  have "wf_resp (bulk_request [''SET'', ''a'', v]) \<and> (\<exists>cmd. is_request (bulk_request [''SET'', ''a'', v]) cmd \<and> replayable cmd)"
    if "v \<in> {''1'', ''2''}" for v
    using rq [of v] that by (auto simp: replayable_def bulk_request_def intro!: exI [of _ "\<lparr>ctype = Set, cname = ''SET'', cargs = [''a'', v]\<rparr>"])
  then have "list_all (client_write 9 ?m) ?qs" using ready by (simp add: client_write_def)
  moreover have step: "\<exists>s'. handle h (bulk_request [''SET'', ''a'', v]) (K_write c) s = Done s' \<and> idle s' \<and> (\<forall>g. ready g s' = ready g s)"
    if "idle s" "ready h s" for h c v s
  proof -
    have "answered s (''+OK'' @ crlf) (string_set (store s) ''a'' v) (answer h \<lparr>ctype = Set, cname = ''SET'', cargs = [''a'', v]\<rparr> s)"
      by (simp add: answer_set)
    then show ?thesis using handle_answered [OF rq [of v] _ that, where k = "K_write c"] by (fastforce simp: replayable_def)
  qed
  obtain m1 where m1: "handle 0 (bulk_request [''SET'', ''a'', ''1'']) (K_write 4) ?m = Done m1" "idle m1" "ready 2 m1"
    using step [of ?m 0 "''1''" 4] m(1) ready by auto
  moreover obtain m' where "handle 2 (bulk_request [''SET'', ''a'', ''2'']) (K_write 5) m1 = Done m'"
    using step [OF m1(2,3), of "''2''" 5] by auto
  ultimately have m': "serve_all (map (\<lambda>(h, c, q). (h, K_write c, q)) ?qs) ?m = Done m'" "list_all (client_write 9 ?m) ?qs" by simp_all
  have t: "buf ((start_session 7)\<lparr>phase := Command_loop\<rparr>) = []" "commands ((start_session 7)\<lparr>phase := Command_loop\<rparr>) = []"
    "replica_offset ((start_session 7)\<lparr>phase := Command_loop\<rparr>) = 0"
    by (simp_all add: start_session_fields start_session_def send_ping_def send_array_def new_session_def)
  then show ?thesis
    using replica_converges [OF m(1-3) m'(2,1), of "[take 5 (sent_to 9 (posted m')), drop 5 (sent_to 9 (posted m'))]"
        "(start_session 7)\<lparr>phase := Command_loop\<rparr>" two_clients 0] m m'(1)
    by simp
qed

end
