(* ===== verification/Replication_System.thy ===== *)
theory Replication_System
  imports Server_System Convergence
begin

text \<open>
  A replica's session (\<^verbatim>\<open>src/src/replication/ReplicationSession.cpp\<close>) and the master's connection to it
  (\<^verbatim>\<open>src/src/net/Connection.cpp\<close>) together: the handshake runs to its end when nothing interferes, and a
  write that is already posted when PSYNC arrives breaks it.
\<close>

section \<open>Requests without interference\<close>

text \<open>
  One exchange: the master serves the last message of the session, and the session takes the bytes
  that were sent to it. \<^const>\<open>None\<close> is an exception on one of the two sides.
\<close>

definition exchange :: "connection \<times> server \<times> session \<Rightarrow> (connection \<times> server \<times> session) option" where
  "exchange x =
     (case x of (c, s, t) \<Rightarrow>
        (case serve_request (last (sent t)) c s of
           (c', Done s') \<Rightarrow>
             (case feed (sent_to (conn_id c) (drop (length (posted s)) (posted s'))) t of
                Inr t' \<Rightarrow> Some (c', s', t')
              | Inl _ \<Rightarrow> None)
         | _ \<Rightarrow> None))"

primrec exchanges :: "nat \<Rightarrow> connection \<times> server \<times> session \<Rightarrow> (connection \<times> server \<times> session) option" where
  "exchanges 0 x = Some x"
| "exchanges (Suc n) x = (case exchange x of None \<Rightarrow> None | Some x' \<Rightarrow> exchanges n x')"

text \<open>The reply to a handshake command, and the handler that serves it.\<close>

definition serves_handshake :: "connection \<Rightarrow> server \<Rightarrow> bool" where
  "serves_handshake c s \<longleftrightarrow>
     h_kind (get_handler s (client_handler c)) = ClientRegistry \<and>
     h_kind (get_handler s (replication_handler c)) = ReplicationRegistry \<and>
     h_replicas (get_handler s (replication_handler c)) \<and>
     \<not> in_transaction (get_tm s (client_handler c)) \<and> \<not> in_transaction (get_tm s (replication_handler c))"

definition psync_answer :: "server \<Rightarrow> string" where
  "psync_answer s = ''+FULLRESYNC '' @ master_replid (config s) @ '' '' @ int_str (master_offset (replica_reg s)) @ crlf @
     ''$'' @ nat_str (length rdb_payload) @ crlf @ rdb_payload"

lemma answer_handshake:
  "answer h \<lparr>ctype = Ping, cname = n, cargs = []\<rparr> s = Some (''+PONG'' @ crlf, s)"
  "answer h \<lparr>ctype = Replconf, cname = n, cargs = as\<rparr> s = Some (''+OK'' @ crlf, s)"
  "\<not> is_replica (config s) \<Longrightarrow> h_replicas (get_handler s h) \<Longrightarrow>
     answer h \<lparr>ctype = Psync, cname = n, cargs = [a, b]\<rparr> s = Some (psync_answer s, s)"
  by (simp_all add: answer_def exec_command_def exec_ping_def exec_replconf_def exec_psync_def with_args_def
      check_args_def psync_answer_def)

lemma exchange_answer:
  assumes "wf_resp v" "is_request v cmd" "last (sent t) = serialize v"
    and "handshake (ctype cmd) c (replica_reg s) = Inr (c', r)" "\<not> is_ack c' cmd" "conn_id c' = conn_id c"
    and "\<not> transactional (ctype cmd)" "\<not> is_write_command (ctype cmd)"
    and "\<not> in_transaction (get_tm s (choose_handler c' cmd))"
    and "registry_find (h_kind (get_handler s (choose_handler c' cmd))) (ctype cmd)"
    and "answer (choose_handler c' cmd) cmd (s\<lparr>replica_reg := r\<rparr>) = Some (rep, s\<lparr>replica_reg := r\<rparr>)"
    and "feed rep t = Inr t'"
  shows "exchange (c, s, t) = Some (c', s\<lparr>replica_reg := r, posted := posted s @ [(conn_id c, rep)]\<rparr>, t')"
proof -
  let ?s = "s\<lparr>replica_reg := r\<rparr>" and ?h = "choose_handler c' cmd"
  have fields: "get_tm ?s ?h = get_tm s ?h" "get_handler ?s ?h = get_handler s ?h"
    by (simp_all add: get_tm_def get_handler_def)
  have "handle ?h v (K_write (conn_id c)) ?s = Done (post_reply (reply_to ?h v cmd (K_write (conn_id c)) ?s) rep ?s)"
    by (rule handle_answer [OF assms(2,7) _ _ assms(11)]) (use assms(9,10) fields in simp_all)
  moreover have "on_request (serialize v) c (replica_reg s) = (Post ?h v, c', r)"
    using on_request_enc [OF assms(1)] assms(2,4,5) by (simp add: is_request_def)
  ultimately show ?thesis
    using assms(3,8,12) by (simp add: exchange_def serve_request_def reply_to_def sent_to_def)
qed

section \<open>The handshake\<close>

lemma handshake_requests:
  "parse_command (RespValue Array [] [Bulk ''PING'']) = Inr \<lparr>ctype = Ping, cname = ''PING'', cargs = []\<rparr>"
  "parse_command (RespValue Array [] (Bulk ''REPLCONF'' # map Bulk as)) = Inr \<lparr>ctype = Replconf, cname = ''REPLCONF'', cargs = as\<rparr>"
  "parse_command (RespValue Array [] [Bulk ''PSYNC'', Bulk a, Bulk b]) = Inr \<lparr>ctype = Psync, cname = ''PSYNC'', cargs = [a, b]\<rparr>"
proof -
  have "parse_type ''PING'' = Ping" "parse_type ''REPLCONF'' = Replconf" "parse_type ''PSYNC'' = Psync" by code_simp+
  then show "parse_command (RespValue Array [] [Bulk ''PING'']) = Inr \<lparr>ctype = Ping, cname = ''PING'', cargs = []\<rparr>"
    "parse_command (RespValue Array [] (Bulk ''REPLCONF'' # map Bulk as)) = Inr \<lparr>ctype = Replconf, cname = ''REPLCONF'', cargs = as\<rparr>"
    "parse_command (RespValue Array [] [Bulk ''PSYNC'', Bulk a, Bulk b]) = Inr \<lparr>ctype = Psync, cname = ''PSYNC'', cargs = [a, b]\<rparr>"
    by (simp_all add: parse_command_def comp_def)
qed

lemmas handshake_simps = handshake_requests is_request_def encode_array_def handshake_def is_ack_def choose_handler_def
  is_replication_command_def transactional_def is_write_command_def serves_handshake_def

lemma exchange_ping:
  assumes "serves_handshake c s" "mode c = ModeUnknown" "phase t = Ping_sent" "buf t = []" "last (sent t) = encode_array [''PING'']"
  shows "exchange (c, s, t) = Some (c\<lparr>repl_state := Pinged\<rparr>, s\<lparr>posted := posted s @ [(conn_id c, ''+PONG'' @ crlf)]\<rparr>,
    send_replconf_listening_port t)"
  using exchange_answer [where v = "RespValue Array [] (map Bulk [''PING''])" and cmd = "\<lparr>ctype = Ping, cname = ''PING'', cargs = []\<rparr>"
      and c = c and c' = "c\<lparr>repl_state := Pinged\<rparr>" and s = s and r = "replica_reg s", OF _ _ _ _ _ _ _ _ _ _ _ handshake_feeds(1) [OF assms(4,3)]]
    assms by (simp add: handshake_simps answer_handshake)

lemma exchange_replconf:
  assumes "serves_handshake c s" "mode c = ModeUnknown" "repl_state c \<noteq> NotStarted" "last (sent t) = encode_array (''REPLCONF'' # as)"
    and "wf_resp (RespValue Array [] (map Bulk (''REPLCONF'' # as)))" "feed (''+OK'' @ crlf) t = Inr t'"
  shows "exchange (c, s, t) =
    Some (c\<lparr>replconf_count := replconf_count c + 1, repl_state := (if replconf_count c + 1 \<ge> 2 then Replconf2 else Replconf1)\<rparr>,
      s\<lparr>posted := posted s @ [(conn_id c, ''+OK'' @ crlf)]\<rparr>, t')"
  using exchange_answer [where cmd = "\<lparr>ctype = Replconf, cname = ''REPLCONF'', cargs = as\<rparr>" and c = c and s = s and r = "replica_reg s"
      and c' = "c\<lparr>replconf_count := replconf_count c + 1, repl_state := (if replconf_count c + 1 \<ge> 2 then Replconf2 else Replconf1)\<rparr>",
      OF assms(5) _ _ _ _ _ _ _ _ _ _ assms(6)] assms
  by (simp add: handshake_simps answer_handshake Let_def del: serialize.simps)

lemma exchange_psync:
  assumes "serves_handshake c s" "mode c = ModeUnknown" "repl_state c = Replconf2" "\<not> registered_as_replica c"
    and "\<not> is_replica (config s)" "last (sent t) = encode_array [''PSYNC'', ''?'', ''-1'']" "add_replica (conn_id c) (replica_reg s) = (i, r)"
    and "feed (psync_answer s) t = Inr t'"
  shows "exchange (c, s, t) = Some (c\<lparr>mode := ModeReplication, registered_as_replica := True, replica_id := i\<rparr>,
    s\<lparr>replica_reg := r, posted := posted s @ [(conn_id c, psync_answer s)]\<rparr>, t')"
proof -
  have "psync_answer (s\<lparr>replica_reg := r\<rparr>) = psync_answer s"
    using assms(7) by (auto simp: psync_answer_def add_replica_def Let_def)
  moreover have "h_replicas (get_handler (s\<lparr>replica_reg := r\<rparr>) (replication_handler c))"
    using assms(1) by (simp add: serves_handshake_def get_handler_def)
  ultimately show ?thesis
    using exchange_answer [where v = "RespValue Array [] (map Bulk [''PSYNC'', ''?'', ''-1''])"
        and cmd = "\<lparr>ctype = Psync, cname = ''PSYNC'', cargs = [''?'', ''-1'']\<rparr>" and c = c and s = s and r = r
        and c' = "c\<lparr>mode := ModeReplication, registered_as_replica := True, replica_id := i\<rparr>",
        OF _ _ _ _ _ _ _ _ _ _ _ assms(8)] assms
    by (simp add: handshake_simps answer_handshake del: serialize.simps)
qed

lemma serves_handshake_more [simp]:
  "serves_handshake (c\<lparr>repl_state := x\<rparr>) s = serves_handshake c s"
  "serves_handshake (c\<lparr>replconf_count := n\<rparr>) s = serves_handshake c s"
  "serves_handshake c (s\<lparr>posted := ws\<rparr>) = serves_handshake c s"
  by (simp_all add: serves_handshake_def get_tm_def get_handler_def)

lemma feed_psync:
  assumes "buf t = []" "phase t = Psync_sent" "CR \<notin> set (master_replid (config s))"
    and "0 \<le> master_offset (replica_reg s)" "master_offset (replica_reg s) < 2 ^ 64"
  shows "feed (psync_answer s) t = Inr (start_command_loop (t\<lparr>replica_offset := of_int (master_offset (replica_reg s)), phase := Rdb_header\<rparr>))"
  using feed_psync_answer [OF assms, of rdb_payload] by (simp add: psync_answer_def rdb_payload_def)

lemma port_request: "wf_resp (RespValue Array [] (map Bulk [''REPLCONF'', ''listening-port'', nat_str (unat (port :: 16 word))]))"
  using length_nat_str [of "unat port" 4] unsigned_less [of port, where ?'a = nat] by simp

text \<open>
  C6. The handshake runs to its end: on a master, a new connection and a replica's session that
  exchange their messages without interference are done after four of them. The connection is then a
  registered replica that receives every propagated byte, the session waits for commands with
  nothing left to read, both agree on the offset, and the master's data is unchanged.
\<close>

theorem handshake_completes:
  assumes "serves_handshake (new_connection k h h') s" "\<not> is_replica (config s)" "CR \<notin> set (master_replid (config s))"
    and "0 \<le> master_offset (replica_reg s)" "master_offset (replica_reg s) < 2 ^ 64"
    and "registry_keys_ok (replica_reg s)" "linked (replica_reg s) k (new_connection k h h')"
  shows "\<exists>c' s' t'. exchanges 4 (new_connection k h h', s, start_session port) = Some (c', s', t') \<and>
    mode c' = ModeReplication \<and> serves (replica_id c') k (replica_reg s') \<and> store s' = store s \<and>
    phase t' = Command_loop \<and> buf t' = [] \<and> commands t' = [] \<and> replica_offset t' = of_int (master_offset (replica_reg s'))"
proof -
  let ?c0 = "new_connection k h h'" and ?t0 = "start_session port"
  let ?t1 = "send_replconf_listening_port ?t0"
  let ?t2 = "send_replconf_capa ?t1"
  let ?t3 = "send_psync ?t2"
  let ?c3 = "?c0\<lparr>repl_state := Replconf2, replconf_count := 2\<rparr>"
  let ?s3 = "s\<lparr>posted := posted s @ [(k, ''+PONG'' @ crlf), (k, ''+OK'' @ crlf), (k, ''+OK'' @ crlf)]\<rparr>"
  obtain i r where r: "add_replica k (replica_reg s) = (i, r)" by force
  let ?c4 = "?c3\<lparr>mode := ModeReplication, registered_as_replica := True, replica_id := i\<rparr>"
  let ?s4 = "?s3\<lparr>replica_reg := r, posted := posted ?s3 @ [(k, psync_answer ?s3)]\<rparr>"
  let ?t4 = "start_command_loop (?t3\<lparr>replica_offset := of_int (master_offset (replica_reg s)), phase := Rdb_header\<rparr>)"
  have c0: "mode ?c0 = ModeUnknown" "conn_id ?c0 = k" "replconf_count ?c0 = 0" "\<not> registered_as_replica ?c0"
    by (simp_all add: new_connection_def)
  have bufs: "buf ?t0 = []" "buf ?t1 = []" "buf ?t2 = []" "buf ?t3 = []"
    using keeps_buf_sends start_session_fields(2) by (simp_all add: keeps_buf_def)
  have sent: "last (sent ?t0) = encode_array [''PING'']" "last (sent ?t2) = encode_array [''REPLCONF'', ''capa'', ''psync2'']"
    "last (sent ?t1) = encode_array [''REPLCONF'', ''listening-port'', nat_str (unat (listening_port ?t0))]"
    "last (sent ?t3) = encode_array [''PSYNC'', ''?'', ''-1'']"
    by (simp_all add: start_session_def send_ping_def send_replconf_listening_port_def send_replconf_capa_def send_psync_def send_array_def)
  have e1: "exchange (?c0, s, ?t0) = Some (?c0\<lparr>repl_state := Pinged\<rparr>, s\<lparr>posted := posted s @ [(k, ''+PONG'' @ crlf)]\<rparr>, ?t1)"
    using exchange_ping [OF assms(1) c0(1) start_session_fields(1) bufs(1) sent(1)] c0(2) by simp
  have e2: "exchange (?c0\<lparr>repl_state := Pinged\<rparr>, s\<lparr>posted := posted s @ [(k, ''+PONG'' @ crlf)]\<rparr>, ?t1) =
      Some (?c0\<lparr>repl_state := Replconf1, replconf_count := 1\<rparr>, s\<lparr>posted := posted s @ [(k, ''+PONG'' @ crlf), (k, ''+OK'' @ crlf)]\<rparr>, ?t2)"
    using exchange_replconf [OF _ _ _ sent(3) port_request handshake_feeds(2) [OF bufs(2)]] assms(1) c0 by simp
  have e3: "exchange (?c0\<lparr>repl_state := Replconf1, replconf_count := 1\<rparr>, s\<lparr>posted := posted s @ [(k, ''+PONG'' @ crlf), (k, ''+OK'' @ crlf)]\<rparr>, ?t2) =
      Some (?c3, ?s3, ?t3)"
    using exchange_replconf [OF _ _ _ sent(2) _ handshake_feeds(3) [OF bufs(3)]] assms(1) c0 by simp
  have "feed (psync_answer ?s3) ?t3 = Inr ?t4" using feed_psync [OF bufs(4), of ?s3] assms(3-5) by simp
  then have "exchange (?c3, ?s3, ?t3) = Some (?c4, ?s4, ?t4)"
    using exchange_psync [of ?c3 ?s3 ?t3 i r ?t4] assms(1,2) c0 r sent(4) by simp
  with e1 e2 e3 have run: "exchanges 4 (?c0, s, ?t0) = Some (?c4, ?s4, ?t4)" by (simp add: numeral_eq_Suc)
  have "master_offset r = master_offset (replica_reg s)" using r by (auto simp: add_replica_def Let_def)
  moreover have "serves i k r"
    using assms(6,7) registry_keys_add [of "replica_reg s" k] linked_add(1) [OF assms(6) r] r linked_serves [of r k ?c4] c0
    by (simp add: linked_def)
  moreover have "commands ?t4 = []"
    using start_session_fields(3) by (simp add: start_command_loop_def send_psync_def send_replconf_capa_def send_replconf_listening_port_def)
  ultimately show ?thesis using run bufs(4) by (intro exI [of _ ?c4] exI [of _ ?s4] exI [of _ ?t4]) (simp add: start_command_loop_def)
qed

theorem handshake_completes_witness:
  "\<exists>c' s' t'. exchanges 4 (new_connection 5 0 1, srv first_connection, start_session 7) = Some (c', s', t') \<and>
    mode c' = ModeReplication \<and> phase t' = Command_loop \<and> replica_offset t' = of_int (master_offset (replica_reg s'))"
proof -
  have "length replid_chars = 62 \<and> CR \<notin> set replid_chars" by code_simp
  then have "CR \<notin> set (generate_replid (\<lambda>i. i mod 62) 0)" using replid_alphabet(1) [of "\<lambda>i. i mod 62" 0] by auto
  then have "serves_handshake (new_connection 5 0 1) (srv first_connection) \<and> \<not> is_replica (config (srv first_connection)) \<and>
      CR \<notin> set (master_replid (config (srv first_connection))) \<and> replica_reg (srv first_connection) = empty_replicas"
    by (simp add: serves_handshake_def first_connection_def open_connection_def boot_def init_system_def startup_def master_config_def init_server_def new_connection_def
        accept_connection_def get_handler_def get_tm_def empty_tm_def)
  moreover have "registry_keys_ok empty_replicas" "linked empty_replicas 5 (new_connection 5 0 1)" "master_offset empty_replicas = 0"
    by (simp_all add: registry_keys_ok_def linked_def new_connection_def empty_replicas_def)
  ultimately show ?thesis using handshake_completes [of 5 0 1 "srv first_connection" 7] by auto
qed

section \<open>The handshake under interference\<close>

text \<open>A session that waits for the answer to PSYNC stops at the first line of any request.\<close>

lemma request_stops_session:
  assumes "wf_resp w" "rtype w = Array" "elements w \<noteq> []" "phase t = Psync_sent" "buf t = []"
  shows "\<exists>t'. feed (serialize w @ rest) t = Inr t' \<and> phase t' = Stopped"
proof -
  let ?l = "CHR ''*'' # nat_str (length (elements w))" and ?b = "concat (map serialize (elements w))"
  obtain v vs where v: "elements w = v # vs" using assms(3) by (cases "elements w") auto
  have w: "serialize w = ?l @ crlf @ ?b" using assms(1,2) by (cases w) auto
  have "find_crlf ?l = None" by (cases "nat_str (length (elements w))") (use nat_str_no_crlf [of "length (elements w)"] in auto)
  then have line: "find_crlf (serialize w @ rest) = Some (length ?l)"
    using find_crlf_append [of ?l "?b @ rest"] by (simp add: w)
  have "?b \<noteq> []" using v by (cases v; cases "rtype v") (auto simp: bulk_reply_def)
  then have "strict_prefix (?l @ crlf) (serialize w)" by (simp add: w strict_prefix_def)
  with resp.dec_short [OF assms(1)] have "parse (?l @ crlf) = Inr None" by simp
  moreover have "take (length ?l + 2) (serialize w @ rest) = ?l @ crlf" by (simp add: w)
  ultimately have "\<exists>t'. advance (t\<lparr>buf := serialize w @ rest\<rparr>) = Inr (Some t') \<and> phase t' = Stopped"
    using line assms(4) by (simp add: advance_def read_reply_def Let_def)
  then obtain t' where t': "advance (t\<lparr>buf := serialize w @ rest\<rparr>) = Inr (Some t')" "phase t' = Stopped" by blast
  have "drain t' = Inr t'" using t'(2) by (subst drain.simps) (simp add: advance_def)
  with t' assms(5) show ?thesis by (simp add: feed_def drain.simps [of "t\<lparr>buf := serialize w @ rest\<rparr>"])
qed

text \<open>
  C29. A replica can fail to synchronise: the network thread registers the connection when it reads
  PSYNC, while the answer to PSYNC waits on the store thread behind the requests that are already
  posted. If one of them is a write, the replica receives the write before the answer, and its
  session, which expects the answer, stops, whatever follows.
\<close>

theorem sync_race:
  assumes "links_ok y" "um_find (conns y) k = Some c" "mode c = ModeUnknown" "repl_state c = Replconf2"
    and "queue y = [(K_write k2, h2, w)]" "k2 \<noteq> k" "is_request w cmd" "wf_resp w" "is_write_command (ctype cmd)"
    and "ready h2 (srv y)" "h_replicas (get_handler (srv y) h2)"
    and "complete_read (encode_array [''PSYNC'', ''?'', ''-1'']) c y = Some y1" "answer h2 cmd (srv y1) = Some (r, s')"
    and "phase t = Psync_sent" "buf t = []"
  shows "\<exists>y2 psync. run_task y1 = Some y2 \<and> queue y2 = [(K_write k, replication_handler c, psync)] \<and>
    sent_to k (posted (srv y2)) = sent_to k (posted (srv y)) @ serialize w \<and>
    (\<exists>t'. feed (serialize w @ rest) t = Inr t' \<and> phase t' = Stopped)"
proof -
  let ?v = "RespValue Array [] (map Bulk [''PSYNC'', ''?'', ''-1''])"
  have c: "registry_keys_ok (replica_reg (srv y))" "linked (replica_reg (srv y)) k c" "conn_id c = k" "\<not> registered_as_replica c"
    using assms(1-3) by (auto simp: links_ok_def linked_def)
  obtain i r1 where r1: "add_replica k (replica_reg (srv y)) = (i, r1)" by force
  let ?c1 = "c\<lparr>mode := ModeReplication, registered_as_replica := True, replica_id := i\<rparr>"
  have hs: "handshake Psync c (replica_reg (srv y)) = Inr (?c1, r1)" using c(3,4) assms(3,4) r1 by (simp add: handshake_def)
  then have "on_request (serialize ?v) c (replica_reg (srv y)) = (Post (replication_handler c) ?v, ?c1, r1)"
    using on_request_enc [of ?v] handshake_requests(3) by (simp add: is_ack_def choose_handler_def del: serialize.simps)
  then have y1: "srv y1 = (srv y)\<lparr>replica_reg := r1\<rparr>" "queue y1 = [(K_write k2, h2, w), (K_write k, replication_handler c, ?v)]"
    using assms(5,12) c(3) by (auto simp: complete_read_def encode_array_def simp del: serialize.simps)
  have serves: "serves i k r1" using handshake_linked [OF c(1,2) hs] linked_serves [of r1 k ?c1] by simp
  have w: "\<not> transactional (ctype cmd)" "registry_find ClientRegistry (ctype cmd)"
    using assms(9) by (auto simp: is_write_command_def transactional_def)
  have h: "get_handler (srv y1) h2 = get_handler (srv y) h2" "get_tm (srv y1) h2 = get_tm (srv y) h2"
    by (simp_all add: y1 get_handler_def get_tm_def)
  then have "handle h2 w (K_write k2) (srv y1) = Done (post_reply (K_propagate (K_write k2) (serialize w)) r s')"
    using handle_answer [OF assms(7) w(1) _ _ assms(13), of "K_write k2"] w(2) assms(9-11) by (simp add: ready_def reply_to_def)
  then have "run_task y1 = Some (y1\<lparr>srv := post_propagate (serialize w) (s'\<lparr>posted := posted s' @ [(k2, r)]\<rparr>), queue := tl (queue y1)\<rparr>)"
    by (simp add: run_task_def y1(2))
  moreover have "posted s' = posted (srv y)" "replica_reg s' = r1"
    using answer_unposted [OF assms(13) w(1)] y1(1) by simp_all
  moreover have "\<exists>t'. feed (serialize w @ rest) t = Inr t' \<and> phase t' = Stopped"
    using request_stops_session [OF assms(8) _ _ assms(14,15)] assms(7) by (auto simp: is_request_def parse_command_def split: list.splits)
  ultimately show ?thesis
    using sent_to_propagate [OF serves, of "serialize w"] assms(6) y1(2)
    by (simp add: post_propagate_def sent_to_def case_prod_beta)
qed

text \<open>A replica on connection 5 that has sent everything but PSYNC, and a client's posted SET.\<close>

definition racing :: system where
  "racing = \<lparr>srv = two_clients, conns = um_put 5 ((new_connection 5 0 1)\<lparr>repl_state := Replconf2, replconf_count := 2\<rparr>) [],
     queue = [(K_write 7, 2, bulk_request [''SET'', ''a'', ''1''])], own_port = 6379, master_link = None\<rparr>"

theorem sync_race_witness:
  "\<exists>y1 y2 t'. complete_read (encode_array [''PSYNC'', ''?'', ''-1'']) ((new_connection 5 0 1)\<lparr>repl_state := Replconf2, replconf_count := 2\<rparr>) racing = Some y1 \<and>
    run_task y1 = Some y2 \<and> sent_to 5 (posted (srv y2)) = serialize (bulk_request [''SET'', ''a'', ''1'']) \<and>
    feed (sent_to 5 (posted (srv y2))) ((start_session 7)\<lparr>phase := Psync_sent\<rparr>) = Inr t' \<and> phase t' = Stopped"
proof -
  let ?c = "(new_connection 5 0 1)\<lparr>repl_state := Replconf2, replconf_count := 2\<rparr>" and ?w = "bulk_request [''SET'', ''a'', ''1'']"
  let ?v = "RespValue Array [] (map Bulk [''PSYNC'', ''?'', ''-1''])"
  have y: "links_ok racing" "um_find (conns racing) 5 = Some ?c" "ready 2 (srv racing)" "h_replicas (get_handler (srv racing) 2)"
    "posted (srv racing) = []" "queue racing = [(K_write 7, 2, ?w)]"
    by (simp_all add: racing_def links_ok_def linked_def registry_keys_ok_def ready_def two_clients_def accept_connection_def
        init_server_def new_connection_def empty_replicas_def get_handler_def get_tm_def empty_tm_def)
  have w: "is_request ?w \<lparr>ctype = Set, cname = ''SET'', cargs = [''a'', ''1'']\<rparr>" "wf_resp ?w"
    using is_bulk_request [of "''SET''" "[''a'', ''1'']"] by (simp_all add: bulk_request_def)
  have "\<exists>h c' r. on_request (serialize ?v) ?c (replica_reg (srv racing)) = (Post h ?v, c', r)"
    using on_request_enc [of ?v] handshake_requests(3)
    by (simp add: handshake_def new_connection_def is_ack_def add_replica_def Let_def del: serialize.simps)
  then obtain y1 where y1: "complete_read (encode_array [''PSYNC'', ''?'', ''-1'']) ?c racing = Some y1"
    by (auto simp: complete_read_def encode_array_def simp del: serialize.simps)
  from sync_race [OF y(1,2) _ _ y(6) _ w _ y(3,4) y1 answer_set, of "(start_session 7)\<lparr>phase := Psync_sent\<rparr>" "[]"] y1 y(5)
  show ?thesis by (auto simp: new_connection_def is_write_command_def start_session_fields)
qed

end
