(* ===== verification/Replica_Pair.thy ===== *)
theory Replica_Pair
  imports Replication_System
begin

text \<open>
  Master and replica as two processes joined by a connection. The master serves writes, reads and WAIT
  of its clients, the connection delivers what was written to it in pieces of any size, the replica's
  session posts the commands that are complete, the replica's store thread runs them between reads of
  its own clients, and acknowledgements go back. All of this interleaves in any way.
\<close>

section \<open>Commands that only read\<close>

definition query :: "command \<Rightarrow> bool" where
  "query cmd \<longleftrightarrow> ctype cmd \<in> {Ping, Info, Echo, Get, TypeCmd, LRange, LLen, XRange}"

lemma query_result:
  assumes "query cmd" "timeless (store s)"
  shows "(\<exists>r. exec_command h cmd k s = reply k r s) \<or> (\<exists>r. exec_command h cmd k s = Next [F_reply k r, F_catch k] s) \<or>
    (\<exists>e. exec_command h cmd k s = Throw e s)"
proof -
  have "\<not> expired now v" if "um_find (store s) key = Some v" for now v key
    using assms(2) that by (auto simp: timeless_def expired_def)
  then have "snd (string_get now (store s) key) = store s" "snd (store_type_at now (store s) key) = store s" for now key
    by (auto simp: string_get_def store_type_at_def split: option.split value_variant.split)
  then obtain a t where "string_get (clock s) (store s) (cargs cmd ! 0) = (a, store s)"
      "store_type_at (clock s) (store s) (cargs cmd ! 0) = (t, store s)"
    by (metis prod.collapse)
  moreover define Q where
    "Q x \<longleftrightarrow> (\<exists>r. x = reply k r s) \<or> (\<exists>r. x = Next [F_reply k r, F_catch k] s) \<or> (\<exists>e. x = Throw e s)" for x
  have "Q (reply k r s)" "Q (Next [F_reply k r, F_catch k] s)" "Q (Throw e s)" for r e by (auto simp: Q_def)
  ultimately have "Q (exec_command h cmd k s)"
    using assms(1) unfolding query_def
    by (auto simp: exec_command_def exec_ping_def exec_info_def exec_echo_def exec_get_def exec_type_def exec_lrange_def exec_llen_def
        exec_xrange_def catch_reply_def with_args_def Let_def split: list.split sum.split option.split)
  then show ?thesis by (simp add: Q_def)
qed

lemma handle_query:
  assumes "is_request q cmd" "query cmd" "timeless (store s)" "ready h s" "handle h q (K_write c) s = Done s'"
  shows "\<exists>r. s' = s\<lparr>posted := posted s @ [(c, r)]\<rparr>"
proof -
  have "reply_to h q cmd (K_write c) s = K_write c" "\<not> transactional (ctype cmd)" "registry_find ClientRegistry (ctype cmd)"
    using assms(2) by (auto simp: query_def reply_to_def transactional_def is_write_command_def)
  then have h: "handle h q (K_write c) s = finish (exec_command h cmd (K_write c) s)"
    using handle_command [OF assms(1), of s h "K_write c"] assms(4) by (simp add: ready_def)
  have "run [F_catch k] s = Done s" for k s using run_Next [of "F_catch k" s "[]" s "[]"] by simp
  with query_result [OF assms(2,3), of h "K_write c"] h assms(5) show ?thesis by (auto simp: run_reply)
qed

lemma side_run:
  "run [F_poll target n deadline k] s = finish (wait_poll target n deadline k s)"
  by (cases "wait_poll target n deadline k s") (simp_all add: run.simps [of "[F_poll target n deadline k]"])

text \<open>
  What such commands, WAIT and the polls of WAIT leave of a server: replies to the client, perhaps a GETACK
  to the replicas before them, perhaps a timer.
\<close>

definition keeps_data :: "nat \<Rightarrow> server \<Rightarrow> server \<Rightarrow> bool" where
  "keeps_data c s s' \<longleftrightarrow> store s' = store s \<and> blpop_reg s' = blpop_reg s \<and> xread_reg s' = xread_reg s \<and> handlers s' = handlers s \<and>
     (\<exists>ws rs. posted s' = posted s @ ws @ map (Pair c) rs \<and>
        (ws = [] \<and> replica_reg s' = replica_reg s \<or> (ws, replica_reg s') = exec_replica Op_getack (replica_reg s)))"

lemma keeps_dataI:
  assumes "posted s' = posted s @ map (Pair c) rs" "replica_reg s' = replica_reg s" "store s' = store s"
    and "blpop_reg s' = blpop_reg s" "xread_reg s' = xread_reg s" "handlers s' = handlers s"
  shows "keeps_data c s s'"
  unfolding keeps_data_def using assms by (intro conjI exI [of _ "[]"] exI [of _ rs]) simp_all

lemma keeps_data_reply: "keeps_data c s (s\<lparr>posted := posted s @ [(c, r)]\<rparr>)"
  by (rule keeps_dataI [of _ _ _ "[r]"]) simp_all

lemma poll_effect:
  assumes "run [F_poll target n deadline (K_write c)] s = Done s'"
  obtains rs where "posted s' = posted s @ map (Pair c) rs" "replica_reg s' = replica_reg s" "store s' = store s"
    "blpop_reg s' = blpop_reg s" "xread_reg s' = xread_reg s" "handlers s' = handlers s"
proof -
  have "finish (wait_poll target n deadline (K_write c) s) = Done s'" using assms by (simp add: side_run)
  then consider r where "s' = s\<lparr>posted := posted s @ [(c, r)]\<rparr>" | a t where "s' = new_timer a t s"
    by (auto simp: wait_poll_def Let_def run_reply split: if_splits)
  then show thesis
  proof cases
    case (1 r)
    then show ?thesis by (intro that [of "[r]"]) simp_all
  next
    case (2 a t)
    then show ?thesis by (intro that [of "[]"]) (simp_all add: new_timer_def)
  qed
qed

lemma keeps_data_poll: "run [F_poll target n deadline (K_write c)] s = Done s' \<Longrightarrow> keeps_data c s s'"
  by (erule poll_effect) (rule keeps_dataI)

lemma keeps_data_wait:
  assumes "finish (exec_wait h cmd (K_write c) s) = Done s'"
  shows "keeps_data c s s'"
proof -
  have ask: "keeps_data c s s'"
    if g: "request_getack (replica_reg s) = (ws, r)" and p: "run [F_poll target n deadline (K_write c)] (s\<lparr>replica_reg := r, posted := posted s @ ws\<rparr>) = Done s'"
    for ws r target n deadline
  proof -
    obtain rs where "posted s' = (posted s @ ws) @ map (Pair c) rs" "replica_reg s' = r" "store s' = store s"
        "blpop_reg s' = blpop_reg s" "xread_reg s' = xread_reg s" "handlers s' = handlers s"
      using poll_effect [OF p] by auto
    then show ?thesis unfolding keeps_data_def using g by (intro conjI exI [of _ ws] exI [of _ rs]) simp_all
  qed
  show ?thesis
    using assms
    by (auto simp: exec_wait_def Let_def keeps_data_reply split: if_splits option.splits sum.splits prod.splits intro: ask)
qed

text \<open>A request of a client that leaves the data alone.\<close>

definition side_request :: "server \<Rightarrow> nat \<Rightarrow> resp_value \<Rightarrow> bool" where
  "side_request s h q \<longleftrightarrow> ready h s \<and> (\<exists>cmd. is_request q cmd \<and> (query cmd \<or> ctype cmd = Wait))"

lemma handle_side:
  assumes "side_request s h q" "timeless (store s)" "handle h q (K_write c) s = Done s'"
  shows "keeps_data c s s'"
proof -
  obtain cmd where q: "is_request q cmd" "query cmd \<or> ctype cmd = Wait" and r: "ready h s"
    using assms(1) by (auto simp: side_request_def)
  from q(2) show ?thesis
  proof
    assume "query cmd"
    then show ?thesis using handle_query [OF q(1) _ assms(2) r assms(3)] keeps_data_reply by metis
  next
    assume "ctype cmd = Wait"
    then show ?thesis
      using handle_command [OF q(1), of s h "K_write c"] r assms(3)
      by (intro keeps_data_wait [of h cmd]) (simp_all add: ready_def transactional_def reply_to_def is_write_command_def exec_command_def)
  qed
qed

section \<open>Two processes\<close>

text \<open>
  \<open>delivered\<close> counts the bytes of the connection that have reached the replica. \<open>past\<close> is a history
  variable: the data of the master at the start and after each of its writes.
\<close>

record pair =
  mst :: system
  rep :: system
  delivered :: nat
  past :: "data list"

definition in_flight :: "nat \<Rightarrow> pair \<Rightarrow> string" where
  "in_flight conn p = drop (delivered p) (sent_to conn (posted (srv (mst p))))"

definition ack_message :: "64 word \<Rightarrow> string" where
  "ack_message w = encode_array [''REPLCONF'', ''ACK'', nat_str (unat w)]"

inductive pair_step :: "nat \<Rightarrow> pair \<Rightarrow> pair \<Rightarrow> bool" for conn where
  master_writes: "queue (mst p) = (K_write c, h, q) # tasks \<Longrightarrow> client_write conn (srv (mst p)) (h, c, q) \<Longrightarrow>
    run_task (mst p) = Some m \<Longrightarrow> pair_step conn p (p\<lparr>mst := m, past := past p @ [store (srv m)]\<rparr>)"
| master_answers: "queue (mst p) = (K_write c, h, q) # tasks \<Longrightarrow> side_request (srv (mst p)) h q \<Longrightarrow> c \<noteq> conn \<Longrightarrow>
    run_task (mst p) = Some m \<Longrightarrow> pair_step conn p (p\<lparr>mst := m\<rparr>)"
| master_polls: "um_find (timers (srv (mst p))) i = Some t \<Longrightarrow> t_task t = T_poll target n deadline (K_write c) \<Longrightarrow> c \<noteq> conn \<Longrightarrow>
    fire_timer i (srv (mst p)) = Done s \<Longrightarrow> pair_step conn p (p\<lparr>mst := (mst p)\<lparr>srv := s\<rparr>\<rparr>)"
| master_timer: "pair_step conn p (p\<lparr>mst := (mst p)\<lparr>srv := expire_timer i (srv (mst p))\<rparr>\<rparr>)"
| master_reads: "um_find (conns (mst p)) k = Some c \<Longrightarrow> conn_id c \<noteq> conn \<Longrightarrow> complete_read request c (mst p) = Some m \<Longrightarrow>
    pair_step conn p (p\<lparr>mst := m\<rparr>)"
| ack_arrives: "master_link (rep p) = Some (g, t) \<Longrightarrow> ack_message w \<in> set (sent t) \<Longrightarrow> um_find (conns (mst p)) conn = Some c \<Longrightarrow>
    complete_read (ack_message w) c (mst p) = Some m \<Longrightarrow> pair_step conn p (p\<lparr>mst := m\<rparr>)"
| delivers: "prefix chunk (in_flight conn p) \<Longrightarrow> session_read chunk (rep p) = Some r \<Longrightarrow>
    pair_step conn p (p\<lparr>rep := r, delivered := delivered p + length chunk\<rparr>)"
| replica_runs: "queue (rep p) = (K_ignore, h, q) # tasks \<Longrightarrow> run_task (rep p) = Some r \<Longrightarrow> pair_step conn p (p\<lparr>rep := r\<rparr>)"
| replica_answers: "queue (rep p) = (K_write c, h, q) # tasks \<Longrightarrow> side_request (srv (rep p)) h q \<Longrightarrow>
    run_task (rep p) = Some r \<Longrightarrow> pair_step conn p (p\<lparr>rep := r\<rparr>)"
| replica_reads: "um_find (conns (rep p)) k = Some c \<Longrightarrow> complete_read request c (rep p) = Some r \<Longrightarrow> pair_step conn p (p\<lparr>rep := r\<rparr>)"
| replica_acks: "pair_step conn p (p\<lparr>rep := session_ack (rep p)\<rparr>)"
| time_passes: "clock (srv (mst p)) \<le> t \<Longrightarrow> in_ll w \<Longrightarrow> clock (srv (rep p)) \<le> t' \<Longrightarrow> in_ll w' \<Longrightarrow>
    pair_step conn p (p\<lparr>mst := (mst p)\<lparr>srv := (srv (mst p))\<lparr>clock := t, wall := w\<rparr>\<rparr>,
      rep := (rep p)\<lparr>srv := (srv (rep p))\<lparr>clock := t', wall := w'\<rparr>\<rparr>\<rparr>)"

text \<open>Each of them is a step of the two processes.\<close>

lemma pair_step_net:
  "pair_step conn p p' \<Longrightarrow> net_step\<^sup>*\<^sup>* (mst p) (mst p') \<and> net_step\<^sup>*\<^sup>* (rep p) (rep p')"
  by (induction rule: pair_step.induct) (auto intro!: r_into_rtranclp intro: net_step.intros)

section \<open>The link\<close>

text \<open>
  \<open>rest\<close> are the commands that the session has still to take: from the bytes that it has buffered and
  those that are on their way.
\<close>

definition link_ok :: "nat \<Rightarrow> pair \<Rightarrow> session \<Rightarrow> resp_value list \<Rightarrow> bool" where
  "link_ok conn p t rest \<longleftrightarrow> phase t = Command_loop \<and> delivered p \<le> length (sent_to conn (posted (srv (mst p)))) \<and>
     buf t @ in_flight conn p = concat (map serialize rest) \<and> list_all wf_resp rest \<and>
     (buf t = [] \<or> rest \<noteq> [] \<and> strict_prefix (buf t) (serialize (hd rest))) \<and>
     int (length (buf t @ in_flight conn p)) \<le> master_offset (replica_reg (srv (mst p))) \<and>
     of_int (master_offset (replica_reg (srv (mst p)))) = replica_offset t + of_nat (length (buf t @ in_flight conn p))"

lemma link_ok_cong:
  assumes "link_ok conn p t rest" "mst p' = mst p" "delivered p' = delivered p"
    and "phase t' = phase t" "buf t' = buf t" "replica_offset t' = replica_offset t"
  shows "link_ok conn p' t' rest"
  using assms(1) unfolding link_ok_def in_flight_def assms(2-6) .

definition emits :: "nat \<Rightarrow> server \<Rightarrow> resp_value list \<Rightarrow> server \<Rightarrow> bool" where
  "emits conn s qs s' \<longleftrightarrow> sent_to conn (posted s') = sent_to conn (posted s) @ concat (map serialize qs) \<and>
     master_offset (replica_reg s') = master_offset (replica_reg s) + int (length (concat (map serialize qs)))"

lemma in_flight_emits:
  assumes "link_ok conn p t rest" "emits conn (srv (mst p)) qs (srv (mst p'))" "delivered p' = delivered p"
  shows "in_flight conn p' = in_flight conn p @ concat (map serialize qs)"
  using assms by (simp add: in_flight_def link_ok_def emits_def)

lemma link_emits:
  assumes "link_ok conn p t rest" "emits conn (srv (mst p)) qs (srv (mst p'))" "delivered p' = delivered p" "list_all wf_resp qs"
  shows "link_ok conn p' t (rest @ qs)"
proof -
  note f = in_flight_emits [OF assms(1-3)]
  have "of_int (master_offset (replica_reg (srv (mst p')))) =
      (of_int (master_offset (replica_reg (srv (mst p)))) :: 64 word) + of_nat (length (concat (map serialize qs)))"
    using assms(2) by (simp add: emits_def)
  with assms f show ?thesis by (auto simp: link_ok_def emits_def add.assoc)
qed

lemma prefix_concat_split:
  assumes "prefix b (concat xs)"
  shows "\<exists>ys zs u. xs = ys @ zs \<and> b = concat ys @ u \<and> (u = [] \<or> zs \<noteq> [] \<and> strict_prefix u (hd zs))"
  using assms
proof (induction xs arbitrary: b)
  case (Cons x xs)
  show ?case
  proof (cases "prefix x b")
    case True
    then obtain b' where b: "b = x @ b'" by (auto simp: prefix_def)
    with Cons.prems have "prefix b' (concat xs)" by simp
    then obtain ys zs u where "xs = ys @ zs" "b' = concat ys @ u" "u = [] \<or> zs \<noteq> [] \<and> strict_prefix u (hd zs)"
      using Cons.IH by blast
    with b show ?thesis by (intro exI [of _ "x # ys"] exI [of _ zs] exI [of _ u]) simp
  next
    case False
    have "prefix b (x @ concat xs)" "prefix x (x @ concat xs)" using Cons.prems by simp_all
    then have "prefix b x" using False prefix_same_cases by blast
    with False have "strict_prefix b x" by (auto simp: strict_prefix_def)
    then show ?thesis by (intro exI [of _ "[]"] exI [of _ "x # xs"] exI [of _ b]) simp
  qed
qed simp

text \<open>A piece of the stream completes the next commands; what is left of it waits in the buffer.\<close>

lemma link_feed:
  assumes "link_ok conn p t rest" "prefix chunk (in_flight conn p)" "mst p' = mst p" "delivered p' = delivered p + length chunk"
  obtains qs rest' t' where "rest = qs @ rest'" "feed chunk t = Inr t'" "commands t' = commands t @ filter (\<lambda>q. \<not> is_getack q) qs"
    "link_ok conn p' t' rest'" "sent t' = sent (foldl take_command (t\<lparr>buf := []\<rparr>) (map (\<lambda>v. (v, length (serialize v))) qs))"
proof -
  have l: "phase t = Command_loop" "buf t @ in_flight conn p = concat (map serialize rest)" "list_all wf_resp rest"
      "delivered p \<le> length (sent_to conn (posted (srv (mst p))))"
    and off: "of_int (master_offset (replica_reg (srv (mst p)))) = replica_offset t + of_nat (length (buf t @ in_flight conn p))"
      "int (length (buf t @ in_flight conn p)) \<le> master_offset (replica_reg (srv (mst p)))"
    using assms(1) unfolding link_ok_def by blast+
  obtain fl where fl: "in_flight conn p = chunk @ fl" using assms(2) by (auto simp: prefix_def)
  have "prefix (buf t @ chunk) (concat (map serialize rest))" using l(2) fl by (metis append.assoc prefixI)
  then obtain ys zs u where s: "map serialize rest = ys @ zs" "buf t @ chunk = concat ys @ u"
      "u = [] \<or> zs \<noteq> [] \<and> strict_prefix u (hd zs)"
    using prefix_concat_split by blast
  then obtain qs rest' where r: "rest = qs @ rest'" "ys = map serialize qs" "zs = map serialize rest'"
    by (metis map_eq_append_conv)
  have u: "u = [] \<or> rest' \<noteq> [] \<and> strict_prefix u (serialize (hd rest'))" using s(3) r(3) by (auto simp: hd_map)
  have wf: "list_all wf_resp qs" "rest' \<noteq> [] \<longrightarrow> wf_resp (hd rest')" using l(3) r(1) by (auto simp: list_all_iff)
  let ?t = "t\<lparr>buf := []\<rparr>" and ?vs = "map (\<lambda>v. (v, length (serialize v))) qs"
  let ?t' = "(foldl take_command ?t ?vs)\<lparr>buf := u\<rparr>"
  have "feed (concat (map serialize qs) @ u) ?t = Inr ?t'"
    using u wf by (intro feed_commands [of ?t qs u "hd rest'"]) (auto simp: l(1))
  then have "feed chunk t = Inr ?t'" using s(2) r(2) by (simp add: feed_def)
  moreover note f = foldl_take_command [of ?t ?vs]
  have "link_ok conn p' ?t' rest'"
  proof -
    have fl': "in_flight conn p' = fl" using fl assms(3,4) by (simp add: in_flight_def add.commute flip: drop_drop)
    have "length chunk \<le> length (in_flight conn p)" using fl by simp
    then have d: "delivered p' \<le> length (sent_to conn (posted (srv (mst p'))))" using assms(3,4) l(4) by (simp add: in_flight_def)
    have "(buf t @ chunk) @ fl = concat (ys @ zs)" using l(2) fl s(1) by simp
    then have stream: "u @ fl = concat (map serialize rest')" using s(2) r(3) by simp
    have "length (buf t @ in_flight conn p) = length (buf t @ chunk) + length fl" by (simp add: fl)
    then have len: "length (buf t @ in_flight conn p) = sum_list (map snd ?vs) + length (u @ fl)"
      by (simp add: s(2) r(2) length_concat comp_def)
    then have "int (length (u @ fl)) \<le> master_offset (replica_reg (srv (mst p)))" using off(2) by linarith
    moreover have "replica_offset ?t' = replica_offset t + of_nat (sum_list (map snd ?vs))" using f by simp
    then have "of_int (master_offset (replica_reg (srv (mst p)))) = replica_offset ?t' + of_nat (length (u @ fl))"
      using off(1) by (simp only: len of_nat_add add.assoc)
    ultimately show ?thesis using assms(3) stream fl' d u f l(1,3) r(1) by (simp add: link_ok_def)
  qed
  ultimately show thesis using f r(1) by (intro that [of qs rest' ?t']) (simp_all add: comp_def)
qed

section \<open>The data\<close>

text \<open>A request turns the data \<open>d\<close> of any idle server into \<open>d'\<close>.\<close>

definition applies :: "resp_value \<Rightarrow> data \<Rightarrow> data \<Rightarrow> bool" where
  "applies q d d' \<longleftrightarrow> timeless d' \<and> (\<forall>g x. store x = d \<longrightarrow> idle x \<longrightarrow> ready g x \<longrightarrow>
     (\<exists>x1. handle g q K_ignore x = Done x1 \<and> store x1 = d' \<and> idle x1 \<and> ready g x1))"

fun follows :: "data \<Rightarrow> resp_value list \<Rightarrow> data list \<Rightarrow> bool" where
  "follows d [] ds \<longleftrightarrow> ds = []"
| "follows d (q # qs) ds \<longleftrightarrow> (\<exists>d' ds'. ds = d' # ds' \<and> applies q d d' \<and> follows d' qs ds')"

lemma follows_length: "follows d qs ds \<Longrightarrow> length ds = length qs"
  by (induction d qs ds rule: follows.induct) auto

lemma follows_snoc: "follows d qs ds \<Longrightarrow> applies q (last (d # ds)) d' \<Longrightarrow> follows d (qs @ [q]) (ds @ [d'])"
  by (induction d qs ds rule: follows.induct) (auto split: if_splits)

text \<open>The data of the replica is one that the master had, as many writes ago as the replica has to take or run.\<close>

definition data_ok :: "pair \<Rightarrow> resp_value list \<Rightarrow> bool" where
  "data_ok p todo \<longleftrightarrow> (\<exists>old ds. past p = old @ store (srv (rep p)) # ds \<and> follows (store (srv (rep p))) todo ds \<and>
     last (store (srv (rep p)) # ds) = store (srv (mst p)))"

definition replica_ok :: "nat \<Rightarrow> system \<Rightarrow> bool" where
  "replica_ok g r \<longleftrightarrow> idle (srv r) \<and> timeless (store (srv r)) \<and> ready g (srv r) \<and> (\<forall>h q. (K_ignore, h, q) \<in> set (queue r) \<longrightarrow> h = g)"

definition master_ok :: "nat \<Rightarrow> nat \<Rightarrow> system \<Rightarrow> bool" where
  "master_ok i conn m \<longleftrightarrow> master_ready i conn (srv m) \<and>
     (\<forall>c. um_find (conns m) conn = Some c \<longrightarrow> mode c = ModeReplication \<and> replica_id c = i \<and> conn_id c = conn)"

definition real_commands :: "resp_value list \<Rightarrow> resp_value list" where
  "real_commands = filter (\<lambda>q. \<not> is_getack q)"

definition pair_ok :: "nat \<Rightarrow> nat \<Rightarrow> pair \<Rightarrow> bool" where
  "pair_ok i conn p \<longleftrightarrow> (\<exists>g t rest. master_link (rep p) = Some (g, t) \<and> master_ok i conn (mst p) \<and> replica_ok g (rep p) \<and>
     link_ok conn p t rest \<and> data_ok p (session_tasks (rep p) @ real_commands rest))"

text \<open>Steps of the master.\<close>

lemma master_aside:
  assumes "pair_ok i conn p" "master_ok i conn m" "emits conn (srv (mst p)) qs (srv m)" "list_all wf_resp qs" "real_commands qs = []"
    and "store (srv m) = store (srv (mst p))"
  shows "pair_ok i conn (p\<lparr>mst := m\<rparr>)"
proof -
  obtain g t rest where p: "master_link (rep p) = Some (g, t)" "replica_ok g (rep p)" "link_ok conn p t rest"
      "data_ok p (session_tasks (rep p) @ real_commands rest)"
    using assms(1) by (auto simp: pair_ok_def)
  have "link_ok conn (p\<lparr>mst := m\<rparr>) t (rest @ qs)" by (rule link_emits [OF p(3)]) (use assms(3,4) in simp_all)
  moreover have "data_ok (p\<lparr>mst := m\<rparr>) (session_tasks (rep p) @ real_commands (rest @ qs))"
    using p(4) assms(5,6) by (simp add: data_ok_def real_commands_def)
  ultimately show ?thesis using p(1,2) assms(2) unfolding pair_ok_def by (intro exI conjI) simp_all
qed

lemma master_write:
  assumes "pair_ok i conn p" "master_ok i conn m" "emits conn (srv (mst p)) [q] (srv m)" "wf_resp q" "\<not> is_getack q"
    and "applies q (store (srv (mst p))) (store (srv m))"
  shows "pair_ok i conn (p\<lparr>mst := m, past := past p @ [store (srv m)]\<rparr>)"
proof -
  let ?p = "p\<lparr>mst := m, past := past p @ [store (srv m)]\<rparr>"
  obtain g t rest where p: "master_link (rep p) = Some (g, t)" "replica_ok g (rep p)" "link_ok conn p t rest"
      "data_ok p (session_tasks (rep p) @ real_commands rest)"
    using assms(1) by (auto simp: pair_ok_def)
  have "link_ok conn ?p t (rest @ [q])" by (rule link_emits [OF p(3)]) (use assms(3,4) in simp_all)
  moreover obtain old ds where "past p = old @ store (srv (rep p)) # ds"
      "follows (store (srv (rep p))) (session_tasks (rep p) @ real_commands rest) ds"
      "last (store (srv (rep p)) # ds) = store (srv (mst p))"
    using p(4) by (auto simp: data_ok_def)
  with follows_snoc [of _ "session_tasks (rep p) @ real_commands rest" ds q "store (srv m)"] assms(6)
  have "data_ok ?p ((session_tasks (rep p) @ real_commands rest) @ [q])"
    unfolding data_ok_def by (intro exI [of _ old] exI [of _ "ds @ [store (srv m)]"]) simp
  then have "data_ok ?p (session_tasks (rep p) @ real_commands (rest @ [q]))" using assms(5) by (simp add: real_commands_def)
  ultimately show ?thesis using p(1,2) assms(2) unfolding pair_ok_def by (intro exI conjI) simp_all
qed

lemma run_task_Done:
  assumes "run_task y = Some y'" "queue y = (k, h, q) # tasks"
  obtains s where "handle h q k (srv y) = Done s" "y' = y\<lparr>srv := s, queue := tasks\<rparr>"
  using assms by (auto simp: run_task_def split: machine.splits)

lemma keeps_data_ready: "keeps_data c s s' \<Longrightarrow> ready h s' = ready h s \<and> idle s' = idle s"
  by (simp add: keeps_data_def ready_def idle_def get_tm_def get_handler_def)

lemma keeps_data_emits:
  assumes "master_ready i conn s" "keeps_data c s s'" "c \<noteq> conn"
  obtains qs where "emits conn s qs s'" "list_all wf_resp qs" "real_commands qs = []" "master_ready i conn s'" "store s' = store s"
proof -
  have sv: "serves i conn (replica_reg s)" using assms(1) by (simp add: master_ready_def)
  obtain ws rs where ws: "posted s' = posted s @ ws @ map (Pair c) rs"
      "ws = [] \<and> replica_reg s' = replica_reg s \<or> (ws, replica_reg s') = exec_replica Op_getack (replica_reg s)"
    using assms(2) by (auto simp: keeps_data_def)
  have c: "sent_to conn (map (Pair c) rs) = []" using assms(3) by (induction rs) (simp_all add: sent_to_def)
  note g = exec_replica_serves [OF sv, of Op_getack, unfolded keeps_replica_def, simplified replica_op.case, OF TrueI]
  from ws(2) consider "ws = []" "replica_reg s' = replica_reg s" | "exec_replica Op_getack (replica_reg s) = (ws, replica_reg s')" by auto
  then show thesis
  proof cases
    case 1
    then show ?thesis using assms(1,2) ws(1) c
      by (intro that [of "[]"]) (simp_all add: emits_def real_commands_def master_ready_def keeps_data_def idle_def)
  next
    case 2
    then show ?thesis using assms(1,2) ws(1) c g ack_request(4,5)
      by (intro that [of "[getack_command]"]) (simp_all add: emits_def real_commands_def master_ready_def keeps_data_def idle_def)
  qed
qed

lemma fire_keeps_data:
  assumes "um_find (timers s) i = Some t" "t_task t = T_poll target n deadline (K_write c)" "fire_timer i s = Done s'"
  shows "keeps_data c s s'"
proof (cases "t_ready t")
  case True
  let ?s = "s\<lparr>timers := um_erase i (timers s)\<rparr>"
  have "run [F_poll target n deadline (K_write c)] ?s = Done s'" using True assms by (simp add: fire_timer_def)
  then have "keeps_data c ?s s'" by (rule keeps_data_poll)
  then show ?thesis by (simp add: keeps_data_def)
next
  case False
  then have "s' = s" using assms(1,3) by (simp add: fire_timer_def)
  then show ?thesis by (intro keeps_dataI [where rs = "[]"]) simp_all
qed

lemma expire_keeps_data: "keeps_data c s (expire_timer i s)"
  by (rule keeps_dataI [where rs = "[]"]) (auto simp: expire_timer_def split: option.split)

lemma step_keeps_data:
  assumes "pair_ok i conn p" "keeps_data c (srv (mst p)) s" "c \<noteq> conn"
  shows "pair_ok i conn (p\<lparr>mst := (mst p)\<lparr>srv := s, queue := qu\<rparr>\<rparr>)"
proof -
  have m: "master_ok i conn (mst p)" using assms(1) by (auto simp: pair_ok_def)
  then have "master_ready i conn (srv (mst p))" by (simp add: master_ok_def)
  from keeps_data_emits [OF this assms(2,3)] obtain qs where "emits conn (srv (mst p)) qs s" "list_all wf_resp qs" "real_commands qs = []"
      "master_ready i conn s" "store s = store (srv (mst p))" by blast
  with m show ?thesis by (intro master_aside [OF assms(1)]) (simp_all add: master_ok_def)
qed

lemma client_write_effect:
  assumes "master_ready i conn m" "client_write conn m (h, c, q)" "handle h q (K_write c) m = Done s"
  shows "master_ready i conn s" "emits conn m [q] s" "applies q (store m) (store s)" "wf_resp q" "\<not> is_getack q"
proof -
  obtain cmd where q: "is_request q cmd" "replayable cmd" "ready h m" "h_replicas (get_handler m h)" "c \<noteq> conn"
    using assms(2) by (auto simp: client_write_def)
  note step = master_step [OF q(1,2) assms(1) q(3-5) assms(3)]
  show "master_ready i conn s" "emits conn m [q] s" using step(1,4,5) by (simp_all add: emits_def)
  show "applies q (store m) (store s)" unfolding applies_def using step(1,6) by (auto simp: master_ready_def)
  show "wf_resp q" using assms(2) by (simp add: client_write_def)
  show "\<not> is_getack q" using not_getack [OF q(1)] q(2) by (auto simp: replayable_def)
qed

lemma step_client_write:
  assumes "pair_ok i conn p" "client_write conn (srv (mst p)) (h, c, q)" "handle h q (K_write c) (srv (mst p)) = Done s"
  shows "pair_ok i conn (p\<lparr>mst := (mst p)\<lparr>srv := s, queue := qu\<rparr>, past := past p @ [store s]\<rparr>)"
proof -
  have m: "master_ok i conn (mst p)" using assms(1) by (auto simp: pair_ok_def)
  then have "master_ready i conn (srv (mst p))" by (simp add: master_ok_def)
  note effect = client_write_effect [OF this assms(2,3)]
  show ?thesis
    using master_write [OF assms(1), of "(mst p)\<lparr>srv := s, queue := qu\<rparr>" q] m effect by (simp add: master_ok_def)
qed

lemma complete_read_effect:
  assumes "complete_read request c y = Some y'"
  obtains out c' r ws tasks where "on_request request c (replica_reg (srv y)) = (out, c', r)" "out = Read_again \<Longrightarrow> ws = []"
    "srv y' = (srv y)\<lparr>replica_reg := r, posted := posted (srv y) @ map (Pair (conn_id c)) ws\<rparr>" "master_link y' = master_link y"
    "conns y' = um_put (conn_id c) c' (conns y)" "queue y' = queue y @ map (Pair (K_write (conn_id c))) tasks"
proof -
  obtain out c' r where o: "on_request request c (replica_reg (srv y)) = (out, c', r)" by (metis prod_cases3)
  note read = assms [unfolded complete_read_def o, simplified Let_def prod.case]
  show thesis
  proof (cases out)
    case (Write_response t)
    then show ?thesis using read by (intro that [OF o, of "[t]" "[]"]) auto
  next
    case Parse_error
    then show ?thesis using read by (intro that [OF o, of "[''-ERR parse error'' @ crlf]" "[]"]) auto
  next
    case Read_again
    then show ?thesis using read by (intro that [OF o, of "[]" "[]"]) auto
  next
    case (Post h command)
    then show ?thesis using read by (intro that [OF o, of "[]" "[(h, command)]"]) auto
  qed (use read in simp)
qed

lemma handshake_serves:
  assumes "serves i conn r" "conn_id c \<noteq> conn" "handshake t c r = Inr (c', r')"
  shows "serves i conn r' \<and> master_offset r' = master_offset r"
proof -
  have "r' = r \<or> r' = snd (add_replica (conn_id c) r)"
    using assms(3) by (auto simp: handshake_def Let_def split: if_splits prod.splits)
  then show ?thesis
    using exec_replica_serves(1,3) [OF assms(1), of "Op_add (conn_id c)"] assms(1,2) by (auto simp: keeps_replica_def)
qed

lemma on_request_serves:
  assumes "serves i conn r" "conn_id c \<noteq> conn" "on_request q c r = (out, c', r')"
  shows "serves i conn r' \<and> master_offset r' = master_offset r"
proof (cases rule: on_request_type [of q c r])
  case (accepted t c1 r1)
  note 1 = handshake_serves [OF assms(1,2) accepted(2)]
  then have "serves i conn (record_ack j n r1) \<and> master_offset (record_ack j n r1) = master_offset r1" for j n
    using exec_replica_serves(1,3) [of i conn r1 "Op_ack j n"] by (simp add: keeps_replica_def)
  with 1 accepted(4) assms(3) show ?thesis by auto
qed (use assms in auto)

lemma step_master_reads:
  assumes "pair_ok i conn p" "conn_id c \<noteq> conn" "complete_read request c (mst p) = Some m"
  shows "pair_ok i conn (p\<lparr>mst := m\<rparr>)"
proof -
  have ok: "master_ok i conn (mst p)" using assms(1) by (auto simp: pair_ok_def)
  then have sv: "serves i conn (replica_reg (srv (mst p)))" by (simp add: master_ok_def master_ready_def)
  obtain out c' r ws tasks where e: "on_request request c (replica_reg (srv (mst p))) = (out, c', r)"
    "srv m = (srv (mst p))\<lparr>replica_reg := r, posted := posted (srv (mst p)) @ map (Pair (conn_id c)) ws\<rparr>"
    "conns m = um_put (conn_id c) c' (conns (mst p))"
    using complete_read_effect [OF assms(3)] by metis
  note r = on_request_serves [OF sv assms(2) e(1)]
  have "sent_to conn (map (Pair (conn_id c)) ws) = []" using assms(2) by (induction ws) (simp_all add: sent_to_def)
  then have "emits conn (srv (mst p)) [] (srv m)" using e(2) r by (simp add: emits_def)
  moreover have "master_ok i conn m" using ok r assms(2) e(2,3) by (simp add: master_ok_def master_ready_def idle_def)
  ultimately show ?thesis using e(2) by (intro master_aside [OF assms(1), where qs = "[]"]) (simp_all add: real_commands_def)
qed

lemma from_chars_ll_nat_str: "from_chars_ll (nat_str n) = (if n < 2 ^ 63 then Num_ok (int n) [] else Num_out_of_range)"
proof -
  obtain c cs where "nat_str n = c # cs" "is_digit c" by (rule nat_str_Cons)
  then have sign: "(case nat_str n of c # _ \<Rightarrow> c = CHR ''-'' | [] \<Rightarrow> False) = False" "nat_str n \<noteq> []" using digit_neq by auto
  have digits: "takeWhile is_digit (nat_str n) = nat_str n" "dropWhile is_digit (nat_str n) = []"
    using takeWhile_nat_str [of "[]" n] dropWhile_nat_str [of "[]" n] by simp_all
  show ?thesis
    unfolding from_chars_ll_def from_chars_signed_def Let_def sign(1) if_False digits digits_val_nat_str
    using sign(2) by (auto simp: ll_limits)
qed

lemma on_request_ack:
  assumes "mode c = ModeReplication"
  shows "on_request (ack_message w) c r = (Read_again, c, if unat w < 2 ^ 63 then record_ack (replica_id c) (int (unat w)) r else r)"
proof -
  let ?n = "unat w" and ?cmd = "\<lparr>ctype = Replconf, cname = ''REPLCONF'', cargs = [''ACK'', nat_str (unat w)]\<rparr>"
  have n: "?n < 2 ^ 64" using unsigned_less [of w] by simp
  have "apply_ack c ?cmd r = (if ?n < 2 ^ 63 then record_ack (replica_id c) (int ?n) r else r)" 
    by (simp add: apply_ack_def from_chars_ll_nat_str del: of_nat_unat)
  then show ?thesis
    using on_request_enc [OF ack_request(1) _ ack_request(2), of ?n c r] n assms ack_request(3)
    by (simp add: ack_message_def encode_array_def handshake_def is_ack_def)
qed

lemma ack_read:
  assumes "master_ok i conn y" "um_find (conns y) conn = Some c" "complete_read (ack_message w) c y = Some m"
  shows "srv m = (srv y)\<lparr>replica_reg := if unat w < 2 ^ 63 then record_ack i (int (unat w)) (replica_reg (srv y)) else replica_reg (srv y)\<rparr>"
    and "conns m = um_put conn c (conns y)"
proof -
  have c: "mode c = ModeReplication" "replica_id c = i" "conn_id c = conn" using assms(1,2) by (auto simp: master_ok_def)
  let ?r = "if unat w < 2 ^ 63 then record_ack i (int (unat w)) (replica_reg (srv y)) else replica_reg (srv y)"
  obtain out c' r ws where read: "on_request (ack_message w) c (replica_reg (srv y)) = (out, c', r)" "out = Read_again \<Longrightarrow> ws = []"
      "srv m = (srv y)\<lparr>replica_reg := r, posted := posted (srv y) @ map (Pair (conn_id c)) ws\<rparr>"
      "conns m = um_put (conn_id c) c' (conns y)"
    by (rule complete_read_effect [OF assms(3)]) blast
  have "(out, c', r) = (Read_again, c, ?r)" unfolding read(1) [symmetric] on_request_ack [OF c(1)] c(2) ..
  then have "out = Read_again" "c' = c" "r = ?r" by blast+
  then show "srv m = (srv y)\<lparr>replica_reg := ?r\<rparr>" "conns m = um_put conn c (conns y)" using read(2-4) c(3) by auto
qed

lemma step_ack:
  assumes "pair_ok i conn p" "um_find (conns (mst p)) conn = Some c" "complete_read (ack_message w) c (mst p) = Some m"
  shows "pair_ok i conn (p\<lparr>mst := m\<rparr>)"
proof -
  have ok: "master_ok i conn (mst p)" using assms(1) by (auto simp: pair_ok_def)
  then have sv: "serves i conn (replica_reg (srv (mst p)))" by (simp add: master_ok_def master_ready_def)
  let ?r = "if unat w < 2 ^ 63 then record_ack i (int (unat w)) (replica_reg (srv (mst p))) else replica_reg (srv (mst p))"
  note e = ack_read [OF ok assms(2,3)]
  have r: "serves i conn ?r \<and> master_offset ?r = master_offset (replica_reg (srv (mst p)))"
    using sv exec_replica_serves(1,3) [OF sv, of "Op_ack i (int (unat w))"] by (simp add: keeps_replica_def)
  have "emits conn (srv (mst p)) [] (srv m)" using e r by (simp add: emits_def)
  moreover have "master_ok i conn m" using ok e r assms(2) by (simp add: master_ok_def master_ready_def idle_def)
  ultimately show ?thesis using e(1) by (intro master_aside [OF assms(1), where qs = "[]"]) (simp_all add: real_commands_def)
qed

text \<open>Steps of the replica.\<close>

lemma replica_aside:
  assumes "pair_ok i conn p" "master_link r = map_option (apsnd f) (master_link (rep p))" "\<And>g. replica_ok g (rep p) \<Longrightarrow> replica_ok g r"
    and "\<And>t. phase (f t) = phase t \<and> buf (f t) = buf t \<and> replica_offset (f t) = replica_offset t"
    and "session_tasks r = session_tasks (rep p)" "store (srv r) = store (srv (rep p))"
  shows "pair_ok i conn (p\<lparr>rep := r\<rparr>)"
proof -
  obtain g t rest where p: "master_link (rep p) = Some (g, t)" "master_ok i conn (mst p)" "replica_ok g (rep p)" "link_ok conn p t rest"
      "data_ok p (session_tasks (rep p) @ real_commands rest)"
    using assms(1) by (auto simp: pair_ok_def)
  have "link_ok conn (p\<lparr>rep := r\<rparr>) (f t) rest" by (rule link_ok_cong [OF p(4)]) (simp_all add: assms(4))
  moreover have "data_ok (p\<lparr>rep := r\<rparr>) (session_tasks r @ real_commands rest)"
    using p(5) assms(5,6) by (simp add: data_ok_def)
  ultimately show ?thesis using p(1-3) assms(2,3) unfolding pair_ok_def by (intro exI [of _ g] exI [of _ "f t"] exI [of _ rest]) simp
qed

lemma step_replica_answers:
  assumes "pair_ok i conn p" "queue (rep p) = (K_write c, h, q) # tasks" "keeps_data c (srv (rep p)) s"
  shows "pair_ok i conn (p\<lparr>rep := (rep p)\<lparr>srv := s, queue := tasks\<rparr>\<rparr>)"
proof (rule replica_aside [OF assms(1), where f = id])
  show "replica_ok g ((rep p)\<lparr>srv := s, queue := tasks\<rparr>)" if "replica_ok g (rep p)" for g
    using that assms(2) keeps_data_ready [OF assms(3)] assms(3) by (auto simp: replica_ok_def keeps_data_def)
qed (use assms in \<open>simp_all add: session_tasks_def keeps_data_def option.map_id apsnd_id\<close>)

lemma step_replica_reads:
  assumes "pair_ok i conn p" "complete_read request c (rep p) = Some r"
  shows "pair_ok i conn (p\<lparr>rep := r\<rparr>)"
proof -
  obtain out c' rr ws tasks where e: "srv r = (srv (rep p))\<lparr>replica_reg := rr, posted := posted (srv (rep p)) @ map (Pair (conn_id c)) ws\<rparr>"
      "master_link r = master_link (rep p)" "queue r = queue (rep p) @ map (Pair (K_write (conn_id c))) tasks"
    by (rule complete_read_effect [OF assms(2)]) blast
  have "replica_ok g r" if "replica_ok g (rep p)" for g
    using that by (auto simp: e replica_ok_def idle_def ready_def get_tm_def get_handler_def)
  moreover have "session_tasks r = session_tasks (rep p)" using complete_read_tasks [OF assms(2)] by simp
  ultimately show ?thesis
    by (intro replica_aside [OF assms(1), where f = id]) (simp_all add: e option.map_id apsnd_id)
qed

lemma step_replica_acks:
  assumes "pair_ok i conn p"
  shows "pair_ok i conn (p\<lparr>rep := session_ack (rep p)\<rparr>)"
proof (rule replica_aside [OF assms, where f = on_ack_timer])
  show "master_link (session_ack (rep p)) = map_option (apsnd on_ack_timer) (master_link (rep p))"
    by (simp add: session_ack_def apsnd_def map_prod_def)
qed (auto simp: session_ack_def on_ack_timer_def replica_ok_def)

lemma step_time:
  assumes "pair_ok i conn p"
  shows "pair_ok i conn (p\<lparr>mst := (mst p)\<lparr>srv := (srv (mst p))\<lparr>clock := t, wall := w\<rparr>\<rparr>,
      rep := (rep p)\<lparr>srv := (srv (rep p))\<lparr>clock := t', wall := w'\<rparr>\<rparr>\<rparr>)"
proof -
  let ?m = "(mst p)\<lparr>srv := (srv (mst p))\<lparr>clock := t, wall := w\<rparr>\<rparr>"
  have "master_ok i conn (mst p)" using assms by (auto simp: pair_ok_def)
  then have m: "pair_ok i conn (p\<lparr>mst := ?m\<rparr>)"
    by (intro master_aside [OF assms, where qs = "[]"]) (simp_all add: emits_def real_commands_def master_ok_def master_ready_def idle_def)
  have "pair_ok i conn ((p\<lparr>mst := ?m\<rparr>)\<lparr>rep := (rep p)\<lparr>srv := (srv (rep p))\<lparr>clock := t', wall := w'\<rparr>\<rparr>\<rparr>)"
    by (rule replica_aside [OF m, where f = id])
       (auto simp: replica_ok_def idle_def ready_def get_tm_def get_handler_def option.map_id apsnd_id)
  then show ?thesis by simp
qed

lemma step_delivers:
  assumes "pair_ok i conn p" "prefix chunk (in_flight conn p)" "session_read chunk (rep p) = Some r"
  shows "pair_ok i conn (p\<lparr>rep := r, delivered := delivered p + length chunk\<rparr>)"
proof -
  let ?p = "p\<lparr>rep := r, delivered := delivered p + length chunk\<rparr>"
  obtain g t rest where p: "master_link (rep p) = Some (g, t)" "master_ok i conn (mst p)" "replica_ok g (rep p)" "link_ok conn p t rest"
      "data_ok p (session_tasks (rep p) @ real_commands rest)"
    using assms(1) by (auto simp: pair_ok_def)
  obtain qs rest' t' where f: "rest = qs @ rest'" "feed chunk t = Inr t'" "commands t' = commands t @ filter (\<lambda>q. \<not> is_getack q) qs"
      "link_ok conn ?p t' rest'"
    by (rule link_feed [OF p(4) assms(2), of ?p]) auto
  have r: "r = (rep p)\<lparr>master_link := Some (g, t'), queue := queue (rep p) @ map (\<lambda>q. (K_ignore, g, q)) (real_commands qs)\<rparr>"
    using assms(3) f(2,3) p(1) by (simp add: session_read_def real_commands_def)
  have "session_tasks r = session_tasks (rep p) @ real_commands qs" by (simp add: r session_tasks_def filter_map comp_def)
  then have "data_ok ?p (session_tasks r @ real_commands rest')" using p(5) f(1) by (simp add: data_ok_def r real_commands_def)
  moreover have "replica_ok g r" using p(3) by (auto simp: r replica_ok_def)
  ultimately show ?thesis using p(2) f(4) unfolding pair_ok_def by (intro exI [of _ g] exI [of _ t'] exI [of _ rest']) (simp add: r)
qed

lemma step_replica_runs:
  assumes "pair_ok i conn p" "queue (rep p) = (K_ignore, h, q) # tasks"
  shows "\<exists>s. handle h q K_ignore (srv (rep p)) = Done s \<and> pair_ok i conn (p\<lparr>rep := (rep p)\<lparr>srv := s, queue := tasks\<rparr>\<rparr>)"
proof -
  obtain g t rest where p: "master_link (rep p) = Some (g, t)" "master_ok i conn (mst p)" "replica_ok g (rep p)" "link_ok conn p t rest"
      "data_ok p (session_tasks (rep p) @ real_commands rest)"
    using assms(1) by (auto simp: pair_ok_def)
  have h: "h = g" "idle (srv (rep p))" "ready g (srv (rep p))" using p(3) assms(2) by (auto simp: replica_ok_def)
  let ?d = "store (srv (rep p))" and ?todo = "session_tasks ((rep p)\<lparr>queue := tasks\<rparr>) @ real_commands rest"
  obtain old d ds where d: "past p = old @ ?d # d # ds" "applies q ?d d" "follows d ?todo ds" "last (d # ds) = store (srv (mst p))"
    using p(5) assms(2) by (auto simp: data_ok_def session_tasks_def)
  then obtain s where s: "handle h q K_ignore (srv (rep p)) = Done s" "store s = d" "idle s" "ready g s" "timeless d"
    using h by (auto simp: applies_def)
  let ?p = "p\<lparr>rep := (rep p)\<lparr>srv := s, queue := tasks\<rparr>\<rparr>"
  have "data_ok ?p (session_tasks (rep ?p) @ real_commands rest)"
    using d s(2) unfolding data_ok_def by (intro exI [of _ "old @ [?d]"] exI [of _ ds]) (simp add: session_tasks_def)
  moreover have "replica_ok g (rep ?p)" using p(3) s assms(2) by (auto simp: replica_ok_def)
  moreover have "link_ok conn ?p t rest" by (rule link_ok_cong [OF p(4)]) simp_all
  ultimately show ?thesis using p(1,2) s(1) unfolding pair_ok_def by (intro exI [of _ s] conjI exI [of _ g] exI [of _ t] exI [of _ rest]) simp_all
qed

lemma pair_step_ok: "pair_step conn p p' \<Longrightarrow> pair_ok i conn p \<Longrightarrow> pair_ok i conn p'"
proof (induction rule: pair_step.induct)
  case (master_writes p c h q tasks m)
  then show ?case by (auto elim!: run_task_Done [OF _ master_writes(1)] intro: step_client_write)
next
  case (master_answers p c h q tasks m)
  have "timeless (store (srv (mst p)))" using master_answers(5) by (auto simp: pair_ok_def master_ok_def master_ready_def)
  with master_answers show ?case
    by (auto elim!: run_task_Done [OF _ master_answers(1)] intro: step_keeps_data handle_side)
next
  case (master_polls p tid t target n deadline c s)
  then show ?case using step_keeps_data [OF master_polls(5) fire_keeps_data [OF master_polls(1,2,4)] master_polls(3), of "queue (mst p)"] by simp
next
  case (master_timer p tid)
  then show ?case using step_keeps_data [OF master_timer expire_keeps_data [of "Suc conn" _ tid], of "queue (mst p)"] by simp
next
  case (replica_runs p h q tasks r)
  from step_replica_runs [OF replica_runs(3,1)] obtain s where s: "handle h q K_ignore (srv (rep p)) = Done s"
      "pair_ok i conn (p\<lparr>rep := (rep p)\<lparr>srv := s, queue := tasks\<rparr>\<rparr>)" by blast
  have "r = (rep p)\<lparr>srv := s, queue := tasks\<rparr>" by (rule run_task_Done [OF replica_runs(2,1)]) (simp add: s(1))
  with s(2) show ?case by simp
next
  case (replica_answers p c h q tasks r)
  have "timeless (store (srv (rep p)))" using replica_answers(4) by (auto simp: pair_ok_def replica_ok_def)
  with replica_answers show ?case
    by (auto elim!: run_task_Done [OF _ replica_answers(1)] intro: step_replica_answers handle_side)
qed (simp_all add: step_master_reads step_ack step_delivers step_replica_reads step_replica_acks step_time)

text \<open>The start: master and replica have the same data and offset, and nothing is on its way.\<close>

definition synced :: "nat \<Rightarrow> nat \<Rightarrow> pair \<Rightarrow> bool" where
  "synced i conn p \<longleftrightarrow> master_ok i conn (mst p) \<and> 0 \<le> master_offset (replica_reg (srv (mst p))) \<and>
     delivered p = length (sent_to conn (posted (srv (mst p)))) \<and> session_tasks (rep p) = [] \<and>
     store (srv (rep p)) = store (srv (mst p)) \<and> past p = [store (srv (mst p))] \<and>
     (\<exists>g t. master_link (rep p) = Some (g, t) \<and> replica_ok g (rep p) \<and> phase t = Command_loop \<and> buf t = [] \<and>
        replica_offset t = of_int (master_offset (replica_reg (srv (mst p)))))"

lemma synced_ok: "synced i conn p \<Longrightarrow> pair_ok i conn p"
proof -
  assume p: "synced i conn p"
  then obtain g t where t: "master_link (rep p) = Some (g, t)" "replica_ok g (rep p)" "phase t = Command_loop" "buf t = []"
      "replica_offset t = of_int (master_offset (replica_reg (srv (mst p))))"
    by (auto simp: synced_def)
  have "link_ok conn p t []" "data_ok p []" using p t by (simp_all add: synced_def link_ok_def in_flight_def data_ok_def)
  with p t(1,2) show ?thesis
    unfolding pair_ok_def by (intro exI [of _ g] exI [of _ t] exI [of _ "[]"]) (simp add: synced_def real_commands_def)
qed

interpretation pair_inv: inductive_invariant "synced i conn" "pair_step conn" "pair_ok i conn" for i conn
  by unfold_locales (auto intro: synced_ok pair_step_ok)

lemma data_ok_lag:
  assumes "data_ok p todo"
  shows "length todo < length (past p)" "store (srv (rep p)) = past p ! (length (past p) - 1 - length todo)"
    and "last (past p) = store (srv (mst p))" "todo = [] \<Longrightarrow> store (srv (rep p)) = store (srv (mst p))"
proof -
  obtain old ds where d: "past p = old @ store (srv (rep p)) # ds" "follows (store (srv (rep p))) todo ds"
      "last (store (srv (rep p)) # ds) = store (srv (mst p))"
    using assms by (auto simp: data_ok_def)
  with follows_length [OF d(2)] show "length todo < length (past p)" "store (srv (rep p)) = past p ! (length (past p) - 1 - length todo)"
    "last (past p) = store (srv (mst p))" "todo = [] \<Longrightarrow> store (srv (rep p)) = store (srv (mst p))"
    by (simp_all add: nth_append)
qed

lemma link_ok_drained:
  assumes "link_ok conn p t rest" "in_flight conn p = []"
  shows "rest = []" "buf t = []" "replica_offset t = of_int (master_offset (replica_reg (srv (mst p))))"
proof -
  have l: "buf t = concat (map serialize rest)" "buf t = [] \<or> rest \<noteq> [] \<and> strict_prefix (buf t) (serialize (hd rest))"
    "of_int (master_offset (replica_reg (srv (mst p)))) = replica_offset t + of_nat (length (buf t))"
    using assms unfolding link_ok_def by auto
  have "length (serialize (hd rest)) \<le> length (buf t)" if "rest \<noteq> []" using l(1) that by (cases rest) simp_all
  moreover have "serialize v \<noteq> []" for v by (cases v rule: serialize.cases) (simp_all add: bulk_reply_def)
  ultimately show "rest = []" using l(2) by (metis le_zero_eq length_0_conv list.size(3) not_le prefix_length_less)
  with l show "buf t = []" "replica_offset t = of_int (master_offset (replica_reg (srv (mst p))))" by simp_all
qed

section \<open>Properties\<close>


text \<open>The replica can always catch up.\<close>

lemma run_waiting_tasks:
  assumes "pair_ok i conn p" "list_all (\<lambda>(k, _, _). k = K_ignore) (queue (rep p))"
  shows "\<exists>p'. (pair_step conn)\<^sup>*\<^sup>* p p' \<and> pair_ok i conn p' \<and> mst p' = mst p \<and> delivered p' = delivered p \<and> queue (rep p') = []"
  using assms
proof (induction "length (queue (rep p))" arbitrary: p)
  case (Suc n)
  then obtain h q tasks where q: "queue (rep p) = (K_ignore, h, q) # tasks" by (cases "queue (rep p)") auto
  obtain s where s: "handle h q K_ignore (srv (rep p)) = Done s" "pair_ok i conn (p\<lparr>rep := (rep p)\<lparr>srv := s, queue := tasks\<rparr>\<rparr>)"
    using step_replica_runs [OF Suc.prems(1) q] by blast
  let ?p = "p\<lparr>rep := (rep p)\<lparr>srv := s, queue := tasks\<rparr>\<rparr>"
  have "pair_step conn p ?p" by (rule pair_step.replica_runs [OF q]) (simp add: run_task_def q s(1))
  moreover obtain p' where "(pair_step conn)\<^sup>*\<^sup>* ?p p'" "pair_ok i conn p'" "mst p' = mst ?p" "delivered p' = delivered ?p" "queue (rep p') = []"
    using Suc.hyps(1) [of ?p] Suc.hyps(2) Suc.prems(2) s(2) q by auto
  ultimately show ?case by (intro exI [of _ p']) (simp add: converse_rtranclp_into_rtranclp)
qed auto


text \<open>A master with a replica on connection 9 and a posted write, and the process of the replica.\<close>

definition pair_example :: pair where
  "pair_example =
     \<lparr>mst = \<lparr>srv = master_example,
        conns = um_put 9 ((new_connection 9 2 3)\<lparr>mode := ModeReplication, registered_as_replica := True, replica_id := 0\<rparr>) [],
        queue = [(K_write 4, 0, bulk_request [''SET'', ''a'', ''1''])], own_port = 1, master_link = None\<rparr>,
      rep = \<lparr>srv = add_session_handler 0
          (init_server \<lparr>is_replica = True, replicaof = Some ''localhost 1'', master_replid = ''r'', master_repl_offset = 0\<rparr> ''1''),
        conns = [], queue = [], own_port = 2, master_link = Some (0, (new_session 2)\<lparr>phase := Command_loop\<rparr>)\<rparr>,
      delivered = 0, past = [[]]\<rparr>"

lemma master_example_fields:
  "serves 0 9 (replica_reg master_example)" "idle master_example" "store master_example = []" "posted master_example = []"
  "master_offset (replica_reg master_example) = 0" "ready 0 master_example" "h_replicas (get_handler master_example 0)"
  "replicas (replica_reg master_example) = [(0, \<lparr>write_conn = 9, acked_offset = 0\<rparr>)]" "next_replica_id (replica_reg master_example) = 1"
  "queued_commands (get_tm master_example h) = []" "ctxs master_example = []"
proof -
  show "serves 0 9 (replica_reg master_example)" by (simp add: serves_def um_ok_def um_find_def master_example_def)
  show "queued_commands (get_tm master_example h) = []"
    using two_clients_fields(1) [of h] get_tm_cong [of master_example two_clients] by (simp add: master_example_def empty_tm_def)
qed (simp_all add: idle_def ready_def empty_tm_def master_example_def two_clients_def accept_connection_def init_server_def
    regs_at_empty get_tm_def get_handler_def)

lemma pair_example_synced: "synced 0 9 pair_example"
  using master_example_fields
  by (simp add: synced_def pair_example_def master_ok_def master_ready_def replica_ok_def session_tasks_def new_session_def
      add_session_handler_def init_server_def idle_def ready_def regs_at_empty get_tm_def get_handler_def new_connection_def empty_tm_def)

lemma pair_example_write:
  obtains m where "pair_step 9 pair_example (pair_example\<lparr>mst := m, past := [[], string_set [] ''a'' ''1'']\<rparr>)"
    "store (srv m) = string_set [] ''a'' ''1''" "acked_offset_of 0 (replica_reg (srv m)) = Some 0"
    "master_offset (replica_reg (srv m)) = int (length (serialize (bulk_request [''SET'', ''a'', ''1''])))"
proof -
  let ?q = "bulk_request [''SET'', ''a'', ''1'']" and ?cmd = "\<lparr>ctype = Set, cname = ''SET'', cargs = [''a'', ''1'']\<rparr>"
  let ?d = "string_set [] ''a'' ''1''"
  have "parse_type ''SET'' = Set" by code_simp
  then have q: "is_request ?q ?cmd" using is_bulk_request [of "''SET''" "[''a'', ''1'']"] by simp
  have r: "replayable ?cmd" by (simp add: replayable_def)
  have a: "answered master_example (''+OK'' @ crlf) ?d (answer 0 ?cmd master_example)"
    using master_example_fields(3) answered_simps(2) by (simp add: answer_set)
  obtain s where s: "handle 0 ?q (K_write 4) master_example = Done (post_reply (reply_to 0 ?q ?cmd (K_write 4) master_example) (''+OK'' @ crlf) s)"
      "store s = ?d" "replica_reg s = replica_reg master_example"
    by (rule handle_answered [OF q r master_example_fields(2,6) _ a, of "K_write 4"]) auto
  let ?m = "(mst pair_example)\<lparr>srv := post_reply (reply_to 0 ?q ?cmd (K_write 4) master_example) (''+OK'' @ crlf) s, queue := []\<rparr>"
  have "client_write 9 (srv (mst pair_example)) (0, 4, ?q)"
    using q r master_example_fields(6,7) by (auto simp: client_write_def pair_example_def bulk_request_def)
  moreover have "run_task (mst pair_example) = Some ?m" using s(1) by (simp add: run_task_def pair_example_def)
  ultimately have "pair_step 9 pair_example (pair_example\<lparr>mst := ?m, past := past pair_example @ [store (srv ?m)]\<rparr>)"
    by (intro pair_step.master_writes [where tasks = "[]"]) (simp_all add: pair_example_def)
  moreover have "store (srv ?m) = ?d" using s(2) by simp
  moreover have "past pair_example = [[]]" by (simp add: pair_example_def)
  ultimately have "pair_step 9 pair_example (pair_example\<lparr>mst := ?m, past := [[], ?d]\<rparr>)" by (simp only: append.simps)
  then show thesis
    using s(2,3) master_example_fields(5,7,8)
    by (intro that [of ?m]) (simp_all add: reply_to_def post_propagate_def propagate_def acked_offset_of_def um_find_def)
qed



end
