(* ===== verification/Replica_Acks.thy ===== *)
theory Replica_Acks
  imports Replica_Pair
begin

text \<open>
  The acknowledgements of a replica and what WAIT may conclude from them: every offset that the session
  writes to the master, and that the master records for the replica, is one that the session has reached.
\<close>

section \<open>Acknowledgements\<close>

text \<open>The bytes of the stream that the session has taken.\<close>

definition taken :: "nat \<Rightarrow> pair \<Rightarrow> session \<Rightarrow> int" where
  "taken conn p t = master_offset (replica_reg (srv (mst p))) - int (length (buf t @ in_flight conn p))"

definition acks_ok :: "nat \<Rightarrow> nat \<Rightarrow> pair \<Rightarrow> bool" where
  "acks_ok i conn p \<longleftrightarrow> (\<forall>g t. master_link (rep p) = Some (g, t) \<longrightarrow> master_offset (replica_reg (srv (mst p))) < 2 ^ 63 \<longrightarrow>
     (\<forall>w. ack_message w \<in> set (sent t) \<longrightarrow> int (unat w) \<le> taken conn p t) \<and>
     (\<forall>a. acked_offset_of i (replica_reg (srv (mst p))) = Some a \<longrightarrow> a \<le> taken conn p t))"

lemma acks_okI:
  assumes "master_link (rep p) = Some (g, t)"
    and "\<And>w. master_offset (replica_reg (srv (mst p))) < 2 ^ 63 \<Longrightarrow> ack_message w \<in> set (sent t) \<Longrightarrow> int (unat w) \<le> taken conn p t"
    and "\<And>a. master_offset (replica_reg (srv (mst p))) < 2 ^ 63 \<Longrightarrow> acked_offset_of i (replica_reg (srv (mst p))) = Some a \<Longrightarrow> a \<le> taken conn p t"
  shows "acks_ok i conn p"
  using assms unfolding acks_ok_def by auto

lemma acks_okD:
  assumes "acks_ok i conn p" "master_link (rep p) = Some (g, t)" "master_offset (replica_reg (srv (mst p))) < 2 ^ 63"
  shows "ack_message w \<in> set (sent t) \<Longrightarrow> int (unat w) \<le> taken conn p t"
    and "acked_offset_of i (replica_reg (srv (mst p))) = Some a \<Longrightarrow> a \<le> taken conn p t"
  using assms unfolding acks_ok_def by blast+

lemma ack_message_inject: "ack_message w = ack_message w' \<longleftrightarrow> w = w'"
proof
  assume a: "ack_message w = ack_message w'"
  let ?v = "\<lambda>w. RespValue Array [] (map Bulk [''REPLCONF'', ''ACK'', nat_str (unat (w :: 64 word))])"
  have p: "parse (ack_message w) = Inr (Some (?v w, length (ack_message w)))" for w
    using resp.dec_enc [OF ack_request(1), of "unat w" "[]"] unsigned_less [of w] by (simp add: ack_message_def encode_array_def)
  have "nat_str (unat w) = nat_str (unat w')" using p [of w] p [of w'] unfolding a by simp
  from arg_cong [OF this, of digits_val] show "w = w'" by (simp add: word_unat_eq_iff)
qed simp

lemma int_unat_of_int: "0 \<le> x \<Longrightarrow> x < 2 ^ 64 \<Longrightarrow> int (unat (of_int x :: 64 word)) = x"
  by (simp add: unsigned_of_int take_bit_int_eq_self)

lemma link_taken:
  assumes "link_ok conn p t rest" "master_offset (replica_reg (srv (mst p))) < 2 ^ 63"
  shows "0 \<le> taken conn p t" "int (unat (replica_offset t)) = taken conn p t" "replica_offset t = of_int (taken conn p t)"
proof -
  have l: "int (length (buf t @ in_flight conn p)) \<le> master_offset (replica_reg (srv (mst p)))"
    "of_int (master_offset (replica_reg (srv (mst p)))) = replica_offset t + of_nat (length (buf t @ in_flight conn p))"
    using assms(1) unfolding link_ok_def by blast+
  then show n: "0 \<le> taken conn p t" by (simp add: taken_def)
  show "replica_offset t = of_int (taken conn p t)" using l(2) by (simp add: taken_def)
  moreover have "taken conn p t < 2 ^ 64" using assms(2) by (simp add: taken_def)
  ultimately show "int (unat (replica_offset t)) = taken conn p t" using n int_unat_of_int by simp
qed

lemma taken_emits:
  assumes "link_ok conn p t rest" "emits conn (srv (mst p)) qs (srv (mst p'))" "delivered p' = delivered p"
  shows "taken conn p' t = taken conn p t" "master_offset (replica_reg (srv (mst p))) \<le> master_offset (replica_reg (srv (mst p')))"
  using assms(2) in_flight_emits [OF assms] by (simp_all add: taken_def emits_def)

text \<open>The acknowledgements that a session sends while it takes commands.\<close>

lemma take_commands_sent:
  assumes "ack_message w \<in> set (sent (foldl take_command s vs))"
  shows "ack_message w \<in> set (sent s) \<or> (\<exists>n \<le> sum_list (map snd vs). w = replica_offset s + of_nat n)"
  using assms
proof (induction vs arbitrary: s)
  case (Cons v vs)
  obtain q n where v: "v = (q, n)" by (cases v)
  have "sent (take_command s v) = sent s \<or> sent (take_command s v) = sent s @ [ack_message (replica_offset s + of_nat n)]"
    by (simp add: v take_command_def send_ack_def send_array_def schedule_ack_def ack_message_def Let_def)
  moreover have "replica_offset (take_command s v) = replica_offset s + of_nat n" by (simp add: v)
  ultimately consider "ack_message w \<in> set (sent s)" | "w = replica_offset s + of_nat n"
    | m where "m \<le> sum_list (map snd vs)" "w = replica_offset s + of_nat (n + m)"
    using Cons.IH [of "take_command s v"] Cons.prems ack_message_inject by (auto simp: add.assoc)
  then show ?case
  proof cases
    case 2
    then show ?thesis by (intro disjI2 exI [of _ n]) (simp add: v)
  next
    case (3 m)
    then show ?thesis by (intro disjI2 exI [of _ "n + m"]) (simp add: v)
  qed simp
qed simp

lemma acks_master:
  assumes "acks_ok i conn p" "pair_ok i conn p" "emits conn (srv (mst p)) qs (srv m)"
    and "acked_offset_of i (replica_reg (srv m)) = acked_offset_of i (replica_reg (srv (mst p)))"
  shows "acks_ok i conn (p\<lparr>mst := m, past := ps\<rparr>)"
proof -
  let ?p = "p\<lparr>mst := m, past := ps\<rparr>"
  obtain g t rest where t: "master_link (rep p) = Some (g, t)" "link_ok conn p t rest" using assms(2) by (auto simp: pair_ok_def)
  have "taken conn ?p t = taken conn p t" "master_offset (replica_reg (srv (mst p))) \<le> master_offset (replica_reg (srv m))"
    using taken_emits [OF t(2), of qs ?p] assms(3) by simp_all
  with assms(1,4) t(1) show ?thesis by (auto simp: acks_ok_def)
qed

lemma acks_replica:
  assumes "acks_ok i conn p" "master_link (rep p) = Some (g, t)" "master_link r = Some (g', t')"
    and "\<And>w. master_offset (replica_reg (srv (mst p))) < 2 ^ 63 \<Longrightarrow> ack_message w \<in> set (sent t') \<Longrightarrow> ack_message w \<in> set (sent t) \<or>
      int (unat w) \<le> taken conn (p\<lparr>rep := r, delivered := n\<rparr>) t'"
    and "taken conn p t \<le> taken conn (p\<lparr>rep := r, delivered := n\<rparr>) t'"
  shows "acks_ok i conn (p\<lparr>rep := r, delivered := n\<rparr>)"
proof (rule acks_okI)
  let ?p = "p\<lparr>rep := r, delivered := n\<rparr>"
  show "master_link (rep ?p) = Some (g', t')" using assms(3) by simp
  show "int (unat w) \<le> taken conn ?p t'" if "master_offset (replica_reg (srv (mst ?p))) < 2 ^ 63" "ack_message w \<in> set (sent t')" for w
    using assms(4) [of w] acks_okD(1) [OF assms(1,2), of w] assms(5) that by fastforce
  show "a \<le> taken conn ?p t'"
    if "master_offset (replica_reg (srv (mst ?p))) < 2 ^ 63" "acked_offset_of i (replica_reg (srv (mst ?p))) = Some a" for a
    using acks_okD(2) [OF assms(1,2), of a] assms(5) that by fastforce
qed

lemma acks_delivers:
  assumes "acks_ok i conn p" "pair_ok i conn p" "prefix chunk (in_flight conn p)" "session_read chunk (rep p) = Some r"
  shows "acks_ok i conn (p\<lparr>rep := r, delivered := delivered p + length chunk\<rparr>)"
proof -
  let ?p = "p\<lparr>rep := r, delivered := delivered p + length chunk\<rparr>"
  obtain g t rest where t: "master_link (rep p) = Some (g, t)" "link_ok conn p t rest" using assms(2) by (auto simp: pair_ok_def)
  obtain qs rest' t' where f: "rest = qs @ rest'" "feed chunk t = Inr t'" "link_ok conn ?p t' rest'"
      "sent t' = sent (foldl take_command (t\<lparr>buf := []\<rparr>) (map (\<lambda>v. (v, length (serialize v))) qs))"
    by (rule link_feed [OF t(2) assms(3), of ?p]) auto
  let ?n = "length (concat (map serialize qs))"
  have "buf t @ in_flight conn p = concat (map serialize rest)" "buf t' @ in_flight conn ?p = concat (map serialize rest')"
    using t(2) f(3) unfolding link_ok_def by blast+
  then have "length (buf t @ in_flight conn p) = ?n + length (buf t' @ in_flight conn ?p)" using f(1) by simp
  then have taken: "taken conn ?p t' = taken conn p t + int ?n" by (simp add: taken_def)
  show ?thesis
  proof (rule acks_replica [OF assms(1) t(1)])
    show "master_link r = Some (g, t')" using assms(4) t(1) f(2) by (auto simp: session_read_def)
    show "taken conn p t \<le> taken conn ?p t'" using taken by simp
    show "ack_message w \<in> set (sent t) \<or> int (unat w) \<le> taken conn ?p t'"
      if off: "master_offset (replica_reg (srv (mst p))) < 2 ^ 63" and w: "ack_message w \<in> set (sent t')" for w
    proof -
      have "sum_list (map snd (map (\<lambda>v. (v, length (serialize v))) qs)) = ?n" by (simp add: length_concat comp_def)
      with take_commands_sent [of w "t\<lparr>buf := []\<rparr>" "map (\<lambda>v. (v, length (serialize v))) qs"] w f(4)
      consider "ack_message w \<in> set (sent t)" | n where "n \<le> ?n" "w = replica_offset t + of_nat n" by auto
      then show ?thesis
      proof cases
        case (2 n)
        note bound = link_taken [OF t(2) off]
        have "w = of_int (taken conn p t + int n)" using 2(2) bound(3) by simp
        moreover have "taken conn p t + int n \<le> taken conn ?p t'" "taken conn ?p t' < 2 ^ 64" using 2(1) taken off by (simp_all add: taken_def)
        ultimately show ?thesis using bound(1) int_unat_of_int [of "taken conn p t + int n"] by simp
      qed simp
    qed
  qed
qed

text \<open>A read of another connection leaves the replica's entry alone.\<close>

lemma on_request_acked:
  assumes "serves i conn r" "registry_keys_ok r" "linked r k c" "k \<noteq> conn" "on_request q c r = (out, c', r')"
  shows "acked_offset_of i r' = acked_offset_of i r"
proof -
  have add: "acked_offset_of i (snd (add_replica x r)) = acked_offset_of i r" for x
    using assms(1) by (auto simp: acked_offset_of_def add_replica_def serves_def Let_def)
  consider "r' = r" | t r1 where "handshake t c r = Inr (c', r1)" "r' = r1 \<or> mode c' = ModeReplication \<and> (\<exists>n. r' = record_ack (replica_id c') n r1)"
    using assms(5) by (auto simp: on_request_def apply_ack_def is_ack_def split: sum.splits option.splits if_splits prod.splits from_chars_result.splits)
  then show ?thesis
  proof cases
    case (2 t r1)
    have r1: "acked_offset_of i r1 = acked_offset_of i r" using add 2(1) by (auto simp: handshake_def Let_def split: if_splits prod.splits) (metis snd_conv)
    have "conn_id c \<noteq> conn" using assms(3,4) by (simp add: linked_def)
    then have i: "map_option write_conn (um_find (replicas r1) i) = Some conn"
      using handshake_serves [OF assms(1) _ 2(1)] by (simp add: serves_def)
    show ?thesis
    proof (cases "mode c' = ModeReplication")
      case True
      then have "map_option write_conn (um_find (replicas r1) (replica_id c')) = Some k"
        using handshake_linked [OF assms(2,3) 2(1)] by (simp add: linked_def)
      then have "replica_id c' \<noteq> i" using i assms(4) by auto
      then show ?thesis using 2(2) r1 by (auto simp: acked_offset_of_def record_ack_def split: option.split)
    qed (use 2(2) r1 in auto)
  qed simp
qed

lemma acks_keeps_data:
  assumes "acks_ok i conn p" "pair_ok i conn p" "keeps_data c (srv (mst p)) s" "c \<noteq> conn"
  shows "acks_ok i conn (p\<lparr>mst := (mst p)\<lparr>srv := s, queue := qu\<rparr>\<rparr>)"
proof -
  have "master_ready i conn (srv (mst p))" using assms(2) by (auto simp: pair_ok_def master_ok_def)
  from keeps_data_emits [OF this assms(3,4)] obtain qs where "emits conn (srv (mst p)) qs s" by blast
  moreover have "replicas (replica_reg s) = replicas (replica_reg (srv (mst p)))"
    using assms(3) by (auto simp: keeps_data_def request_getack_def propagate_def)
  ultimately show ?thesis
    using acks_master [OF assms(1,2), of qs "(mst p)\<lparr>srv := s, queue := qu\<rparr>" "past p"] by (simp add: acked_offset_of_def)
qed

lemma acks_same:
  assumes "acks_ok i conn p" "pair_ok i conn p" "master_link r = master_link (rep p)"
  shows "acks_ok i conn (p\<lparr>rep := r\<rparr>)"
proof -
  obtain g t where t: "master_link (rep p) = Some (g, t)" using assms(2) by (auto simp: pair_ok_def)
  show ?thesis
    using acks_replica [OF assms(1) t, of r g t "delivered p"] assms(3) t by (simp add: taken_def in_flight_def)
qed

lemma acks_timer:
  assumes "acks_ok i conn p" "pair_ok i conn p"
  shows "acks_ok i conn (p\<lparr>rep := session_ack (rep p)\<rparr>)"
proof -
  obtain g t rest where t: "master_link (rep p) = Some (g, t)" "link_ok conn p t rest" using assms(2) by (auto simp: pair_ok_def)
  have sent: "ack_message w \<in> set (sent t) \<or> w = replica_offset t" if "ack_message w \<in> set (sent (on_ack_timer t))" for w
    using that ack_message_inject by (auto simp: on_ack_timer_def send_ack_def send_array_def schedule_ack_def ack_message_def split: if_splits)
  let ?r = "session_ack (rep p)"
  have "acks_ok i conn (p\<lparr>rep := ?r, delivered := delivered p\<rparr>)"
  proof (rule acks_replica [OF assms(1) t(1)])
    show "master_link ?r = Some (g, on_ack_timer t)" using t(1) by (simp add: session_ack_def)
    have same: "taken conn (p\<lparr>rep := ?r, delivered := delivered p\<rparr>) (on_ack_timer t) = taken conn p t"
      by (simp add: taken_def in_flight_def on_ack_timer_def)
    then show "taken conn p t \<le> taken conn (p\<lparr>rep := ?r, delivered := delivered p\<rparr>) (on_ack_timer t)" by simp
    show "ack_message w \<in> set (sent t) \<or> int (unat w) \<le> taken conn (p\<lparr>rep := ?r, delivered := delivered p\<rparr>) (on_ack_timer t)"
      if "master_offset (replica_reg (srv (mst p))) < 2 ^ 63" "ack_message w \<in> set (sent (on_ack_timer t))" for w
      using sent [OF that(2)] link_taken(2) [OF t(2) that(1)] same by auto
  qed
  then show ?thesis by simp
qed

lemma acks_arrive:
  assumes "acks_ok i conn p" "pair_ok i conn p" "master_link (rep p) = Some (g, t)" "ack_message w \<in> set (sent t)"
    and "um_find (conns (mst p)) conn = Some c" "complete_read (ack_message w) c (mst p) = Some m"
  shows "acks_ok i conn (p\<lparr>mst := m\<rparr>)"
proof -
  let ?r = "if unat w < 2 ^ 63 then record_ack i (int (unat w)) (replica_reg (srv (mst p))) else replica_reg (srv (mst p))"
  have "master_ok i conn (mst p)" using assms(2) by (auto simp: pair_ok_def)
  note m = ack_read(1) [OF this assms(5,6)]
  have off: "master_offset ?r = master_offset (replica_reg (srv (mst p)))" by (simp add: record_ack_def split: option.split)
  have same: "taken conn (p\<lparr>mst := m\<rparr>) t = taken conn p t" using m off by (simp add: taken_def in_flight_def)
  have acked: "acked_offset_of i ?r \<in> {acked_offset_of i (replica_reg (srv (mst p))), Some (int (unat w))}"
    by (auto simp: acked_offset_of_def record_ack_def split: option.split)
  show ?thesis
  proof (rule acks_okI)
    show "master_link (rep (p\<lparr>mst := m\<rparr>)) = Some (g, t)" using assms(3) by simp
    show "int (unat v) \<le> taken conn (p\<lparr>mst := m\<rparr>) t"
      if "master_offset (replica_reg (srv (mst (p\<lparr>mst := m\<rparr>)))) < 2 ^ 63" "ack_message v \<in> set (sent t)" for v
      using acks_okD(1) [OF assms(1,3) _ that(2)] that(1) same m off by simp
    show "a \<le> taken conn (p\<lparr>mst := m\<rparr>) t"
      if "master_offset (replica_reg (srv (mst (p\<lparr>mst := m\<rparr>)))) < 2 ^ 63" "acked_offset_of i (replica_reg (srv (mst (p\<lparr>mst := m\<rparr>)))) = Some a" for a
    proof -
      have o: "master_offset (replica_reg (srv (mst p))) < 2 ^ 63" using that(1) m off by simp
      have "acked_offset_of i ?r = Some a" using that(2) m by simp
      with acked have "acked_offset_of i (replica_reg (srv (mst p))) = Some a \<or> a = int (unat w)" by force
      then show ?thesis using acks_okD(1) [OF assms(1,3) o assms(4)] acks_okD(2) [OF assms(1,3) o, of a] same by auto
    qed
  qed
qed

lemma acks_reads:
  assumes "acks_ok i conn p" "pair_ok i conn p" "links_ok (mst p)" "um_find (conns (mst p)) k = Some c" "conn_id c \<noteq> conn"
    and "complete_read request c (mst p) = Some m"
  shows "acks_ok i conn (p\<lparr>mst := m\<rparr>)"
proof -
  have sv: "serves i conn (replica_reg (srv (mst p)))" using assms(2) by (auto simp: pair_ok_def master_ok_def master_ready_def)
  have l: "registry_keys_ok (replica_reg (srv (mst p)))" "linked (replica_reg (srv (mst p))) k c" "k \<noteq> conn"
    using assms(3-5) by (auto simp: links_ok_def linked_def)
  obtain out c' r ws where e: "on_request request c (replica_reg (srv (mst p))) = (out, c', r)"
    "srv m = (srv (mst p))\<lparr>replica_reg := r, posted := posted (srv (mst p)) @ map (Pair (conn_id c)) ws\<rparr>"
    by (rule complete_read_effect [OF assms(6)]) blast
  have "sent_to conn (map (Pair (conn_id c)) ws) = []" using assms(5) by (induction ws) (simp_all add: sent_to_def)
  then have "emits conn (srv (mst p)) [] (srv m)" using e(2) on_request_serves [OF sv assms(5) e(1)] by (simp add: emits_def)
  with acks_master [OF assms(1,2), of "[]" m "past p"] on_request_acked [OF sv l e(1)] e(2) show ?thesis by simp
qed

lemma acks_step:
  assumes "pair_step conn p p'" "acks_ok i conn p" "pair_ok i conn p" "links_ok (mst p)" "queues_ok (srv (mst p))"
  shows "acks_ok i conn p'"
  using assms
proof (induction rule: pair_step.induct)
  case (master_writes p c h q tasks m)
  have mr: "master_ready i conn (srv (mst p))" using master_writes(5) by (auto simp: pair_ok_def master_ok_def)
  obtain s where s: "handle h q (K_write c) (srv (mst p)) = Done s" "m = (mst p)\<lparr>srv := s, queue := tasks\<rparr>"
    by (rule run_task_Done [OF master_writes(3,1)])
  have "emits conn (srv (mst p)) [q] (srv m)" using client_write_effect(2) [OF mr master_writes(2) s(1)] s(2) by simp
  moreover have "replicas_kept (srv (mst p)) s" using handle_own_tm [OF master_writes(7) s(1)] by (simp add: own_tm_def)
  ultimately show ?case
    using acks_master [OF master_writes(4,5), of "[q]" m] s(2) by (simp add: acked_offset_of_def replicas_kept_def)
next
  case (master_answers p c h q tasks m)
  have "timeless (store (srv (mst p)))" using master_answers(6) by (auto simp: pair_ok_def master_ok_def master_ready_def)
  with master_answers show ?case by (auto elim!: run_task_Done [OF _ master_answers(1)] intro: acks_keeps_data handle_side)
next
  case (master_polls p tid t target n deadline c s)
  then show ?case using acks_keeps_data [OF master_polls(5,6) fire_keeps_data [OF master_polls(1,2,4)] master_polls(3), of "queue (mst p)"] by simp
next
  case (master_timer p tid)
  then show ?case using acks_keeps_data [OF master_timer(1,2) expire_keeps_data [of "Suc conn" _ tid], of "queue (mst p)"] by simp
next
  case (replica_runs p h q tasks r)
  then show ?case by (intro acks_same) (auto simp: run_task_def split: machine.splits)
next
  case (replica_answers p c h q tasks r)
  then show ?case by (intro acks_same) (auto simp: run_task_def split: machine.splits)
next
  case (replica_reads p k c request r)
  then show ?case using complete_read_tasks by (intro acks_same) auto
next
  case (time_passes p t w t' w')
  let ?m = "(mst p)\<lparr>srv := (srv (mst p))\<lparr>clock := t, wall := w\<rparr>\<rparr>"
  obtain g u where "master_link (rep p) = Some (g, u)" using time_passes(6) by (auto simp: pair_ok_def)
  with time_passes(5) show ?case by (auto simp: acks_ok_def taken_def in_flight_def)
qed (simp_all add: acks_reads acks_arrive acks_delivers acks_timer)

lemma net_runs_ok:
  "net_step\<^sup>*\<^sup>* y y' \<Longrightarrow> links_ok y \<Longrightarrow> queues_ok (srv y) \<Longrightarrow> links_ok y' \<and> queues_ok (srv y')"
  by (induction rule: rtranclp_induct) (auto intro: net_step_links thread_queues.concrete.preserved)

text \<open>A replica that has not acknowledged anything so far.\<close>

definition fresh_acks :: "nat \<Rightarrow> pair \<Rightarrow> bool" where
  "fresh_acks i p \<longleftrightarrow> acked_offset_of i (replica_reg (srv (mst p))) = Some 0 \<and>
     (\<forall>g t w. master_link (rep p) = Some (g, t) \<longrightarrow> ack_message w \<notin> set (sent t))"

interpretation acks_inv: inductive_invariant
  "\<lambda>p. synced i conn p \<and> fresh_acks i p \<and> links_ok (mst p) \<and> queues_ok (srv (mst p))" "pair_step conn"
  "\<lambda>p. pair_ok i conn p \<and> acks_ok i conn p \<and> links_ok (mst p) \<and> queues_ok (srv (mst p))" for i conn
proof
  show "pair_ok i conn p \<and> acks_ok i conn p \<and> links_ok (mst p) \<and> queues_ok (srv (mst p))"
    if p: "synced i conn p \<and> fresh_acks i p \<and> links_ok (mst p) \<and> queues_ok (srv (mst p))" for p
  proof -
    have ok: "pair_ok i conn p" using p synced_ok by blast
    then obtain g t rest where "master_link (rep p) = Some (g, t)" "link_ok conn p t rest" by (auto simp: pair_ok_def)
    then have "acks_ok i conn p" using p link_taken(1) by (intro acks_okI [of p g t]) (auto simp: fresh_acks_def)
    with ok p show ?thesis by blast
  qed
  show "pair_ok i conn p' \<and> acks_ok i conn p' \<and> links_ok (mst p') \<and> queues_ok (srv (mst p'))"
    if "pair_step conn p p'" "pair_ok i conn p \<and> acks_ok i conn p \<and> links_ok (mst p) \<and> queues_ok (srv (mst p))" for p p'
    using that pair_step_ok acks_step net_runs_ok pair_step_net by blast
qed

section \<open>Properties\<close>


lemma pair_example_ok: "fresh_acks 0 pair_example" "links_ok (mst pair_example)" "queues_ok (srv (mst pair_example))"
proof -
  have r: "um_find (replicas (replica_reg master_example)) j = (if j = 0 then Some \<lparr>write_conn = 9, acked_offset = 0\<rparr> else None)"
    "um_ok (replicas (replica_reg master_example))" for j
    by (simp_all add: master_example_fields um_find_def um_ok_def)
  then show "links_ok (mst pair_example)" using master_example_fields(9)
    by (auto simp: links_ok_def registry_keys_ok_def linked_def pair_example_def new_connection_def split: if_splits)
  show "fresh_acks 0 pair_example" using r by (simp add: fresh_acks_def acked_offset_of_def pair_example_def new_session_def)
  show "queues_ok (srv (mst pair_example))" using master_example_fields(10,11)
    by (simp add: queues_ok_def plain_ctxs_def pair_example_def)
qed


end
