(* ===== verification/Replies.thy ===== *)
theory Replies
  imports Request_Properties
begin

text \<open>
  The replies as messages of the wire format that a client reads. A reply is one message: it is well
  formed, and a reader that takes messages off the stream finds exactly this one, whatever follows.
  The exceptions are the replies without a line end and the ones that repeat a name with one.
\<close>

section \<open>Messages\<close>

definition plain :: "string \<Rightarrow> bool" where
  "plain t \<longleftrightarrow> CR \<notin> set t \<and> LF \<notin> set t"

text \<open>
  RESP messages as a client reads them: a status, an error or a number on a line; a bulk string; the
  two null values; an array of messages.
\<close>

inductive is_reply :: "string \<Rightarrow> bool" where
  line [intro]: "c \<in> {CHR ''+'', CHR ''-'', CHR '':''} \<Longrightarrow> plain t \<Longrightarrow> is_reply (c # t @ crlf)"
| bulk [simp, intro]: "is_reply (bulk_reply b)"
| null_bulk [simp, intro]: "is_reply null_bulk"
| null_array [simp, intro]: "is_reply null_array"
| array: "(\<And>r. r \<in> set rs \<Longrightarrow> is_reply r) \<Longrightarrow> is_reply (array_header (length rs) @ concat rs)"

lemma plain_simps [simp]:
  "plain []" "plain (c # t) \<longleftrightarrow> c \<noteq> CR \<and> c \<noteq> LF \<and> plain t" "plain (t @ u) \<longleftrightarrow> plain t \<and> plain u"
  "plain (nat_str n)" "plain (int_str i)"
proof -
  show "plain (nat_str n)" for n using nat_str_digits [of _ n] digit_neq by (auto simp: plain_def)
  then show "plain (int_str i)" by (auto simp: int_str_def plain_def)
qed (auto simp: plain_def)

text \<open>The text before the first CR is determined by the stream.\<close>

lemma plain_line_unique:
  assumes "t @ CR # u = t' @ CR # u'" "plain t" "plain t'"
  shows "t = t' \<and> u = u'"
proof -
  have tw: "takeWhile (\<lambda>c. c \<noteq> CR) (t @ CR # u) = t" if "plain t" for t u
    using that by (subst takeWhile_append2) (auto simp: plain_def)
  have "t = t'" using tw [OF assms(2), of u] tw [OF assms(3), of u'] assms(1) by simp
  with assms(1) show ?thesis by simp
qed

lemma crlf_line_unique:
  "t @ crlf @ u = t' @ crlf @ u' \<Longrightarrow> plain t \<Longrightarrow> plain t' \<Longrightarrow> t = t' \<and> u = u'"
  using plain_line_unique [of t "LF # u" t' "LF # u'"] by simp

lemma nat_str_inj: "nat_str m = nat_str n \<Longrightarrow> m = n"
  by (metis digits_val_nat_str)

lemma nat_str_not_minus: "nat_str n \<noteq> CHR ''-'' # t"
  using nat_str_digits [of "CHR ''-''" n] digit_neq by (metis list.set_intros(1))

lemma concat_unique:
  assumes "concat rs @ u = concat rs' @ u'" "length rs = length rs'"
    and "\<And>r r' v v'. r \<in> set rs \<Longrightarrow> r' \<in> set rs' \<Longrightarrow> r @ v = r' @ v' \<Longrightarrow> r = r'"
  shows "rs = rs'"
  using assms(2,1,3)
proof (induction rs rs' rule: list_induct2)
  case (Cons r rs r' rs')
  then have "r = r'" by (metis append.assoc concat.simps(2) list.set_intros(1))
  with Cons show ?case by simp
qed simp

text \<open>Messages are prefix-free.\<close>

lemma is_reply_unique:
  "is_reply r \<Longrightarrow> is_reply r' \<Longrightarrow> r @ u = r' @ u' \<Longrightarrow> r = r'"
proof (induction r arbitrary: r' u u' rule: is_reply.induct)
  case (line c t)
  from line(3) show ?case
  proof cases
    case (line c' t')
    with \<open>(c # t @ crlf) @ u = r' @ u'\<close> \<open>plain t\<close> show ?thesis using crlf_line_unique [of t u t' u'] by simp
  qed (use line(1,4) in \<open>auto simp: bulk_reply_def null_bulk_def null_array_def array_header_def\<close>)
next
  case (bulk b)
  from bulk(1) show ?case
  proof cases
    case (bulk b')
    have "nat_str (length b) @ crlf @ b @ crlf @ u = nat_str (length b') @ crlf @ b' @ crlf @ u'"
      using \<open>bulk_reply b @ u = r' @ u'\<close> bulk by (simp add: bulk_reply_def)
    from crlf_line_unique [OF this] have "length b = length b'" "b @ crlf @ u = b' @ crlf @ u'"
      using nat_str_inj by auto
    then show ?thesis using bulk by simp
  next
    case null_bulk
    with \<open>bulk_reply b @ u = r' @ u'\<close> show ?thesis
      using crlf_line_unique [of "nat_str (length b)" "b @ crlf @ u" "''-1''" u'] nat_str_not_minus
      by (auto simp: bulk_reply_def null_bulk_def)
  qed (use bulk(2) in \<open>auto simp: bulk_reply_def null_array_def array_header_def\<close>)
next
  case null_bulk
  from null_bulk(1) show ?case
  proof cases
    case (bulk b)
    with \<open>null_bulk @ u = r' @ u'\<close> show ?thesis
      using crlf_line_unique [of "nat_str (length b)" "b @ crlf @ u'" "''-1''" u] nat_str_not_minus
      by (auto simp: bulk_reply_def null_bulk_def)
  qed (use null_bulk(2) in \<open>auto simp: null_bulk_def null_array_def array_header_def\<close>)
next
  case null_array
  from null_array(1) show ?case
  proof cases
    case (array rs)
    with \<open>null_array @ u = r' @ u'\<close> show ?thesis
      using crlf_line_unique [of "nat_str (length rs)" "concat rs @ u'" "''-1''" u] nat_str_not_minus
      by (auto simp: array_header_def null_array_def)
  qed (use null_array(2) in \<open>auto simp: null_array_def null_bulk_def bulk_reply_def\<close>)
next
  case (array rs)
  from array(3) show ?case
  proof cases
    case null_array
    with \<open>(array_header (length rs) @ concat rs) @ u = r' @ u'\<close> show ?thesis
      using crlf_line_unique [of "nat_str (length rs)" "concat rs @ u" "''-1''" u'] nat_str_not_minus
      by (auto simp: array_header_def null_array_def)
  next
    case (array rs')
    have "nat_str (length rs) @ crlf @ concat rs @ u = nat_str (length rs') @ crlf @ concat rs' @ u'"
      using \<open>(array_header (length rs) @ concat rs) @ u = r' @ u'\<close> array(1) by (simp add: array_header_def)
    from crlf_line_unique [OF this] have "length rs = length rs'" "concat rs @ u = concat rs' @ u'"
      using nat_str_inj by auto
    then have "rs = rs'" using concat_unique [of rs u rs' u'] array.IH array(2) by blast
    with array(1) show ?thesis by simp
  qed (use array(4) in \<open>auto simp: array_header_def null_bulk_def bulk_reply_def\<close>)
qed

text \<open>A line, by computation: no CR or LF before the CR LF at its end.\<close>

fun line_end :: "string \<Rightarrow> bool" where
  "line_end [] = False"
| "line_end (c # u) = (if c = CR then u = [LF] else c \<noteq> LF \<and> line_end u)"

lemma line_end_append [simp]: "plain t \<Longrightarrow> line_end (t @ u) = line_end u"
  by (induction t) auto

lemma line_end_line: "line_end u \<Longrightarrow> \<exists>t. plain t \<and> u = t @ crlf"
proof (induction u)
  case (Cons c u)
  show ?case
  proof (cases "c = CR")
    case False
    with Cons obtain t where "plain t" "u = t @ crlf" by auto
    with False Cons.prems show ?thesis by (intro exI [of _ "c # t"]) auto
  qed (use Cons.prems in \<open>auto intro!: exI [of _ "[]"]\<close>)
qed simp

lemma is_reply_line [simp]:
  "is_reply (CHR ''+'' # u) = line_end u" "is_reply (CHR ''-'' # u) = line_end u" "is_reply (CHR '':'' # u) = line_end u"
proof -
  have "line_end u" if "c \<in> {CHR ''+'', CHR ''-'', CHR '':''}" "is_reply (c # u)" for c
    using that(2,1) by cases (auto simp: bulk_reply_def null_bulk_def null_array_def array_header_def)
  moreover have "is_reply (c # u)" if "c \<in> {CHR ''+'', CHR ''-'', CHR '':''}" "line_end u" for c
    using line_end_line [OF that(2)] that(1) by auto
  ultimately show "is_reply (CHR ''+'' # u) = line_end u" "is_reply (CHR ''-'' # u) = line_end u" "is_reply (CHR '':'' # u) = line_end u"
    by blast+
qed

section \<open>Replies of the store\<close>

lemma is_reply_array: "length rs = n \<Longrightarrow> (\<And>r. r \<in> set rs \<Longrightarrow> is_reply r) \<Longrightarrow> is_reply (array_header n @ concat rs)"
  using is_reply.array [of rs] by auto

lemma items_reply_ok [simp]: "is_reply (items_reply xs)"
  unfolding items_reply_def by (rule is_reply_array) auto

lemma pair_header: "''*2'' @ crlf = array_header 2"
  by (simp add: array_header_def nat_str.simps num_simps)

lemma is_reply_pair: "is_reply a \<Longrightarrow> is_reply b \<Longrightarrow> is_reply (array_header 2 @ a @ b)"
  using is_reply_array [of "[a, b]" 2] by auto

lemma blpop_reply_ok [simp]: "is_reply (blpop_reply key v)"
  using is_reply_pair [of "bulk_reply key" "bulk_reply v"] unfolding blpop_reply_def by (simp flip: pair_header)

lemma entry_reply_ok [simp]: "is_reply (entry_reply e)"
proof -
  let ?fs = "concat (map (\<lambda>(f, v). [bulk_reply f, bulk_reply v]) (entry_fields e))"
  have "length ?fs = length (entry_fields e) * 2" by (induction "entry_fields e" arbitrary: e) (auto simp: length_concat comp_def case_prod_beta sum_list_triv)
  then have "is_reply (array_header (length (entry_fields e) * 2) @ concat ?fs)" by (rule is_reply_array) auto
  moreover have "concat (map (\<lambda>(f, v). bulk_reply f @ bulk_reply v) xs) = concat (concat (map (\<lambda>(f, v). [bulk_reply f, bulk_reply v]) xs))" for xs
    by (induction xs) auto
  ultimately show ?thesis
    using is_reply_pair [of "bulk_reply (entry_id e)"] unfolding entry_reply_def by (simp flip: pair_header)
qed

lemma entries_reply_ok [simp]: "is_reply (array_header (length es) @ concat (map entry_reply es))"
  by (rule is_reply_array) auto

lemma format_stream_entries_ok [simp]: "is_reply (format_stream_entries results)"
proof -
  have "is_reply (''*2'' @ crlf @ bulk_reply key @ array_header (length es) @ concat (map entry_reply es))" for key es
    using is_reply_pair [of "bulk_reply key", OF _ entries_reply_ok [of es]] by (simp flip: pair_header)
  then show ?thesis unfolding format_stream_entries_def by (auto intro!: is_reply_array)
qed

text \<open>The messages of the exceptions that the stream commands catch.\<close>

lemma stream_errors_plain:
  "parse_stream_bound t b = Inl e \<Longrightarrow> plain (exn_what e)"
  "generate_stream_id w pat l = Inl e \<Longrightarrow> plain (exn_what e)"
proof -
  have st: "stoull t = Inl e \<Longrightarrow> plain (exn_what e)" for t e
    by (auto simp: stoull_def split: prod.splits if_splits)
  then show "parse_stream_bound t b = Inl e \<Longrightarrow> plain (exn_what e)"
    by (auto simp: parse_stream_bound_def split: if_splits option.splits sum.splits)
  show "generate_stream_id w pat l = Inl e \<Longrightarrow> plain (exn_what e)"
    by (auto simp: generate_stream_id_def parse_stream_id_def parse_last_id_def resolve_seq_def validate_id_def ll_checked_def Let_def
        dest: st split: if_splits option.splits sum.splits)
qed

lemma xrange_loop_error_plain: "xrange_loop a b res es = Inl e \<Longrightarrow> plain (exn_what e)"
  by (induction a b res es rule: xrange_loop.induct) (auto dest: stream_errors_plain(1) split: sum.splits if_splits)

lemma xread_loop_error_plain: "xread_loop a res es = Inl e \<Longrightarrow> plain (exn_what e)"
  by (induction a res es rule: xread_loop.induct) (auto dest: stream_errors_plain(1) split: sum.splits if_splits)

lemma xrange_error_plain: "xrange d key a b = Inl e \<Longrightarrow> plain (exn_what e)"
  by (auto simp: xrange_def dest: stream_errors_plain(1) xrange_loop_error_plain split: option.splits value_variant.splits sum.splits)

lemma xread_error_plain: "xread d keys ids = Inl e \<Longrightarrow> plain (exn_what e)"
  by (induction d keys ids rule: xread.induct)
     (auto dest: stream_errors_plain(1) xread_loop_error_plain split: option.splits value_variant.splits sum.splits if_splits)

lemma xadd_error_plain: "xadd w d key i fs = (Inr (Inl err), d') \<Longrightarrow> is_reply (err @ crlf)"
  by (auto simp: xadd_def wrong_type_error_def Let_def dest!: stream_errors_plain(2)
      split: if_splits prod.splits sum.splits cpp_exn.splits option.splits)

section \<open>Replies of the commands\<close>

text \<open>The texts that a step of a command replies with.\<close>

definition replies_in :: "(string \<Rightarrow> bool) \<Rightarrow> step_result \<Rightarrow> bool" where
  "replies_in P R \<longleftrightarrow> (\<forall>k r. F_reply k r \<in> set (result_frames R) \<longrightarrow> P r)"

lemma replies_in_simps [simp]:
  "replies_in P (Throw e s)" "replies_in P (Next [] s)"
  "replies_in P (Next (F_reply k r # gs) s) \<longleftrightarrow> P r \<and> replies_in P (Next gs s)"
  "replies_in P (Next (F_catch k # gs) s) = replies_in P (Next gs s)"
  "replies_in P (Next (F_serve_blpop key # gs) s) = replies_in P (Next gs s)"
  "replies_in P (Next (F_serve_xread ws # gs) s) = replies_in P (Next gs s)"
  "replies_in P (Next (F_run_next c # gs) s) = replies_in P (Next gs s)"
  "replies_in P (Next (F_poll target m dl k # gs) s) = replies_in P (Next gs s)"
  by (auto simp: replies_in_def)

lemma replies_in_args:
  "plain (cname cmd) \<Longrightarrow> (\<And>r. is_reply r \<Longrightarrow> P r) \<Longrightarrow> replies_in P body \<Longrightarrow> replies_in P (with_args cmd n k s body)"
  by (auto simp: with_args_def check_args_def split: option.split)

lemma replies_in_catch: "plain (exn_what e) \<Longrightarrow> replies_in is_reply (catch_reply e k s)"
  by (simp add: catch_reply_def)

lemmas reply_splits = list.split prod.split sum.split option.split

lemma replies_basic:
  assumes "plain (cname cmd)"
  shows "replies_in is_reply (exec_ping cmd k s)" "replies_in is_reply (exec_info h cmd k s)"
    "replies_in is_reply (exec_echo cmd k s)" "replies_in is_reply (exec_set cmd k s)"
    "replies_in (\<lambda>r. is_reply r \<or> r = wrong_type_error) (exec_get cmd k s)"
    "replies_in is_reply (exec_type cmd k s)" "replies_in is_reply (exec_incr cmd k s)"
proof -
  have t: "plain (store_type_str x)" for x by (cases x) simp_all
  have i: "string_incr c d key = (Inl err, d') \<Longrightarrow> is_reply err" for c d key err d'
    by (auto simp: string_incr_def not_integer_error_def Let_def split: option.splits if_splits value_variant.splits from_chars_result.splits)
  have g: "string_get c d key = (Inl err, d') \<Longrightarrow> err = ''Key not found'' \<or> err = wrong_type_error" for c d key err d'
    by (auto simp: string_get_def split: option.splits if_splits value_variant.splits)
  have nf: "\<not> sublist ''-WRONGTYPE'' ''Key not found''" by code_simp
  show "replies_in is_reply (exec_ping cmd k s)" "replies_in is_reply (exec_info h cmd k s)"
    "replies_in is_reply (exec_echo cmd k s)" "replies_in is_reply (exec_set cmd k s)" "replies_in is_reply (exec_type cmd k s)"
    using assms t
    by (auto simp: exec_ping_def exec_info_def exec_echo_def exec_set_def exec_type_def Let_def intro!: replies_in_args split: reply_splits)
  show "replies_in is_reply (exec_incr cmd k s)"
    using assms i by (auto simp: exec_incr_def Let_def intro!: replies_in_args split: reply_splits)
  show "replies_in (\<lambda>r. is_reply r \<or> r = wrong_type_error) (exec_get cmd k s)"
    using assms g nf by (fastforce simp: exec_get_def intro!: replies_in_args split: reply_splits)
qed

lemma replies_lists:
  assumes "plain (cname cmd)"
  shows "replies_in is_reply (exec_rpush cmd k s)" "replies_in is_reply (exec_lpush cmd k s)"
    "replies_in is_reply (exec_lrange cmd k s)" "replies_in is_reply (exec_llen cmd k s)"
    "replies_in (\<lambda>r. is_reply r \<or> r = wrong_type_error) (exec_lpop cmd k s)" "replies_in is_reply (exec_blpop cmd k s)"
proof -
  have g: "lpop d key n = (Inl err, d') \<Longrightarrow> err = ''Key not found'' \<or> err = wrong_type_error" for d key n err d'
    by (auto simp: lpop_def Let_def split: option.splits value_variant.splits)
  have nf: "\<not> sublist ''-WRONGTYPE'' ''Key not found''" by code_simp
  show "replies_in is_reply (exec_rpush cmd k s)" "replies_in is_reply (exec_lpush cmd k s)"
    "replies_in is_reply (exec_lrange cmd k s)" "replies_in is_reply (exec_llen cmd k s)" "replies_in is_reply (exec_blpop cmd k s)"
    using assms
    by (auto simp: exec_rpush_def exec_lpush_def exec_lrange_def exec_llen_def exec_blpop_def length_reply_def Let_def
        intro!: replies_in_args split: reply_splits)
  show "replies_in (\<lambda>r. is_reply r \<or> r = wrong_type_error) (exec_lpop cmd k s)"
    using assms g nf by (fastforce simp: exec_lpop_def Let_def intro!: replies_in_args split: reply_splits)
qed

lemma replies_streams:
  "replies_in is_reply (exec_xadd cmd k s)" "replies_in is_reply (exec_xrange cmd k s)" "replies_in is_reply (exec_xread cmd k s)"
  by (auto simp: exec_xadd_def exec_xrange_def exec_xread_def setup_xread_blocking_def replies_in_catch Let_def
      dest: xadd_error_plain xrange_error_plain xread_error_plain split: reply_splits)

lemma replies_control:
  assumes "plain (cname cmd)"
  shows "replies_in is_reply (exec_multi h k s)" "replies_in is_reply (exec_watch h cmd k s)"
    "replies_in is_reply (exec_unwatch h cmd k s)" "replies_in is_reply (exec_exec h k s)"
    "replies_in is_reply (exec_discard h k s)" "replies_in is_reply (exec_replconf k s)" "replies_in is_reply (exec_wait h cmd k s)"
proof -
  have z: "is_reply (CHR ''*'' # CHR ''0'' # crlf)"
    using is_reply_array [of "[]" 0] by (simp add: array_header_def nat_str.simps num_simps)
  show "replies_in is_reply (exec_exec h k s)"
    using z by (auto simp: exec_exec_def Let_def split: prod.split)
  show "replies_in is_reply (exec_multi h k s)" "replies_in is_reply (exec_watch h cmd k s)"
    "replies_in is_reply (exec_unwatch h cmd k s)" "replies_in is_reply (exec_discard h k s)"
    "replies_in is_reply (exec_replconf k s)" "replies_in is_reply (exec_wait h cmd k s)"
    using assms by (auto simp: exec_multi_def exec_watch_def exec_unwatch_def exec_discard_def exec_replconf_def exec_wait_def
        Let_def intro!: replies_in_args split: reply_splits)
qed

lemma replies_exec_command:
  assumes "plain (cname cmd)" "ctype cmd \<noteq> Psync"
  shows "replies_in (\<lambda>r. is_reply r \<or> ctype cmd \<in> {Get, LPop} \<and> r = wrong_type_error) (exec_command h cmd k s)"
proof -
  have mono: "replies_in is_reply R \<Longrightarrow> replies_in (\<lambda>r. is_reply r \<or> Q r) R" for R Q by (auto simp: replies_in_def)
  show ?thesis
    using assms(2) replies_basic [OF assms(1)] replies_lists [OF assms(1)] replies_streams replies_control [OF assms(1)]
    by (cases "ctype cmd") (auto simp: exec_command_def intro: mono)
qed

text \<open>What a step needs of the requests and of the replies made before.\<close>

definition asks_plain :: "frame \<Rightarrow> server \<Rightarrow> bool" where
  "asks_plain f s \<longleftrightarrow>
     (case f of
        F_exec h cmd k \<Rightarrow> plain (cname cmd) \<and> ctype cmd \<noteq> Psync
      | F_reply k r \<Rightarrow> is_reply r
      | F_run_next c \<Rightarrow> (\<forall>x. um_find (ctxs s) c = Some x \<longrightarrow> list_all is_reply (cx_results x))
      | _ \<Rightarrow> True)"

lemma replies_step:
  assumes "asks_plain f s"
  shows "replies_in (\<lambda>r. is_reply r \<or> (\<exists>h cmd k. f = F_exec h cmd k \<and> ctype cmd \<in> {Get, LPop} \<and> r = wrong_type_error)) (step f s)"
proof (cases f)
  case (F_exec h cmd k)
  with assms replies_exec_command [of cmd h k s] show ?thesis by (auto simp: asks_plain_def replies_in_def)
next
  case (F_reply k r)
  with assms show ?thesis by (cases k) (auto simp: asks_plain_def exec_callback_def replies_in_def Let_def split: option.splits)
next
  case (F_run_next c)
  with assms show ?thesis
    by (auto simp: asks_plain_def run_next_def replies_in_def list_all_iff Let_def intro!: is_reply_array
        split: option.splits sum.splits if_splits)
qed (auto simp: serve_blpop_waiters_def serve_xread_waiters_def wait_poll_def replies_in_def Let_def
      split: list.splits prod.splits sum.splits if_splits)

section \<open>Properties\<close>





end
