(* ===== verification/Waiting.thy ===== *)
theory Waiting
  imports Blocking Isolation
begin

text \<open>
  Blocked clients and their timers (\<^verbatim>\<open>BlpopCommand::execute\<close>, \<^verbatim>\<open>setup_xread_blocking\<close>,
  \<^verbatim>\<open>BlockingManager\<close>): a client that waits for a list or a stream is registered, and a timer keeps the
  same callback for the time-out. Serving the client takes back the registration and cancels the
  timer; the time-out takes back the registration and replies. The two agree in every reachable state.
\<close>

section \<open>Registrations and timers\<close>

text \<open>
  \<open>tm\<close> and \<open>rp\<close> are the timer and the callback of a waiter, \<open>task\<close> is the handler of its timer. Every
  registration has its timer; every timer that has not expired has its registration; and no two
  timers belong to one registration.
\<close>

definition waits_ok ::
  "('w \<Rightarrow> nat) \<Rightarrow> ('w \<Rightarrow> reply_k) \<Rightarrow> (nat \<Rightarrow> reply_k \<Rightarrow> timer_task) \<Rightarrow> 'w registry \<Rightarrow> (nat, timer) umap \<Rightarrow> bool" where
  "waits_ok tm rp task r T \<longleftrightarrow>
     (\<forall>key c w. (c, w) \<in> set (regs_at r key) \<longrightarrow> (\<exists>t. um_find T (tm w) = Some t \<and> t_task t = task c (rp w))) \<and>
     (\<forall>i t c k. um_find T i = Some t \<longrightarrow> t_task t = task c k \<longrightarrow>
        c < next_id r \<and> (\<not> t_ready t \<longrightarrow> (\<exists>key w. (c, w) \<in> set (regs_at r key) \<and> tm w = i \<and> rp w = k))) \<and>
     (\<forall>i t j u c k k'. um_find T i = Some t \<longrightarrow> um_find T j = Some u \<longrightarrow> t_task t = task c k \<longrightarrow> t_task u = task c k' \<longrightarrow> i = j)"

text \<open>A waiter that is or was registered: the timer that it names is the one of its registration.\<close>

definition waiter_ok ::
  "('w \<Rightarrow> nat) \<Rightarrow> (nat \<Rightarrow> reply_k \<Rightarrow> timer_task) \<Rightarrow> 'w registry \<Rightarrow> (nat, timer) umap \<Rightarrow> nat \<Rightarrow> nat \<Rightarrow> 'w \<Rightarrow> bool" where
  "waiter_ok tm task r T n c w \<longleftrightarrow>
     c < next_id r \<and> tm w < n \<and> (\<forall>i t k. um_find T i = Some t \<longrightarrow> t_task t = task c k \<longrightarrow> i = tm w) \<and>
     (\<forall>t. um_find T (tm w) = Some t \<longrightarrow> (\<exists>k. t_task t = task c k))"

definition drop_timer :: "nat \<Rightarrow> (nat, timer) umap \<Rightarrow> (nat, timer) umap" where
  "drop_timer i T = (case um_find T i of Some t \<Rightarrow> if t_ready t then T else um_erase i T | None \<Rightarrow> T)"

lemma timers_cancel [simp]: "timers (cancel_timer i s) = drop_timer i (timers s)"
  by (simp add: cancel_timer_def drop_timer_def split: option.split)

lemma um_find_drop:
  "um_find (drop_timer i T) j = (if j = i \<and> (\<exists>t. um_find T i = Some t \<and> \<not> t_ready t) then None else um_find T j)"
  by (auto simp: drop_timer_def split: option.split)

lemma waits_okI:
  assumes "\<And>key c w. (c, w) \<in> set (regs_at r key) \<Longrightarrow> \<exists>t. um_find T (tm w) = Some t \<and> t_task t = task c (rp w)"
    and "\<And>i t c k. um_find T i = Some t \<Longrightarrow> t_task t = task c k \<Longrightarrow> c < next_id r"
    and "\<And>i t c k. um_find T i = Some t \<Longrightarrow> t_task t = task c k \<Longrightarrow> \<not> t_ready t \<Longrightarrow>
      \<exists>key w. (c, w) \<in> set (regs_at r key) \<and> tm w = i \<and> rp w = k"
    and "\<And>i t j u c k k'. um_find T i = Some t \<Longrightarrow> um_find T j = Some u \<Longrightarrow> t_task t = task c k \<Longrightarrow> t_task u = task c k' \<Longrightarrow> i = j"
  shows "waits_ok tm rp task r T"
  unfolding waits_ok_def using assms by blast

lemma waits_okD:
  assumes "waits_ok tm rp task r T"
  shows "(c, w) \<in> set (regs_at r key) \<Longrightarrow> \<exists>t. um_find T (tm w) = Some t \<and> t_task t = task c (rp w)"
    and "um_find T i = Some t \<Longrightarrow> t_task t = task c k \<Longrightarrow> c < next_id r"
    and "um_find T i = Some t \<Longrightarrow> t_task t = task c k \<Longrightarrow> \<not> t_ready t \<Longrightarrow>
      \<exists>key w. (c, w) \<in> set (regs_at r key) \<and> tm w = i \<and> rp w = k"
    and "um_find T i = Some t \<Longrightarrow> um_find T j = Some u \<Longrightarrow> t_task t = task c k \<Longrightarrow> t_task u = task c k' \<Longrightarrow> i = j"
  using assms unfolding waits_ok_def by blast+

locale waiters =
  fixes tm :: "'w \<Rightarrow> nat"
    and rp :: "'w \<Rightarrow> reply_k"
    and task :: "nat \<Rightarrow> reply_k \<Rightarrow> timer_task"
  assumes task_inj: "task c k = task c' k' \<Longrightarrow> c = c' \<and> k = k'"
begin

lemma registered_waiter:
  assumes "waits_ok tm rp task r T" "registry_ok r" "\<forall>i t. um_find T i = Some t \<longrightarrow> i < n" "(c, w) \<in> set (regs_at r key)"
  shows "waiter_ok tm task r T n c w"
proof -
  obtain t where t: "um_find T (tm w) = Some t" "t_task t = task c (rp w)" using waits_okD(1) [OF assms(1,4)] by blast
  show ?thesis
    unfolding waiter_ok_def
  proof (intro conjI allI impI)
    show "c < next_id r" by (rule waits_okD(2) [OF assms(1) t])
    show "tm w < n" using assms(3) t(1) by blast
    show "i = tm w" if "um_find T i = Some u" "t_task u = task c k" for i u k
      by (rule waits_okD(4) [OF assms(1) that(1) t(1) that(2) t(2)])
    show "\<exists>k. t_task u = task c k" if "um_find T (tm w) = Some u" for u using that t by auto
  qed
qed

lemma waits_block:
  assumes "waits_ok tm rp task r T" "\<forall>i t. um_find T i = Some t \<longrightarrow> i < n"
    and "register_callbacks keys w r = (c, r')" "keys \<noteq> []" "tm w = n" "t_task t = task c (rp w)"
  shows "waits_ok tm rp task r' (um_put n t T)"
proof (rule waits_okI)
  have c: "c = next_id r" "next_id r' = Suc c" using assms(3) by (auto simp: register_callbacks_def Let_def)
  have regs: "set (regs_at r' key) = set (regs_at r key) \<union> (if key \<in> set keys then {(c, w)} else {})" for key
    using regs_at_register [of keys w r key] assms(3) count_list_0_iff [of keys key] by auto
  have n: "um_find T n = None" using assms(2) by (cases "um_find T n") auto
  note old = waits_okD [OF assms(1)]
  have new: "c' \<noteq> c" if "um_find T i = Some u" "t_task u = task c' k" for i u c' k using old(2) [OF that] c(1) by simp
  show "\<exists>u. um_find (um_put n t T) (tm w') = Some u \<and> t_task u = task c' (rp w')" if "(c', w') \<in> set (regs_at r' key)" for key c' w'
  proof (cases "(c', w') \<in> set (regs_at r key)")
    case True
    then show ?thesis using old(1) [OF True] n by auto
  qed (use that regs assms(5,6) in \<open>auto split: if_splits\<close>)
  show "c' < next_id r'" if "um_find (um_put n t T) i = Some u" "t_task u = task c' k" for i u c' k
    using that old(2) [of i u c' k] c assms(6) task_inj by (auto split: if_splits)
  show "\<exists>key w'. (c', w') \<in> set (regs_at r' key) \<and> tm w' = i \<and> rp w' = k"
    if "um_find (um_put n t T) i = Some u" "t_task u = task c' k" "\<not> t_ready u" for i u c' k
  proof (cases "i = n")
    case True
    then have "c' = c" "k = rp w" using that(1,2) assms(6) task_inj by auto
    moreover obtain key where "key \<in> set keys" using assms(4) by fastforce
    ultimately show ?thesis using True assms(5) regs by (intro exI [of _ key] exI [of _ w]) auto
  qed (use that old(3) [of i u c' k] regs in auto)
  show "i = j"
    if "um_find (um_put n t T) i = Some u" "um_find (um_put n t T) j = Some v" "t_task u = task c' k" "t_task v = task c' k'"
    for i u j v c' k k'
  proof -
    have other: "c' = c \<longleftrightarrow> x = n" if "um_find (um_put n t T) x = Some y" "t_task y = task c' l" for x y l
      using that new [of x y c' l] assms(6) task_inj by (auto split: if_splits)
    show ?thesis
      using other [OF that(1,3)] other [OF that(2,4)] that old(4) [of i u j v c' k k'] by (auto split: if_splits)
  qed
qed

text \<open>
  The end of a registration \<open>c\<close> with its only timer \<open>x\<close>: the timer goes, or it stays because it has expired
  already.
\<close>

lemma waits_remove:
  assumes "waits_ok tm rp task r T" "registry_ok r"
    and own: "\<And>u. um_find T x = Some u \<Longrightarrow> \<exists>k. t_task u = task c k"
    and only: "\<And>i u k. um_find T i = Some u \<Longrightarrow> t_task u = task c k \<Longrightarrow> i = x"
    and T': "\<And>j. j \<noteq> x \<Longrightarrow> um_find T' j = um_find T j" "\<And>u. um_find T' x = Some u \<Longrightarrow> um_find T x = Some u \<and> t_ready u"
  shows "waits_ok tm rp task (unregister c r) T'"
proof (rule waits_okI)
  note old = waits_okD [OF assms(1)]
  have regs: "set (regs_at (unregister c r) key) = {y \<in> set (regs_at r key). fst y \<noteq> c}" for key
    using regs_at_unregister [OF assms(2), of c key] by auto
  have T: "um_find T i = Some u" if "um_find T' i = Some u" for i u using T' that by (cases "i = x") auto
  show "\<exists>u. um_find T' (tm w) = Some u \<and> t_task u = task c' (rp w)" if "(c', w) \<in> set (regs_at (unregister c r) key)" for key c' w
  proof -
    have reg: "(c', w) \<in> set (regs_at r key)" "c' \<noteq> c" using that regs by auto
    obtain u where u: "um_find T (tm w) = Some u" "t_task u = task c' (rp w)" using old(1) [OF reg(1)] by blast
    have "tm w \<noteq> x" using own u task_inj reg(2) by metis
    with u T'(1) show ?thesis by simp
  qed
  show "c' < next_id (unregister c r)" if "um_find T' i = Some u" "t_task u = task c' k" for i u c' k
    using old(2) [OF T [OF that(1)] that(2)] by (simp add: unreg_keys)
  show "\<exists>key w. (c', w) \<in> set (regs_at (unregister c r) key) \<and> tm w = i \<and> rp w = k"
    if "um_find T' i = Some u" "t_task u = task c' k" "\<not> t_ready u" for i u c' k
  proof -
    have "c' \<noteq> c" using only [OF T [OF that(1)], of k] T'(2) [of u] that by blast
    then show ?thesis using old(3) [OF T [OF that(1)] that(2,3)] regs by auto
  qed
  show "i = j" if "um_find T' i = Some u" "um_find T' j = Some v" "t_task u = task c' k" "t_task v = task c' k'" for i u j v c' k k'
    using old(4) [OF T [OF that(1)] T [OF that(2)] that(3,4)] .
qed

text \<open>Serving a waiter, which may be registered no longer, and the time-out of one.\<close>

lemma waits_serve:
  assumes "waits_ok tm rp task r T" "registry_ok r" "waiter_ok tm task r T n c w"
  shows "waits_ok tm rp task (unregister c r) (drop_timer (tm w) T)"
proof (rule waits_remove [OF assms(1,2), of "tm w"])
  show "\<exists>k. t_task u = task c k" if "um_find T (tm w) = Some u" for u using assms(3) that unfolding waiter_ok_def by blast
  show "i = tm w" if "um_find T i = Some u" "t_task u = task c k" for i u k using assms(3) that unfolding waiter_ok_def by blast
qed (auto simp: um_find_drop split: if_splits)

lemma waits_fire:
  assumes "waits_ok tm rp task r T" "registry_ok r" "um_find T i = Some t" "t_task t = task c k"
  shows "waits_ok tm rp task (unregister c r) (um_erase i T)"
proof (rule waits_remove [OF assms(1,2), of i])
  show "\<exists>k. t_task u = task c k" if "um_find T i = Some u" for u using that assms(3,4) by auto
  show "j = i" if "um_find T j = Some u" "t_task u = task c k'" for j u k'
    using waits_okD(4) [OF assms(1) that(1) assms(3) that(2) assms(4)] .
qed auto

lemma waits_other:
  assumes "waits_ok tm rp task r T"
    and "\<And>i t c k. t_task t = task c k \<Longrightarrow> um_find T' i = Some t \<longleftrightarrow> um_find T i = Some t"
  shows "waits_ok tm rp task r T'"
proof (rule waits_okI)
  note old = waits_okD [OF assms(1)]
  show "\<exists>u. um_find T' (tm w) = Some u \<and> t_task u = task c (rp w)" if "(c, w) \<in> set (regs_at r key)" for key c w
    using old(1) [OF that] assms(2) by blast
  show "c < next_id r" if "um_find T' i = Some u" "t_task u = task c k" for i u c k using old(2) assms(2) that by blast
  show "\<exists>key w. (c, w) \<in> set (regs_at r key) \<and> tm w = i \<and> rp w = k"
    if "um_find T' i = Some u" "t_task u = task c k" "\<not> t_ready u" for i u c k using old(3) assms(2) that by blast
  show "i = j" if "um_find T' i = Some u" "um_find T' j = Some v" "t_task u = task c k" "t_task v = task c k'" for i u j v c k k'
    using old(4) assms(2) that by blast
qed

lemma waits_new:
  assumes "waits_ok tm rp task r T" "um_find T n = None" "\<And>c k. t_task t \<noteq> task c k"
  shows "waits_ok tm rp task r (um_put n t T)"
  by (rule waits_other [OF assms(1)]) (use assms(2,3) in \<open>auto split: if_splits\<close>)

lemma waits_dropped:
  assumes "waits_ok tm rp task r T" "\<And>t c k. um_find T n = Some t \<Longrightarrow> t_task t \<noteq> task c k"
  shows "waits_ok tm rp task r (drop_timer n T)" "waits_ok tm rp task r (um_erase n T)"
  by (rule waits_other [OF assms(1)], use assms(2) in \<open>auto simp: um_find_drop split: if_splits\<close>)+

lemma waits_ready:
  assumes "waits_ok tm rp task r T" "um_find T x = Some t"
  shows "waits_ok tm rp task r (um_put x (t\<lparr>t_ready := True\<rparr>) T)"
proof (rule waits_okI)
  note old = waits_okD [OF assms(1)]
  let ?T = "um_put x (t\<lparr>t_ready := True\<rparr>) T"
  have T: "\<exists>u. um_find T i = Some u \<and> t_task u = t_task v \<and> (t_ready u \<longrightarrow> t_ready v)" if "um_find ?T i = Some v" for i v
    using that assms(2) by (auto split: if_splits)
  have T': "\<exists>u. um_find ?T i = Some u \<and> t_task u = t_task v" if "um_find T i = Some v" for i v
    using that assms(2) by auto
  show "\<exists>u. um_find ?T (tm w) = Some u \<and> t_task u = task c (rp w)" if "(c, w) \<in> set (regs_at r key)" for key c w
    using old(1) [OF that] T' by metis
  show "c < next_id r" if "um_find ?T i = Some u" "t_task u = task c k" for i u c k using old(2) T [OF that(1)] that(2) by metis
  show "\<exists>key w. (c, w) \<in> set (regs_at r key) \<and> tm w = i \<and> rp w = k"
    if "um_find ?T i = Some u" "t_task u = task c k" "\<not> t_ready u" for i u c k using old(3) T [OF that(1)] that(2,3) by metis
  show "i = j" if "um_find ?T i = Some u" "um_find ?T j = Some v" "t_task u = task c k" "t_task v = task c k'" for i u j v c k k'
    using old(4) T [OF that(1)] T [OF that(2)] that(3,4) by metis
qed

lemma waiter_stable:
  assumes "waiter_ok tm task r T n c w" "next_id r \<le> next_id r'" "n \<le> n'"
    and "\<And>i u. um_find T' i = Some u \<Longrightarrow> i < n \<Longrightarrow> \<exists>t. um_find T i = Some t \<and> t_task u = t_task t"
    and "\<And>i u k. um_find T' i = Some u \<Longrightarrow> n \<le> i \<Longrightarrow> t_task u \<noteq> task c k"
  shows "waiter_ok tm task r' T' n' c w"
proof -
  have old: "c < next_id r" "tm w < n" "um_find T i = Some t \<Longrightarrow> t_task t = task c k \<Longrightarrow> i = tm w"
    "um_find T (tm w) = Some t \<Longrightarrow> \<exists>k. t_task t = task c k" for i t k
    using assms(1) unfolding waiter_ok_def by blast+
  show ?thesis
    unfolding waiter_ok_def
  proof (intro conjI allI impI)
    show "i = tm w" if "um_find T' i = Some u" "t_task u = task c k" for i u k
      using assms(4,5) [OF that(1)] that(2) old(3) by (metis not_le)
    show "\<exists>k. t_task u = task c k" if "um_find T' (tm w) = Some u" for u
      using assms(4) [OF that old(2)] old(4) by auto
  qed (use old(1,2) assms(2,3) in auto)
qed

end

interpretation blpop_waiters: waiters bw_timer bw_reply T_blpop
  by unfold_locales simp

interpretation xread_waiters: waiters xw_timer xw_reply T_xread
  by unfold_locales simp

section \<open>Steps\<close>

definition waiting_ok :: "server \<Rightarrow> bool" where
  "waiting_ok s \<longleftrightarrow> registry_ok (blpop_reg s) \<and> registry_ok (xread_reg s) \<and> (\<forall>i t. um_find (timers s) i = Some t \<longrightarrow> i < next_timer s) \<and>
     waits_ok bw_timer bw_reply T_blpop (blpop_reg s) (timers s) \<and> waits_ok xw_timer xw_reply T_xread (xread_reg s) (timers s)"

text \<open>The copy of the waiters over which the loop of \<^verbatim>\<open>serve_xread_waiters\<close> runs.\<close>

definition serve_frame :: "server \<Rightarrow> frame \<Rightarrow> bool" where
  "serve_frame s f \<longleftrightarrow>
     (\<forall>ws c w. f = F_serve_xread ws \<longrightarrow> (c, w) \<in> set ws \<longrightarrow>
        waiter_ok xw_timer T_xread (xread_reg s) (timers s) (next_timer s) c w)"

text \<open>What a step of the interpreter may do to registrations and timers.\<close>

inductive frame_step :: "server \<Rightarrow> server \<Rightarrow> bool" for s where
  same: "blpop_reg s' = blpop_reg s \<Longrightarrow> xread_reg s' = xread_reg s \<Longrightarrow> timers s' = timers s \<Longrightarrow> next_timer s' = next_timer s \<Longrightarrow> frame_step s s'"
| poll: "blpop_reg s' = blpop_reg s \<Longrightarrow> xread_reg s' = xread_reg s \<Longrightarrow> t_task t = T_poll target m dl k \<Longrightarrow>
    timers s' = um_put (next_timer s) t (timers s) \<Longrightarrow> next_timer s' = Suc (next_timer s) \<Longrightarrow> frame_step s s'"
| block_blpop: "register_callbacks keys w (blpop_reg s) = (c, blpop_reg s') \<Longrightarrow> keys \<noteq> [] \<Longrightarrow> bw_timer w = next_timer s \<Longrightarrow>
    xread_reg s' = xread_reg s \<Longrightarrow> t_task t = T_blpop c (bw_reply w) \<Longrightarrow> timers s' = um_put (next_timer s) t (timers s) \<Longrightarrow>
    next_timer s' = Suc (next_timer s) \<Longrightarrow> frame_step s s'"
| block_xread: "register_callbacks keys w (xread_reg s) = (c, xread_reg s') \<Longrightarrow> keys \<noteq> [] \<Longrightarrow> xw_timer w = next_timer s \<Longrightarrow>
    blpop_reg s' = blpop_reg s \<Longrightarrow> t_task t = T_xread c (xw_reply w) \<Longrightarrow> timers s' = um_put (next_timer s) t (timers s) \<Longrightarrow>
    next_timer s' = Suc (next_timer s) \<Longrightarrow> frame_step s s'"
| serve_blpop: "(c, w) \<in> set (regs_at (blpop_reg s) key) \<Longrightarrow> blpop_reg s' = unregister c (blpop_reg s) \<Longrightarrow> xread_reg s' = xread_reg s \<Longrightarrow>
    timers s' = drop_timer (bw_timer w) (timers s) \<Longrightarrow> next_timer s' = next_timer s \<Longrightarrow> frame_step s s'"
| serve_xread: "waiter_ok xw_timer T_xread (xread_reg s) (timers s) (next_timer s) c w \<Longrightarrow> xread_reg s' = unregister c (xread_reg s) \<Longrightarrow>
    blpop_reg s' = blpop_reg s \<Longrightarrow> timers s' = drop_timer (xw_timer w) (timers s) \<Longrightarrow> next_timer s' = next_timer s \<Longrightarrow> frame_step s s'"

text \<open>Besides, a timer expires and its handler starts.\<close>

inductive wait_step :: "server \<Rightarrow> server \<Rightarrow> bool" for s where
  frame: "frame_step s s' \<Longrightarrow> wait_step s s'"
| expire: "um_find (timers s) i = Some t \<Longrightarrow> blpop_reg s' = blpop_reg s \<Longrightarrow> xread_reg s' = xread_reg s \<Longrightarrow>
    timers s' = um_put i (t\<lparr>t_ready := True\<rparr>) (timers s) \<Longrightarrow> next_timer s' = next_timer s \<Longrightarrow> wait_step s s'"
| fire_blpop: "um_find (timers s) i = Some t \<Longrightarrow> t_task t = T_blpop c k \<Longrightarrow> blpop_reg s' = unregister c (blpop_reg s) \<Longrightarrow>
    xread_reg s' = xread_reg s \<Longrightarrow> timers s' = um_erase i (timers s) \<Longrightarrow> next_timer s' = next_timer s \<Longrightarrow> wait_step s s'"
| fire_xread: "um_find (timers s) i = Some t \<Longrightarrow> t_task t = T_xread c k \<Longrightarrow> xread_reg s' = unregister c (xread_reg s) \<Longrightarrow>
    blpop_reg s' = blpop_reg s \<Longrightarrow> timers s' = um_erase i (timers s) \<Longrightarrow> next_timer s' = next_timer s \<Longrightarrow> wait_step s s'"
| fire_poll: "um_find (timers s) i = Some t \<Longrightarrow> t_task t = T_poll target m dl k \<Longrightarrow> blpop_reg s' = blpop_reg s \<Longrightarrow>
    xread_reg s' = xread_reg s \<Longrightarrow> timers s' = um_erase i (timers s) \<Longrightarrow> next_timer s' = next_timer s \<Longrightarrow> wait_step s s'"

lemmas wait_same = wait_step.frame [OF frame_step.same]

lemma wait_args: "frame_step s (result_state body) \<Longrightarrow> frame_step s (result_state (with_args cmd n k s body))"
  by (auto simp: with_args_def intro: frame_step.same split: option.split)

lemma wait_basic:
  "frame_step s (result_state (exec_ping cmd k s))" "frame_step s (result_state (exec_info h cmd k s))"
  "frame_step s (result_state (exec_echo cmd k s))" "frame_step s (result_state (exec_get cmd k s))"
  "frame_step s (result_state (exec_type cmd k s))" "frame_step s (result_state (exec_incr cmd k s))"
  "frame_step s (result_state (exec_set cmd k s))"
  by (auto simp: exec_ping_def exec_info_def exec_echo_def exec_get_def exec_type_def exec_incr_def exec_set_def
      Let_def intro!: wait_args frame_step.same split: list.split prod.split sum.split option.split)

lemma wait_lists:
  "frame_step s (result_state (exec_rpush cmd k s))" "frame_step s (result_state (exec_lpush cmd k s))"
  "frame_step s (result_state (exec_lrange cmd k s))" "frame_step s (result_state (exec_llen cmd k s))"
  "frame_step s (result_state (exec_lpop cmd k s))" "frame_step s (result_state (exec_xadd cmd k s))"
  "frame_step s (result_state (exec_xrange cmd k s))"
  by (auto simp: exec_rpush_def exec_lpush_def exec_lrange_def exec_llen_def exec_lpop_def exec_xadd_def exec_xrange_def
      catch_reply_def Let_def intro!: wait_args frame_step.same split: list.split prod.split sum.split option.split)

lemma wait_control:
  "frame_step s (result_state (exec_multi h k s))" "frame_step s (result_state (exec_watch h cmd k s))"
  "frame_step s (result_state (exec_unwatch h cmd k s))" "frame_step s (result_state (exec_exec h k s))"
  "frame_step s (result_state (exec_discard h k s))" "frame_step s (result_state (exec_replconf k s))"
  "frame_step s (result_state (exec_psync h cmd k s))" "frame_step s (result_state (exec_wait h cmd k s))"
  by (auto simp: exec_multi_def exec_watch_def exec_unwatch_def exec_exec_def exec_discard_def exec_replconf_def exec_psync_def
      exec_wait_def reset_handler_def Let_def intro!: wait_args frame_step.same split: prod.split sum.split option.split)

lemma wait_blpop: "frame_step s (result_state (exec_blpop cmd k s))"
proof -
  have block: "frame_step s (new_timer a (T_blpop c k) (s\<lparr>store := d, blpop_reg := r\<rparr>))"
    if "register_callbacks keys \<lparr>bw_timer = next_timer s, bw_reply = k\<rparr> (blpop_reg s) = (c, r)" "keys \<noteq> []" for a c d r keys
    using that by (intro frame_step.block_blpop [where keys = keys and w = "\<lparr>bw_timer = next_timer s, bw_reply = k\<rparr>" and c = c])
      (auto simp: new_timer_def)
  show ?thesis
  proof (cases "length (cargs cmd) < 2")
    case False
    then have "butlast (cargs cmd) \<noteq> []" by (cases "cargs cmd" rule: rev_cases) auto
    then show ?thesis
      by (auto simp: exec_blpop_def intro!: wait_args intro: frame_step.same block split: prod.split sum.split option.split)
  qed (simp add: exec_blpop_def with_args_def check_args_def frame_step.same)
qed

lemma parse_xread_keys:
  assumes "x_valid (parse_xread_args cmd)" "x_blocking (parse_xread_args cmd)"
  shows "x_keys (parse_xread_args cmd) \<noteq> []"
  using assms by (auto simp: parse_xread_args_def Let_def split: if_splits option.splits sum.splits)

lemma wait_xread: "frame_step s (result_state (exec_xread cmd k s))"
proof -
  have block: "frame_step s (new_timer a (T_xread c k) (s\<lparr>xread_reg := r\<rparr>))"
    if "register_callbacks keys \<lparr>xw_timer = next_timer s, xw_keys = ks, xw_ids = ids, xw_reply = k\<rparr> (xread_reg s) = (c, r)" "keys \<noteq> []"
    for a c r keys ks ids
    using that by (intro frame_step.block_xread [where keys = keys and c = c and
        w = "\<lparr>xw_timer = next_timer s, xw_keys = ks, xw_ids = ids, xw_reply = k\<rparr>"]) (auto simp: new_timer_def)
  have "frame_step s (result_state (setup_xread_blocking (parse_xread_args cmd) ids k s))"
    if "x_valid (parse_xread_args cmd)" "x_blocking (parse_xread_args cmd)" for ids
    using parse_xread_keys [OF that]
    by (auto simp: setup_xread_blocking_def intro: frame_step.same block split: sum.split prod.split)
  then show ?thesis
    by (auto simp: exec_xread_def catch_reply_def Let_def intro: frame_step.same split: sum.split)
qed

lemma wait_exec_command: "frame_step s (result_state (exec_command h cmd k s))"
  by (cases "ctype cmd") (simp_all add: exec_command_def wait_basic wait_lists wait_control wait_blpop wait_xread frame_step.same)

lemma wait_frame: "serve_frame s f \<Longrightarrow> frame_step s (result_state (step f s))"
proof (cases f)
  case (F_serve_xread ws)
  assume "serve_frame s f"
  with F_serve_xread show ?thesis
    by (cases ws) (auto simp: serve_frame_def serve_xread_waiters_def Let_def frame_step.same
        intro!: frame_step.serve_xread split: sum.split)
next
  case (F_serve_blpop key)
  have "frame_step s (result_state (serve_blpop_waiters key s))"
  proof (cases "regs_at (blpop_reg s) key")
    case (Cons x ws)
    then show ?thesis
      by (auto simp: serve_blpop_waiters_def intro: frame_step.same frame_step.serve_blpop [where key = key]
          split: prod.split sum.split list.split)
  qed (simp add: serve_blpop_waiters_def frame_step.same)
  with F_serve_blpop show ?thesis by simp
next
  case (F_reply k r)
  then show ?thesis
    by (cases k) (auto simp: exec_callback_def store_result_at_def Let_def intro!: frame_step.same split: option.split)
next
  case (F_poll target n deadline k)
  have "frame_step s (new_timer a (T_poll target n deadline k) s)" for a
    by (rule frame_step.poll [where t = "\<lparr>t_after = a, t_ready = False, t_task = T_poll target n deadline k\<rparr>"])
      (simp_all add: new_timer_def)
  then show ?thesis using F_poll by (simp add: wait_poll_def Let_def frame_step.same)
qed (auto simp: wait_exec_command run_next_def Let_def store_result_at_def intro!: frame_step.same split: option.split sum.split)

text \<open>A step starts the loop of \<^verbatim>\<open>serve_xread_waiters\<close> on registered waiters only, or goes on with it.\<close>

lemma frames_exec_command:
  "\<forall>f \<in> set (result_frames (exec_command h cmd k s)). \<forall>ws. f = F_serve_xread ws \<longrightarrow>
     (\<exists>key. ws = regs_at (xread_reg s) key \<and> xread_reg (result_state (exec_command h cmd k s)) = xread_reg s \<and>
        timers (result_state (exec_command h cmd k s)) = timers s \<and> next_timer (result_state (exec_command h cmd k s)) = next_timer s)"
  by (cases "ctype cmd")
    (auto simp: exec_command_def exec_ping_def exec_info_def exec_echo_def exec_get_def exec_type_def exec_incr_def exec_set_def
      exec_rpush_def exec_lpush_def exec_lrange_def exec_llen_def exec_lpop_def exec_xadd_def exec_xrange_def exec_xread_def
      exec_blpop_def setup_xread_blocking_def exec_multi_def exec_watch_def exec_unwatch_def exec_exec_def exec_discard_def
      exec_replconf_def exec_psync_def exec_wait_def catch_reply_def with_args_def Let_def
      split: list.split prod.split sum.split option.split)

lemma wait_frames:
  assumes "waiting_ok s" "serve_frame s f" "\<And>g. serve_frame s g \<Longrightarrow> serve_frame (result_state (step f s)) g"
  shows "\<forall>g \<in> set (result_frames (step f s)). serve_frame (result_state (step f s)) g"
proof (cases f)
  case (F_exec h cmd k)
  have "serve_frame (result_state (exec_command h cmd k s)) (F_serve_xread ws)"
    if ws: "F_serve_xread ws \<in> set (result_frames (exec_command h cmd k s))" for ws
  proof -
    obtain key where "ws = regs_at (xread_reg s) key" "xread_reg (result_state (exec_command h cmd k s)) = xread_reg s"
        "timers (result_state (exec_command h cmd k s)) = timers s" "next_timer (result_state (exec_command h cmd k s)) = next_timer s"
      using frames_exec_command [THEN bspec, OF ws] by auto
    with assms(1) show ?thesis by (auto simp: serve_frame_def waiting_ok_def intro!: xread_waiters.registered_waiter)
  qed
  then show ?thesis using F_exec by (auto simp: serve_frame_def)
next
  case (F_serve_xread ws)
  have "serve_frame s (F_serve_xread (tl ws))"
    using assms(2) F_serve_xread by (cases ws) (auto simp: serve_frame_def)
  from assms(3) [OF this] show ?thesis
    using F_serve_xread by (auto simp: serve_frame_def serve_xread_waiters_def Let_def split: list.splits sum.splits)
next
  case (F_reply k r)
  then show ?thesis by (cases k) (auto simp: exec_callback_def serve_frame_def Let_def split: option.splits)
qed (auto simp: serve_frame_def serve_blpop_waiters_def run_next_def wait_poll_def Let_def
    split: list.splits prod.splits sum.splits option.splits)

lemma register_id: "register_callbacks keys w r = (c, r') \<Longrightarrow> c = next_id r \<and> next_id r' = Suc (next_id r)"
  by (auto simp: register_callbacks_def Let_def)

lemma wait_step_grows:
  assumes "wait_step s s'"
  shows "next_timer s \<le> next_timer s'" "next_id (xread_reg s) \<le> next_id (xread_reg s')" "next_id (blpop_reg s) \<le> next_id (blpop_reg s')"
    and "um_find (timers s') i = Some u \<Longrightarrow> (\<exists>t. um_find (timers s) i = Some t \<and> t_task u = t_task t) \<or>
       i = next_timer s \<and> i < next_timer s' \<and> (\<forall>c k. t_task u = T_xread c k \<longrightarrow> next_id (xread_reg s) \<le> c) \<and>
       (\<forall>c k. t_task u = T_blpop c k \<longrightarrow> next_id (blpop_reg s) \<le> c)"
  using assms by (cases; auto elim!: frame_step.cases simp: um_find_drop unreg_keys dest: register_id split: if_splits)+

lemma wait_step_serve_frame:
  assumes "waiting_ok s" "wait_step s s'" "serve_frame s f"
  shows "serve_frame s' f"
proof -
  note grows = wait_step_grows [OF assms(2)]
  have T: "i < next_timer s" if "um_find (timers s) i = Some t" for i t using assms(1) that by (auto simp: waiting_ok_def)
  have "waiter_ok xw_timer T_xread (xread_reg s') (timers s') (next_timer s') c w"
    if ok: "waiter_ok xw_timer T_xread (xread_reg s) (timers s) (next_timer s) c w" for c w
  proof (rule xread_waiters.waiter_stable [OF ok])
    have c: "c < next_id (xread_reg s)" using ok by (simp add: waiter_ok_def)
    show "\<exists>t. um_find (timers s) i = Some t \<and> t_task u = t_task t" if "um_find (timers s') i = Some u" "i < next_timer s" for i u
      using grows(4) [OF that(1)] that(2) by auto
    show "t_task u \<noteq> T_xread c k" if u: "um_find (timers s') i = Some u" "next_timer s \<le> i" for i u k
    proof -
      have "um_find (timers s) i \<noteq> Some t" for t using T u(2) by (metis not_le)
      with grows(4) [OF u(1)] c show ?thesis by (metis not_le)
    qed
  qed (use grows in auto)
  with assms(3) show ?thesis by (auto simp: serve_frame_def)
qed

lemma wait_step_ok:
  assumes "waiting_ok s" "wait_step s s'"
  shows "waiting_ok s'"
proof -
  have reg: "registry_ok (blpop_reg s)" "registry_ok (xread_reg s)"
    and T: "\<forall>i t. um_find (timers s) i = Some t \<longrightarrow> i < next_timer s"
    and b: "waits_ok bw_timer bw_reply T_blpop (blpop_reg s) (timers s)"
    and x: "waits_ok xw_timer xw_reply T_xread (xread_reg s) (timers s)"
    using assms(1) by (simp_all add: waiting_ok_def)
  have new: "um_find (timers s) (next_timer s) = None" using T by (cases "um_find (timers s) (next_timer s)") auto
  have T': "\<forall>i t. um_find (timers s') i = Some t \<longrightarrow> i < next_timer s'"
    using wait_step_grows(1) [OF assms(2)] wait_step_grows(4) [OF assms(2)] T by (meson less_le_trans)
  have ok: "registry_ok r'" if "register_callbacks keys w r = (c, r')" "registry_ok r" for keys w r c and r' :: "'a registry"
    using registry_ok_register [OF that(2), of keys w] that(1) by simp
  have frame: ?thesis if "frame_step s s'"
    using that
  proof cases
    case (poll t target m dl k)
    then show ?thesis using reg T' blpop_waiters.waits_new [OF b new, of t] xread_waiters.waits_new [OF x new, of t]
      by (simp add: waiting_ok_def)
  next
    case (block_blpop keys w c t)
    then show ?thesis
      using reg T' xread_waiters.waits_new [OF x new, of t] blpop_waiters.waits_block [OF b T block_blpop(1,2,3,5)]
        ok [OF block_blpop(1)] by (simp add: waiting_ok_def)
  next
    case (block_xread keys w c t)
    then show ?thesis
      using reg T' blpop_waiters.waits_new [OF b new, of t] xread_waiters.waits_block [OF x T block_xread(1,2,3,5)]
        ok [OF block_xread(1)] by (simp add: waiting_ok_def)
  next
    case (serve_blpop c w key)
    have w: "waiter_ok bw_timer T_blpop (blpop_reg s) (timers s) (next_timer s) c w"
      by (rule blpop_waiters.registered_waiter [OF b reg(1) T serve_blpop(1)])
    have "waits_ok xw_timer xw_reply T_xread (xread_reg s) (drop_timer (bw_timer w) (timers s))"
      by (rule xread_waiters.waits_dropped [OF x]) (use w in \<open>force simp: waiter_ok_def\<close>)
    then show ?thesis
      using reg T' serve_blpop blpop_waiters.waits_serve [OF b reg(1) w] by (simp add: waiting_ok_def registry_ok_unregister)
  next
    case (serve_xread c w)
    have "waits_ok bw_timer bw_reply T_blpop (blpop_reg s) (drop_timer (xw_timer w) (timers s))"
      by (rule blpop_waiters.waits_dropped [OF b]) (use serve_xread(1) in \<open>force simp: waiter_ok_def\<close>)
    then show ?thesis
      using reg T' serve_xread xread_waiters.waits_serve [OF x reg(2) serve_xread(1)]
      by (simp add: waiting_ok_def registry_ok_unregister)
  qed (use assms(1) in \<open>simp add: waiting_ok_def\<close>)
  show ?thesis
    using assms(2)
  proof cases
    case (expire i t)
    then show ?thesis
      using reg T' blpop_waiters.waits_ready [OF b expire(1)] xread_waiters.waits_ready [OF x expire(1)] by (simp add: waiting_ok_def)
  next
    case (fire_blpop i t c k)
    have "waits_ok xw_timer xw_reply T_xread (xread_reg s) (um_erase i (timers s))"
      by (rule xread_waiters.waits_dropped [OF x]) (use fire_blpop in auto)
    then show ?thesis
      using reg T' fire_blpop blpop_waiters.waits_fire [OF b reg(1) fire_blpop(1,2)] by (simp add: waiting_ok_def registry_ok_unregister)
  next
    case (fire_xread i t c k)
    have "waits_ok bw_timer bw_reply T_blpop (blpop_reg s) (um_erase i (timers s))"
      by (rule blpop_waiters.waits_dropped [OF b]) (use fire_xread in auto)
    then show ?thesis
      using reg T' fire_xread xread_waiters.waits_fire [OF x reg(2) fire_xread(1,2)] by (simp add: waiting_ok_def registry_ok_unregister)
  next
    case (fire_poll i t target m dl k)
    have "waits_ok bw_timer bw_reply T_blpop (blpop_reg s) (um_erase i (timers s))"
        "waits_ok xw_timer xw_reply T_xread (xread_reg s) (um_erase i (timers s))"
      by (rule blpop_waiters.waits_dropped [OF b] xread_waiters.waits_dropped [OF x], use fire_poll in auto)+
    then show ?thesis using reg T' fire_poll by (simp add: waiting_ok_def)
  qed (rule frame)
qed

text \<open>A run consists of such steps; so does every event of the server.\<close>

lemma run_waits_keep:
  assumes "waiting_ok s" "\<forall>g \<in> set fs. serve_frame s g" "run fs s = Done s'" "P s"
    and keep: "\<And>f x. waiting_ok x \<Longrightarrow> serve_frame x f \<Longrightarrow> P x \<Longrightarrow> P (result_state (step f x))"
  shows "waiting_ok s' \<and> P s'"
proof -
  let ?P = "\<lambda>x. waiting_ok x \<and> P x"
  have "case run fs s of Running gs s' \<Rightarrow> False | Done s' \<Rightarrow> ?P s' | Crashed e s' \<Rightarrow> ?P s'"
  proof (rule run_frames_induct [where Q = serve_frame])
    show below: "serve_frame (result_state (step f x)) g" if "?P x" "serve_frame x f" "serve_frame x g" for f g x
      by (rule wait_step_serve_frame [OF conjunct1 [OF that(1)] wait_step.frame [OF wait_frame [OF that(2)]] that(3)])
    show "?P (result_state (step f x)) \<and> (\<forall>g \<in> set (result_frames (step f x)). serve_frame (result_state (step f x)) g)"
      if x: "?P x" "serve_frame x f" for f x
    proof -
      have ok: "waiting_ok x" "P x" using x(1) by auto
      have "waiting_ok (result_state (step f x))" by (rule wait_step_ok [OF ok(1) wait_step.frame [OF wait_frame [OF x(2)]]])
      then show ?thesis using keep [OF ok(1) x(2) ok(2)] wait_frames [OF ok(1) x(2) below [OF x]] by blast
    qed
  qed (use assms(1,2,4) in \<open>simp_all add: serve_frame_def\<close>)
  with assms(3) show ?thesis by simp
qed

lemma run_waits:
  assumes "waiting_ok s" "\<forall>g \<in> set fs. serve_frame s g" "run fs s = Done s'"
  shows "wait_step\<^sup>*\<^sup>* s s'"
  using run_waits_keep [OF assms, of "wait_step\<^sup>*\<^sup>* s"] wait_step.frame [OF wait_frame]
  by (meson rtranclp.rtrancl_refl rtranclp.rtrancl_into_rtrancl)

lemma run_exec: "run [F_exec h cmd k] s = finish (exec_command h cmd k s)"
  by (cases "exec_command h cmd k s") (simp_all add: run.simps [of "[F_exec h cmd k]"])

lemma handle_frame:
  assumes "handle h request k s = Done s'"
  shows "\<exists>f s1. run [f] s1 = Done s' \<and> (\<forall>ws. f \<noteq> F_serve_xread ws) \<and> wait_step s s1"
proof -
  define R where "R m \<longleftrightarrow> (m = Done s' \<longrightarrow> (\<exists>f s1. run [f] s1 = Done s' \<and> (\<forall>ws. f \<noteq> F_serve_xread ws) \<and> wait_step s s1))" for m
  have reply: "R (run [F_reply k' r] s1)" if "wait_step s s1" for k' r s1
    unfolding R_def using that by (intro impI exI [of _ "F_reply k' r"] exI [of _ s1]) simp
  have exec: "R (finish (exec_command h cmd k' s))" for cmd k'
    unfolding R_def by (intro impI exI [of _ "F_exec h cmd k'"] exI [of _ s]) (simp add: run_exec wait_same)
  have "R (finish (dispatch h request cmd k s))" for cmd
    by (simp add: dispatch_def reply exec wait_same)
  then have "R (handle h request k s)" by (auto simp: handle_def reply wait_same R_def [of "Crashed _ _"] split: sum.split)
  with assms show ?thesis by (simp add: R_def)
qed

lemma handle_waits:
  assumes "waiting_ok s" "handle h request k s = Done s'"
  shows "wait_step\<^sup>*\<^sup>* s s'"
proof -
  obtain f s1 where f: "run [f] s1 = Done s'" "\<forall>ws. f \<noteq> F_serve_xread ws" "wait_step s s1"
    using handle_frame [OF assms(2)] by blast
  have "wait_step\<^sup>*\<^sup>* s1 s'"
    by (rule run_waits [OF wait_step_ok [OF assms(1) f(3)] _ f(1)]) (use f(2) in \<open>simp add: serve_frame_def\<close>)
  with f(3) show ?thesis by (rule converse_rtranclp_into_rtranclp)
qed

lemma fire_waits:
  assumes "waiting_ok s" "fire_timer i s = Done s'"
  shows "wait_step\<^sup>*\<^sup>* s s'"
proof (cases "um_find (timers s) i")
  case (Some t)
  have go: "wait_step\<^sup>*\<^sup>* s s'" if "wait_step s s1" "run [f] s1 = Done s'" "\<forall>ws. f \<noteq> F_serve_xread ws" for f s1
    by (rule converse_rtranclp_into_rtranclp [OF that(1) run_waits [OF wait_step_ok [OF assms(1) that(1)] _ that(2)]])
      (use that(3) in \<open>simp add: serve_frame_def\<close>)
  show ?thesis
  proof (cases "t_ready t")
    case True
    with Some assms(2) show ?thesis
      by (auto simp: fire_timer_def Let_def intro: wait_step.fire_blpop [OF Some] wait_step.fire_xread [OF Some]
          wait_step.fire_poll [OF Some] elim!: go [rotated] split: timer_task.splits)
  qed (use Some assms(2) in \<open>simp add: fire_timer_def\<close>)
qed (use assms(2) in \<open>simp add: fire_timer_def\<close>)

lemma sys_waits: "sys_step s s' \<Longrightarrow> waiting_ok s \<Longrightarrow> wait_step\<^sup>*\<^sup>* s s'"
proof (induction rule: sys_step.induct)
  case (timer_expires s i)
  have "wait_step s (expire_timer i s)"
    by (cases "um_find (timers s) i") (auto simp: expire_timer_def intro: wait_same wait_step.expire)
  then show ?case by blast
next
  case (request h request k s s')
  then show ?case using handle_waits by blast
next
  case (timer_runs i s s')
  then show ?case using fire_waits by blast
qed (auto intro!: r_into_rtranclp [of wait_step] wait_same
    simp: accept_connection_def add_session_handler_def close_handler_def on_disconnect_def split: prod.split)

lemma waits_keep: "wait_step\<^sup>*\<^sup>* s s' \<Longrightarrow> waiting_ok s \<Longrightarrow> waiting_ok s'"
  by (induction rule: rtranclp_induct) (auto intro: wait_step_ok)

interpretation waiting_inv: inductive_invariant initial_server sys_step waiting_ok
proof
  show "waiting_ok s" if "initial_server s" for s
    using that by (auto simp: initial_server_def waiting_ok_def init_server_def waits_ok_def regs_at_empty)
qed (auto intro: waits_keep sys_waits)

lemma sys_run_waits: "sys_step\<^sup>*\<^sup>* s s' \<Longrightarrow> waiting_ok s \<Longrightarrow> wait_step\<^sup>*\<^sup>* s s'"
proof (induction rule: rtranclp_induct)
  case (step y z)
  then show ?case using waits_keep sys_waits by (meson rtranclp_trans)
qed simp

section \<open>Answered clients\<close>

text \<open>A registration that is over: neither a key nor a timer holds its callback, and its id is not given again.\<close>

definition gone :: "(nat \<Rightarrow> reply_k \<Rightarrow> timer_task) \<Rightarrow> 'w registry \<Rightarrow> (nat, timer) umap \<Rightarrow> nat \<Rightarrow> bool" where
  "gone task r T c \<longleftrightarrow> c < next_id r \<and> (\<forall>key w. (c, w) \<notin> set (regs_at r key)) \<and> (\<forall>i t k. um_find T i = Some t \<longrightarrow> t_task t \<noteq> task c k)"

context waiters
begin

lemma served_gone:
  assumes "waiter_ok tm task r T n c w" "registry_ok r" "um_find T (tm w) = Some t" "\<not> t_ready t"
  shows "gone task (unregister c r) (drop_timer (tm w) T) c"
proof -
  have "c < next_id r" "\<And>i u k. um_find T i = Some u \<Longrightarrow> t_task u = task c k \<Longrightarrow> i = tm w"
    using assms(1) unfolding waiter_ok_def by blast+
  with assms(2-4) show ?thesis unfolding gone_def by (force simp: um_find_drop unreg_keys regs_at_unregister split: if_splits)
qed

lemma fired_gone:
  assumes "waits_ok tm rp task r T" "registry_ok r" "um_find T i = Some t" "t_task t = task c k"
  shows "gone task (unregister c r) (um_erase i T) c"
proof -
  have "j = i" if "um_find T j = Some u" "t_task u = task c k'" for j u k'
    using waits_okD(4) [OF assms(1) that(1) assms(3) that(2) assms(4)] .
  with waits_okD(2) [OF assms(1,3,4)] assms(2) show ?thesis
    unfolding gone_def by (force simp: unreg_keys regs_at_unregister split: if_splits)
qed

end

lemma regs_register:
  "register_callbacks keys w r = (c, r') \<Longrightarrow> set (regs_at r' key) \<subseteq> insert (next_id r, w) (set (regs_at r key))"
  using regs_at_register [of keys w r key] register_id [of keys w r c r'] by auto

lemma wait_step_regs:
  assumes "waiting_ok s" "wait_step s s'"
  shows "(c, w) \<in> set (regs_at (blpop_reg s') key) \<Longrightarrow> (c, w) \<in> set (regs_at (blpop_reg s) key) \<or> next_id (blpop_reg s) \<le> c"
    and "(c, x) \<in> set (regs_at (xread_reg s') key) \<Longrightarrow> (c, x) \<in> set (regs_at (xread_reg s) key) \<or> next_id (xread_reg s) \<le> c"
  using assms(2)
  by (cases; use assms(1) in \<open>auto elim!: frame_step.cases simp: waiting_ok_def regs_at_unregister dest!: regs_register [where key = key]\<close>)+

lemma gone_stable:
  assumes "gone task r T c" "next_id r \<le> next_id r'"
    and "\<And>key w. (c, w) \<in> set (regs_at r' key) \<Longrightarrow> (c, w) \<in> set (regs_at r key) \<or> next_id r \<le> c"
    and "\<And>i u k. um_find T' i = Some u \<Longrightarrow> t_task u = task c k \<Longrightarrow> (\<exists>t. um_find T i = Some t \<and> t_task t = task c k) \<or> next_id r \<le> c"
  shows "gone task r' T' c"
proof -
  have c: "c < next_id r" using assms(1) by (simp add: gone_def)
  moreover have "(c, w) \<notin> set (regs_at r' key)" for key w using assms(1) c assms(3) [of w key] by (auto simp: gone_def)
  moreover have "t_task u \<noteq> task c k" if "um_find T' i = Some u" for i u k
    using assms(1) c assms(4) [OF that, of k] by (auto simp: gone_def)
  ultimately show ?thesis using assms(2) by (simp add: gone_def)
qed

lemma wait_step_gone:
  assumes "waiting_ok s" "wait_step s s'"
  shows "gone T_blpop (blpop_reg s) (timers s) c \<Longrightarrow> gone T_blpop (blpop_reg s') (timers s') c"
    and "gone T_xread (xread_reg s) (timers s) c \<Longrightarrow> gone T_xread (xread_reg s') (timers s') c"
proof -
  show "gone T_blpop (blpop_reg s') (timers s') c" if "gone T_blpop (blpop_reg s) (timers s) c"
    by (rule gone_stable [OF that wait_step_grows(3) [OF assms(2)] wait_step_regs(1) [OF assms]])
      (auto dest!: wait_step_grows(4) [OF assms(2)])
  show "gone T_xread (xread_reg s') (timers s') c" if "gone T_xread (xread_reg s) (timers s) c"
    by (rule gone_stable [OF that wait_step_grows(2) [OF assms(2)] wait_step_regs(2) [OF assms]])
      (auto dest!: wait_step_grows(4) [OF assms(2)])
qed

lemma waits_gone:
  assumes "wait_step\<^sup>*\<^sup>* s s'" "waiting_ok s"
  shows "gone T_blpop (blpop_reg s) (timers s) c \<Longrightarrow> gone T_blpop (blpop_reg s') (timers s') c"
    and "gone T_xread (xread_reg s) (timers s) c \<Longrightarrow> gone T_xread (xread_reg s') (timers s') c"
proof -
  have "waiting_ok s' \<and> (gone T_blpop (blpop_reg s) (timers s) c \<longrightarrow> gone T_blpop (blpop_reg s') (timers s') c) \<and>
      (gone T_xread (xread_reg s) (timers s) c \<longrightarrow> gone T_xread (xread_reg s') (timers s') c)"
    using assms by (induction rule: rtranclp_induct) (auto intro: wait_step_ok wait_step_gone)
  then show "gone T_blpop (blpop_reg s) (timers s) c \<Longrightarrow> gone T_blpop (blpop_reg s') (timers s') c"
    "gone T_xread (xread_reg s) (timers s) c \<Longrightarrow> gone T_xread (xread_reg s') (timers s') c" by blast+
qed

text \<open>An expired timer keeps its handler until the handler runs.\<close>

lemma wait_frame_ready:
  assumes "waiting_ok s" "serve_frame s f" "um_find (timers s) i = Some t" "t_ready t"
  shows "um_find (timers (result_state (step f s))) i = Some t"
  using wait_frame [OF assms(2)]
proof cases
qed (use assms in \<open>auto simp: waiting_ok_def um_find_drop\<close>)

lemma run_ready:
  assumes "waiting_ok s" "\<forall>g \<in> set fs. serve_frame s g" "run fs s = Done s'" "um_find (timers s) i = Some t" "t_ready t"
  shows "um_find (timers s') i = Some t"
  using run_waits_keep [OF assms(1-3), of "\<lambda>x. um_find (timers x) i = Some t"] assms(4,5) wait_frame_ready by blast

text \<open>
  The first turn of \<^verbatim>\<open>serve_blpop_waiters\<close> ends the registration of the waiter that it serves, unless the
  waiter's timer has expired: cancelling it is too late then, and its handler stays queued.
\<close>

lemma serve_head:
  assumes "waiting_ok s" "regs_at (blpop_reg s) key = (cid, w) # ws" "list_at (store s) key = v # vs"
    and "um_find (timers s) (bw_timer w) = Some t" "run (F_serve_blpop key # fs) s = Done s'" "\<forall>g \<in> set fs. \<forall>ws. g \<noteq> F_serve_xread ws"
  shows "waiting_ok s'" "t_ready t \<Longrightarrow> um_find (timers s') (bw_timer w) = Some t"
    and "\<not> t_ready t \<Longrightarrow> gone T_blpop (blpop_reg s') (timers s') cid"
proof -
  have frames: "\<forall>g \<in> set (F_serve_blpop key # fs). serve_frame s g" using assms(6) by (simp add: serve_frame_def)
  show ok': "waiting_ok s'" by (rule waits_keep [OF run_waits [OF assms(1) frames assms(5)] assms(1)])
  show "um_find (timers s') (bw_timer w) = Some t" if "t_ready t" by (rule run_ready [OF assms(1) frames assms(5,4) that])
  obtain x where x: "um_find (store s) key = Some x" "sval x = VList (v # vs)" using list_at_Cons [OF assms(3)] by blast
  define s1 where "s1 = result_state (step (F_serve_blpop key) s)"
  have s1: "blpop_reg s1 = unregister cid (blpop_reg s)" "timers s1 = drop_timer (bw_timer w) (timers s)"
      "run ([F_reply (bw_reply w) (blpop_reply key v), F_serve_blpop key] @ fs) s1 = Done s'"
    using assms(2,5) lpop_one [OF x] run_Next [of "F_serve_blpop key" s _ s1 fs] by (auto simp: s1_def serve_blpop_waiters_def)
  have step: "wait_step s s1" unfolding s1_def by (intro wait_step.frame wait_frame) (simp add: serve_frame_def)
  have "wait_step\<^sup>*\<^sup>* s1 s'"
    by (rule run_waits [OF wait_step_ok [OF assms(1) step] _ s1(3)]) (use assms(6) in \<open>auto simp: serve_frame_def\<close>)
  note gone = waits_gone(1) [OF this wait_step_ok [OF assms(1) step]]
  have "waiter_ok bw_timer T_blpop (blpop_reg s) (timers s) (next_timer s) cid w"
    using assms(1,2) by (intro blpop_waiters.registered_waiter [where key = key]) (auto simp: waiting_ok_def)
  from blpop_waiters.served_gone [OF this _ assms(4)] show "gone T_blpop (blpop_reg s') (timers s') cid" if "\<not> t_ready t"
    using that assms(1) by (intro gone) (simp add: s1 waiting_ok_def)
qed

lemma fire_expired:
  assumes "um_find (timers s) i = Some t" "t_ready t" "direct k"
  shows "t_task t = T_blpop c k \<Longrightarrow> fire_timer i s =
      Done (post_reply k null_array (s\<lparr>timers := um_erase i (timers s), blpop_reg := unregister c (blpop_reg s)\<rparr>))"
    and "t_task t = T_xread c k \<Longrightarrow> fire_timer i s =
      Done (post_reply k null_array (s\<lparr>timers := um_erase i (timers s), xread_reg := unregister c (xread_reg s)\<rparr>))"
  using assms by (simp_all add: fire_timer_def run_reply)

section \<open>Properties\<close>

text \<open>
  What the expiry of timer \<open>i\<close> does, when its handler runs next: the callback \<open>k\<close> gets the null array,
  and the registration is over in this and in every later state, which \<open>over\<close> expresses.
\<close>

definition times_out :: "nat \<Rightarrow> reply_k \<Rightarrow> (server \<Rightarrow> bool) \<Rightarrow> server \<Rightarrow> bool" where
  "times_out i k over s \<longleftrightarrow> (\<exists>s'. fire_timer i (expire_timer i s) = Done s' \<and> posted s' = posted (post_reply k null_array s) \<and>
     (\<forall>s''. sys_step\<^sup>*\<^sup>* s' s'' \<longrightarrow> over s''))"

lemma timeout_ends:
  assumes "waiting_ok s" "um_find (timers s) i = Some t" "t_after t \<noteq> None" "direct k"
  shows "t_task t = T_blpop c k \<Longrightarrow> times_out i k (\<lambda>s. gone T_blpop (blpop_reg s) (timers s) c) s"
    and "t_task t = T_xread c k \<Longrightarrow> times_out i k (\<lambda>s. gone T_xread (xread_reg s) (timers s) c) s"
proof -
  define s1 where "s1 = expire_timer i s"
  have s1: "um_find (timers s1) i = Some (t\<lparr>t_ready := True\<rparr>)" "posted s1 = posted s" "replica_reg s1 = replica_reg s"
    using assms(2,3) by (auto simp: s1_def expire_timer_def)
  have "sys_step s s1" unfolding s1_def by (rule sys_step.timer_expires)
  then have ok: "waiting_ok s1" using waiting_inv.preserved assms(1) by blast
  have post: "posted (post_reply k null_array x) = posted (post_reply k null_array s)" if "posted x = posted s" "replica_reg x = replica_reg s" for x
    using post_reply_cong [OF that] by simp
  have over: "waiting_ok x \<and> wait_step\<^sup>*\<^sup>* x y" if "fire_timer i s1 = Done x" "sys_step\<^sup>*\<^sup>* x y" for x y
    using sys_run_waits [OF that(2)] waits_keep [OF fire_waits [OF ok that(1)] ok] by blast
  show "times_out i k (\<lambda>s. gone T_blpop (blpop_reg s) (timers s) c) s" if task: "t_task t = T_blpop c k"
  proof -
    let ?x = "post_reply k null_array (s1\<lparr>timers := um_erase i (timers s1), blpop_reg := unregister c (blpop_reg s1)\<rparr>)"
    have f: "fire_timer i s1 = Done ?x" using fire_expired(1) [OF s1(1) _ assms(4), of c] task by simp
    have "gone T_blpop (blpop_reg ?x) (timers ?x) c"
      using blpop_waiters.fired_gone [OF _ _ s1(1), of "blpop_reg s1" c k] ok task by (simp add: waiting_ok_def)
    note over = waits_gone(1) [OF conjunct2 [OF over [OF f]] conjunct1 [OF over [OF f]] this]
    show ?thesis
      unfolding times_out_def s1_def [symmetric] by (intro exI [of _ ?x] conjI f post allI impI over) (simp_all add: s1(2,3))
  qed
  show "times_out i k (\<lambda>s. gone T_xread (xread_reg s) (timers s) c) s" if task: "t_task t = T_xread c k"
  proof -
    let ?x = "post_reply k null_array (s1\<lparr>timers := um_erase i (timers s1), xread_reg := unregister c (xread_reg s1)\<rparr>)"
    have f: "fire_timer i s1 = Done ?x" using fire_expired(2) [OF s1(1) _ assms(4), of c] task by simp
    have "gone T_xread (xread_reg ?x) (timers ?x) c"
      using xread_waiters.fired_gone [OF _ _ s1(1), of "xread_reg s1" c k] ok task by (simp add: waiting_ok_def)
    note over = waits_gone(2) [OF conjunct2 [OF over [OF f]] conjunct1 [OF over [OF f]] this]
    show ?thesis
      unfolding times_out_def s1_def [symmetric] by (intro exI [of _ ?x] conjI f post allI impI over) (simp_all add: s1(2,3))
  qed
qed

text \<open>
  C12. In every reachable state, a client that is blocked in BLPOP or XREAD has its timer, and when a timer
  with a time-out expires, the client gets the null array and its call is over for good: no key and no
  timer holds its callback in any later state. Conversely, the timer of a call that has not expired
  belongs to a client that is still blocked.
\<close>

theorem blocked_client_times_out:
  assumes "initial_server s0" "sys_step\<^sup>*\<^sup>* s0 s"
  shows "(\<forall>key c w. (c, w) \<in> set (regs_at (blpop_reg s) key) \<longrightarrow> direct (bw_reply w) \<longrightarrow>
      (\<exists>t. um_find (timers s) (bw_timer w) = Some t \<and> t_task t = T_blpop c (bw_reply w) \<and>
         (t_after t \<noteq> None \<longrightarrow> times_out (bw_timer w) (bw_reply w) (\<lambda>s. gone T_blpop (blpop_reg s) (timers s) c) s))) \<and>
    (\<forall>key c w. (c, w) \<in> set (regs_at (xread_reg s) key) \<longrightarrow> direct (xw_reply w) \<longrightarrow>
      (\<exists>t. um_find (timers s) (xw_timer w) = Some t \<and> t_task t = T_xread c (xw_reply w) \<and>
         (t_after t \<noteq> None \<longrightarrow> times_out (xw_timer w) (xw_reply w) (\<lambda>s. gone T_xread (xread_reg s) (timers s) c) s))) \<and>
    (\<forall>i t c k. um_find (timers s) i = Some t \<longrightarrow> \<not> t_ready t \<longrightarrow>
      (t_task t = T_blpop c k \<longrightarrow> (\<exists>key w. (c, w) \<in> set (regs_at (blpop_reg s) key) \<and> bw_timer w = i \<and> bw_reply w = k)) \<and>
      (t_task t = T_xread c k \<longrightarrow> (\<exists>key w. (c, w) \<in> set (regs_at (xread_reg s) key) \<and> xw_timer w = i \<and> xw_reply w = k)))"
proof (intro conjI allI impI)
  have ok: "waiting_ok s" by (rule waiting_inv.reachable [OF assms])
  then have b: "waits_ok bw_timer bw_reply T_blpop (blpop_reg s) (timers s)"
    and x: "waits_ok xw_timer xw_reply T_xread (xread_reg s) (timers s)" by (simp_all add: waiting_ok_def)
  show "\<exists>t. um_find (timers s) (bw_timer w) = Some t \<and> t_task t = T_blpop c (bw_reply w) \<and>
         (t_after t \<noteq> None \<longrightarrow> times_out (bw_timer w) (bw_reply w) (\<lambda>s. gone T_blpop (blpop_reg s) (timers s) c) s)"
    if "(c, w) \<in> set (regs_at (blpop_reg s) key)" "direct (bw_reply w)" for key c w
    using waits_okD(1) [OF b that(1)] timeout_ends(1) [OF ok _ _ that(2)] by blast
  show "\<exists>t. um_find (timers s) (xw_timer w) = Some t \<and> t_task t = T_xread c (xw_reply w) \<and>
         (t_after t \<noteq> None \<longrightarrow> times_out (xw_timer w) (xw_reply w) (\<lambda>s. gone T_xread (xread_reg s) (timers s) c) s)"
    if "(c, w) \<in> set (regs_at (xread_reg s) key)" "direct (xw_reply w)" for key c w
    using waits_okD(1) [OF x that(1)] timeout_ends(2) [OF ok _ _ that(2)] by blast
  show "\<exists>key w. (c, w) \<in> set (regs_at (blpop_reg s) key) \<and> bw_timer w = i \<and> bw_reply w = k"
    if "um_find (timers s) i = Some t" "\<not> t_ready t" "t_task t = T_blpop c k" for i t c k
    by (rule waits_okD(3) [OF b that(1,3,2)])
  show "\<exists>key w. (c, w) \<in> set (regs_at (xread_reg s) key) \<and> xw_timer w = i \<and> xw_reply w = k"
    if "um_find (timers s) i = Some t" "\<not> t_ready t" "t_task t = T_xread c k" for i t c k
    by (rule waits_okD(3) [OF x that(1,3,2)])
qed

text \<open>Two clients of a master, of which the first has sent \<^verbatim>\<open>BLPOP k 1\<close>.\<close>

definition blocked_example :: "bool \<Rightarrow> server" where
  "blocked_example late =
     (let k = K_propagate (K_write 7) (serialize (bulk_request [''BLPOP'', ''k'', ''1'']))
      in two_clients\<lparr>blpop_reg := snd (register_callbacks [''k''] \<lparr>bw_timer = 0, bw_reply = k\<rparr> empty_registry),
           timers := um_put 0 \<lparr>t_after = Some 1000000000, t_ready = late, t_task = T_blpop 1 k\<rparr> [], next_timer := 1\<rparr>)"

lemma stod_one: "stod ''1'' = Inr (Finite 1)"
proof -
  have "lowercase ''1'' = ''1''" "takeWhile (in_base 10) ''1'' = ''1''" "dropWhile (in_base 10) ''1'' = []"
      "base_val 10 ''1'' = 1" "\<not> is_space CHR ''1''"
    by code_simp+
  then show ?thesis by (simp add: stod_def strtod_magnitude_def parse_mantissa_def exponent_part_def scale_def Let_def)
qed

lemma blocked_reachable:
  "sys_step\<^sup>*\<^sup>* (init_server \<lparr>is_replica = False, replicaof = None, master_replid = ''r'', master_repl_offset = 0\<rparr> ''1'') (blocked_example b)"
proof -
  let ?q = "bulk_request [''BLPOP'', ''k'', ''1'']" and ?cmd = "\<lparr>ctype = BLPop, cname = ''BLPOP'', cargs = [''k'', ''1'']\<rparr>"
  have q: "is_request ?q ?cmd" using is_bulk_request [of "''BLPOP''" "[''k'', ''1'']"] by simp
  have "blpop_expiry (Finite 1) = Inr (Some 1000000000)"
    by (simp add: blpop_expiry_def is_positive_def double_to_ll_def ll_checked_def ll_limits)
  moreover have "store two_clients = []" "h_replicas (get_handler two_clients 0)" "blpop_reg two_clients = empty_registry"
      "timers two_clients = []" "next_timer two_clients = 0" "two_clients\<lparr>store := [], blpop_reg := r\<rparr> = two_clients\<lparr>blpop_reg := r\<rparr>" for r
    by (simp_all add: two_clients_def accept_connection_def init_server_def get_handler_def)
  ultimately have "handle 0 ?q (K_write 7) two_clients = Done (blocked_example False)"
    using handle_command [OF q, of two_clients 0 "K_write 7"] two_clients_fields
    by (simp add: stod_one transactional_def empty_tm_def exec_command_def exec_blpop_def with_args_def check_args_def lpop_def
        reply_to_def is_write_command_def blocked_example_def Let_def register_callbacks_def new_timer_def empty_registry_def)
  then have reach: "sys_step\<^sup>*\<^sup>* (init_server \<lparr>is_replica = False, replicaof = None, master_replid = ''r'', master_repl_offset = 0\<rparr> ''1'') (blocked_example False)"
    using two_clients_reachable sys_step.request by (meson rtranclp.rtrancl_into_rtrancl)
  moreover have "sys_step (blocked_example False) (expire_timer 0 (blocked_example False))" by (rule sys_step.timer_expires)
  moreover have "um_put 0 t (um_put 0 u []) = um_put (0 :: nat) t []" for t u :: timer by (simp add: um_put_def)
  then have "expire_timer 0 (blocked_example False) = blocked_example True"
    by (simp add: expire_timer_def blocked_example_def Let_def)
  ultimately show ?thesis by (cases b) (simp_all add: rtranclp.rtrancl_into_rtrancl)
qed

text \<open>What a push does to the first client that it serves: it ends the call, or it comes after the expiry.\<close>

lemma push_ends:
  assumes "waiting_ok s" "is_request q cmd" "ctype cmd = RPush \<or> ctype cmd = LPush" "length (cargs cmd) \<ge> 2"
    and "\<not> in_transaction (get_tm s h)" "h_kind (get_handler s h) = ClientRegistry" "server_ok s" "key = cargs cmd ! 0"
    and "regs_at (blpop_reg s) key = (cid, w) # ws" "handle h q k s = Done s'"
  obtains t where "um_find (timers s) (bw_timer w) = Some t" "t_task t = T_blpop cid (bw_reply w)" "waiting_ok s'"
    "t_ready t \<Longrightarrow> um_find (timers s') (bw_timer w) = Some t" "\<not> t_ready t \<Longrightarrow> gone T_blpop (blpop_reg s') (timers s') cid"
proof -
  let ?xs = "pushed cmd (list_at (store s) key)"
  have ok: "store_ok (store s)" using assms(7) by (simp add: server_ok_def)
  obtain d where d: "handle h q k s = run [F_serve_blpop key, F_reply (reply_to h q cmd k s) (length_reply (length ?xs))]
      (notify_write key (s\<lparr>store := d\<rparr>))" "list_at d key = ?xs"
    using handle_push [OF assms(2-6) ok assms(8) refl] by metis
  let ?s = "notify_write key (s\<lparr>store := d\<rparr>)"
  have ok': "waiting_ok ?s" by (rule wait_step_ok [OF assms(1) wait_same]) simp_all
  have "?xs \<noteq> []" using assms(4) by (auto simp: pushed_def)
  then obtain v vs where v: "?xs = v # vs" by (cases ?xs) auto
  obtain t where t: "um_find (timers s) (bw_timer w) = Some t" "t_task t = T_blpop cid (bw_reply w)"
    using waits_okD(1) [of bw_timer bw_reply T_blpop "blpop_reg s" "timers s" cid w key] assms(1,9) by (auto simp: waiting_ok_def)
  note served = serve_head [OF ok', of key cid w ws v vs t "[F_reply (reply_to h q cmd k s) (length_reply (length ?xs))]" s']
  show ?thesis using t served assms(9,10) d v by (intro that [of t]) simp_all
qed

lemma blocked_fields:
  "server_ok (blocked_example b)" "\<not> in_transaction (get_tm (blocked_example b) 2)"
  "h_kind (get_handler (blocked_example b) 2) = ClientRegistry" "h_replicas (get_handler (blocked_example b) 2)"
  "store (blocked_example b) = []" "posted (blocked_example b) = []" "replicas (replica_reg (blocked_example b)) = []"
  "timers (blocked_example b) = um_put 0 \<lparr>t_after = Some 1000000000, t_ready = b,
     t_task = T_blpop 1 (K_propagate (K_write 7) (serialize (bulk_request [''BLPOP'', ''k'', ''1''])))\<rparr> []"
  "regs_at (blpop_reg (blocked_example b)) ''k'' =
     [(1, \<lparr>bw_timer = 0, bw_reply = K_propagate (K_write 7) (serialize (bulk_request [''BLPOP'', ''k'', ''1'']))\<rparr>)]"
proof -
  have "handlers (blocked_example b) = handlers two_clients" by (simp add: blocked_example_def Let_def)
  then show "\<not> in_transaction (get_tm (blocked_example b) 2)" "h_kind (get_handler (blocked_example b) 2) = ClientRegistry"
      "h_replicas (get_handler (blocked_example b) 2)"
    by (simp_all add: get_tm_def get_handler_def two_clients_def accept_connection_def init_server_def empty_tm_def)
  show "server_ok (blocked_example b)"
    using registry_ok_register [OF registry_ok_empty]
    by (simp add: server_ok_def blocked_example_def Let_def two_clients_def accept_connection_def init_server_def ll_limits)
  show "regs_at (blpop_reg (blocked_example b)) ''k'' =
     [(1, \<lparr>bw_timer = 0, bw_reply = K_propagate (K_write 7) (serialize (bulk_request [''BLPOP'', ''k'', ''1'']))\<rparr>)]"
    by (simp add: blocked_example_def Let_def register_callbacks_def regs_at_def push_callback_def empty_registry_def)
qed (simp_all add: blocked_example_def Let_def two_clients_def accept_connection_def init_server_def empty_replicas_def)

theorem blocked_client_times_out_witness:
  "times_out 0 (K_propagate (K_write 7) (serialize (bulk_request [''BLPOP'', ''k'', ''1''])))
     (\<lambda>s. gone T_blpop (blpop_reg s) (timers s) 1) (blocked_example False)"
  using blocked_client_times_out [OF initial_server_init blocked_reachable [of False], THEN conjunct1,
      rule_format, of 1 "\<lparr>bw_timer = 0, bw_reply = K_propagate (K_write 7) (serialize (bulk_request [''BLPOP'', ''k'', ''1'']))\<rparr>" "''k''"]
  by (simp add: blocked_fields)

text \<open>
  C13. A push that serves a blocked client before its timer expires ends the call: the client has its
  element, and in every later state no key and no timer holds its callback, so that it is never answered
  again.
\<close>

theorem blpop_answered_once:
  assumes "initial_server s0" "sys_step\<^sup>*\<^sup>* s0 s" "is_request q cmd" "ctype cmd = RPush \<or> ctype cmd = LPush" "length (cargs cmd) \<ge> 2"
    and "\<not> in_transaction (get_tm s h)" "h_kind (get_handler s h) = ClientRegistry" "key = cargs cmd ! 0"
    and "regs_at (blpop_reg s) key = (cid, w) # ws" "distinct (map fst ((cid, w) # ws))"
    and "list_all (\<lambda>x. direct (bw_reply (snd x))) ((cid, w) # ws)"
    and "um_find (timers s) (bw_timer w) = Some t" "\<not> t_ready t"
  shows "\<exists>s'. handle h q (K_write c) s = Done s' \<and>
    posted s' = posted (post_reply (reply_to h q cmd (K_write c) s) (length_reply (length (pushed cmd (list_at (store s) key))))
      (serve_each key (w # map snd ws) (pushed cmd (list_at (store s) key)) s)) \<and>
    (\<forall>s''. sys_step\<^sup>*\<^sup>* s' s'' \<longrightarrow> gone T_blpop (blpop_reg s'') (timers s'') cid)"
proof -
  have ok: "waiting_ok s" "server_ok s"
    using waiting_inv.reachable [OF assms(1,2)] server_inv.reachable [OF assms(1,2)] by (simp_all add: invariants_def)
  obtain s' where s': "handle h q (K_write c) s = Done s'"
      "posted s' = posted (post_reply (reply_to h q cmd (K_write c) s) (length_reply (length (pushed cmd (list_at (store s) key))))
        (serve_each key (w # map snd ws) (pushed cmd (list_at (store s) key)) s))"
    using push_served [OF assms(3-7) ok(2) assms(8) refl assms(9-11), of c] by auto
  obtain t' where "um_find (timers s) (bw_timer w) = Some t'" "waiting_ok s'" "\<not> t_ready t' \<Longrightarrow> gone T_blpop (blpop_reg s') (timers s') cid"
    using push_ends [OF ok(1) assms(3-7) ok(2) assms(8,9) s'(1)] by metis
  then have "waiting_ok s'" "gone T_blpop (blpop_reg s') (timers s') cid" using assms(12,13) by simp_all
  then have "gone T_blpop (blpop_reg s'') (timers s'') cid" if "sys_step\<^sup>*\<^sup>* s' s''" for s''
    using waits_gone(1) [OF sys_run_waits [OF that]] by blast
  with s' show ?thesis by blast
qed

theorem blpop_answered_once_witness:
  "\<exists>s'. handle 2 (bulk_request [''RPUSH'', ''k'', ''a'']) (K_write 8) (blocked_example False) = Done s' \<and>
     posted s' = [(7, blpop_reply ''k'' ''a''), (8, length_reply 1)] \<and>
     (\<forall>s''. sys_step\<^sup>*\<^sup>* s' s'' \<longrightarrow> gone T_blpop (blpop_reg s'') (timers s'') 1)"
proof -
  have "parse_type ''RPUSH'' = RPush" by code_simp
  then have q: "is_request (bulk_request [''RPUSH'', ''k'', ''a'']) \<lparr>ctype = RPush, cname = ''RPUSH'', cargs = [''k'', ''a'']\<rparr>"
    using is_bulk_request [of "''RPUSH''" "[''k'', ''a'']"] by simp
  from blpop_answered_once [OF initial_server_init blocked_reachable [of False] q _ _ blocked_fields(2,3) _ blocked_fields(9), where c = 8]
  show ?thesis
    by (simp add: blocked_fields pushed_def list_at_def [of "[]"] serve_each_def reply_to_def post_propagate_def propagate_def)
qed

text \<open>
  C30. A push that comes after the expiry of the timer, but before its handler runs, serves the client as
  well, and cancelling the timer has no effect any more: the handler then answers the same call a second
  time, with the null array.
\<close>

theorem blpop_answered_twice:
  assumes "initial_server s0" "sys_step\<^sup>*\<^sup>* s0 s" "is_request q cmd" "ctype cmd = RPush \<or> ctype cmd = LPush" "length (cargs cmd) \<ge> 2"
    and "\<not> in_transaction (get_tm s h)" "h_kind (get_handler s h) = ClientRegistry" "key = cargs cmd ! 0"
    and "regs_at (blpop_reg s) key = (cid, w) # ws" "distinct (map fst ((cid, w) # ws))"
    and "list_all (\<lambda>x. direct (bw_reply (snd x))) ((cid, w) # ws)"
    and "um_find (timers s) (bw_timer w) = Some t" "t_ready t"
  shows "\<exists>s' s''. handle h q (K_write c) s = Done s' \<and>
    posted s' = posted (post_reply (reply_to h q cmd (K_write c) s) (length_reply (length (pushed cmd (list_at (store s) key))))
      (serve_each key (w # map snd ws) (pushed cmd (list_at (store s) key)) s)) \<and>
    fire_timer (bw_timer w) s' = Done s'' \<and> posted s'' = posted (post_reply (bw_reply w) null_array s')"
proof -
  have ok: "waiting_ok s" "server_ok s"
    using waiting_inv.reachable [OF assms(1,2)] server_inv.reachable [OF assms(1,2)] by (simp_all add: invariants_def)
  obtain s' where s': "handle h q (K_write c) s = Done s'"
      "posted s' = posted (post_reply (reply_to h q cmd (K_write c) s) (length_reply (length (pushed cmd (list_at (store s) key))))
        (serve_each key (w # map snd ws) (pushed cmd (list_at (store s) key)) s))"
    using push_served [OF assms(3-7) ok(2) assms(8) refl assms(9-11), of c] by auto
  obtain t' where "um_find (timers s) (bw_timer w) = Some t'" "t_task t' = T_blpop cid (bw_reply w)"
      "t_ready t' \<Longrightarrow> um_find (timers s') (bw_timer w) = Some t'"
    using push_ends [OF ok(1) assms(3-7) ok(2) assms(8,9) s'(1)] by metis
  then have t: "um_find (timers s') (bw_timer w) = Some t" "t_task t = T_blpop cid (bw_reply w)" using assms(12,13) by simp_all
  have direct: "direct (bw_reply w)" using assms(11) by simp
  let ?s = "s'\<lparr>timers := um_erase (bw_timer w) (timers s'), blpop_reg := unregister cid (blpop_reg s')\<rparr>"
  have "posted (post_reply (bw_reply w) null_array ?s) = posted (post_reply (bw_reply w) null_array s')"
    by (rule post_reply_cong [THEN conjunct1]) simp_all
  with fire_expired(1) [OF t(1) assms(13) direct t(2)] s' show ?thesis by blast
qed

theorem blpop_answered_twice_witness:
  "\<exists>s' s''. handle 2 (bulk_request [''RPUSH'', ''k'', ''a'']) (K_write 8) (blocked_example True) = Done s' \<and>
     fire_timer 0 s' = Done s'' \<and> take 3 (posted s'') = [(7, blpop_reply ''k'' ''a''), (8, length_reply 1), (7, null_array)]"
proof -
  have "parse_type ''RPUSH'' = RPush" by code_simp
  then have q: "is_request (bulk_request [''RPUSH'', ''k'', ''a'']) \<lparr>ctype = RPush, cname = ''RPUSH'', cargs = [''k'', ''a'']\<rparr>"
    using is_bulk_request [of "''RPUSH''" "[''k'', ''a'']"] by simp
  from blpop_answered_twice [OF initial_server_init blocked_reachable [of True] q _ _ blocked_fields(2,3) _ blocked_fields(9), where c = 8]
  show ?thesis
    by (fastforce simp: blocked_fields pushed_def list_at_def [of "[]"] serve_each_def reply_to_def post_propagate_def propagate_def)
qed

end
