(* ===== verification/Spec2Isabelle.thy ===== *)
theory Spec2Isabelle
  imports Replica_Acks Replies Waiting
begin

text \<open>
  A verification of the redis-clone server (\<^verbatim>\<open>src/src\<close>).

  \<^bold>\<open>The program.\<close> \<^verbatim>\<open>main\<close> reads environment and arguments and builds a server and a replication manager.
  Network threads accept connections, read requests in the RESP format and post them to one store
  thread. The store thread runs each request with the command handler of its connection: it parses
  the command, queues it inside MULTI or executes it on the store, replies through a callback, and
  sends write commands to the connected replicas. BLPOP and XREAD keep their callback in a registry
  until another client's write serves it or a timer expires; WATCH registers keys whose writes abort a
  transaction. A server started with \<^verbatim>\<open>--replicaof\<close> runs a session with its master, which takes the
  propagated commands off the byte stream and acknowledges offsets.

  \<^bold>\<open>Representation.\<close> Strings are lists of bytes. \<^verbatim>\<open>long long\<close> is an integer with its range written out
  where it matters, \<^verbatim>\<open>size_t\<close> offsets and ports are words. A \<^verbatim>\<open>std::unordered_map\<close> is an association
  list without an assumption on its order of iteration. An exception is the left value of a sum or a
  \<^const>\<open>Throw\<close> of the machine, and one that nobody catches is \<^const>\<open>Crashed\<close>. The clocks are fields of the
  state, the random numbers of the replication ID and the version string of the build are
  parameters. A callback is a value of a data type of closures (\<^typ>\<open>reply_k\<close>) and the call stack is a
  list of frames, so that nested callbacks run as in the code.

  \<^bold>\<open>Theories.\<close>
  \<^item> \<open>Redis_Prelude\<close>: maps, decimal numbers, \<^verbatim>\<open>std::from_chars\<close>, \<^verbatim>\<open>std::stoll\<close> and their round trips.
  \<^item> \<open>Framing\<close>, \<open>Resp\<close>: the interface \<open>framed_codec\<close> of a wire format, and its instance, the parser and
    serializer of \<^verbatim>\<open>resp/RespParser.cpp\<close>. A serialized value is read back whatever follows, a proper
    prefix is incomplete, and later bytes do not change a result.
  \<^item> \<open>Store_Value\<close>, \<open>String_Store\<close>, \<open>List_Store\<close>, \<open>Stream_Id\<close>, \<open>Stream_Store\<close>, \<open>Store\<close>: the classes of
    \<^verbatim>\<open>store/\<close> and \<^verbatim>\<open>util/MemoryEstimator.hpp\<close>. Lists refine queues; IDs of a stream increase; XRANGE and
    XREAD equal filters; expiry is lazy but invisible; every operation keeps the store well formed.
  \<^item> \<open>Registries\<close>, \<open>Replica_Registry\<close>, \<open>Transaction_Manager\<close>: \<^verbatim>\<open>state/WatchManager\<close>,
    \<^verbatim>\<open>state/BlockingManager\<close> (both instances of \<open>key_registry\<close>), \<^verbatim>\<open>replication/ReplicaRegistry\<close> and
    \<^verbatim>\<open>command/execution/TransactionManager\<close>.
  \<^item> \<open>Command\<close>, \<open>Server_State\<close>, \<open>Basic_Commands\<close>, \<open>List_Commands\<close>, \<open>Stream_Commands\<close>, \<open>Control_Commands\<close>:
    command types, the shared state, and one definition per class of \<^verbatim>\<open>command/impl\<close>, with every
    branch and early return.
  \<^item> \<open>Engine\<close>: \<^verbatim>\<open>CommandHandler::handle\<close>, \<^verbatim>\<open>TransactionDispatcher::dispatch\<close>, timers, and the machine \<^const>\<open>run\<close>
    that executes frames. It is a total function: the termination proof gives each pending frame,
    queued command and stored list element a weight, so no fuel is needed.
  \<^item> \<open>Engine_Invariant\<close>, \<open>Systems\<close>, \<open>Server_Events\<close>: the invariant of store, registries and watches; the
    relation \<^const>\<open>effects\<close> of what one step of a command may change; the interfaces
    \<open>inductive_invariant\<close>, \<open>step_refinement\<close> and \<open>refined_invariant\<close>; the events of the store thread as
    the step relation \<^const>\<open>sys_step\<close>.
  \<^item> \<open>Transactions\<close>, \<open>Transaction_Safety\<close>, \<open>Isolation\<close>, \<open>Request_Properties\<close>, \<open>Blocking\<close>: EXEC refines the
    sequential run of its queue, a visible write to a watched key aborts, one connection's requests
    leave the other transactions alone, writes are propagated after their reply, blocked clients are
    served in order, and WAIT replies after a bounded number of polls.
  \<^item> \<open>Waiting\<close>: blocked clients and their timers in every reachable state. The interface \<open>waiters\<close> is the
    agreement of a registry with the timers, with the registries of BLPOP and of XREAD as instances. A
    blocked client has its timer and is answered at the time-out; one that is served before the expiry
    is not answered again; one that is served between the expiry and the timer's handler is answered
    twice.
  \<^item> \<open>Replies\<close>: the messages of RESP as a client reads them. Every reply of a step is one message, except
    for the cases that are proved to differ: the type error of GET and LPOP, which lacks its line end,
    and the error that repeats an unknown name with a line end in it. PSYNC, whose reply carries a
    snapshot, is not covered.
  \<^item> \<open>Connection\<close>, \<open>Replication_Session\<close>, \<open>Startup\<close>: the read handler of \<^verbatim>\<open>net/Connection.cpp\<close>, the session
    of \<^verbatim>\<open>replication/ReplicationSession.cpp\<close> as a machine over the bytes that arrive (cut in any way),
    and the options of \<^verbatim>\<open>main.cpp\<close> with \<^verbatim>\<open>ReplicationManager::start\<close>.
  \<^item> \<open>Server_System\<close>: the whole process. \<^const>\<open>boot\<close> is \<^verbatim>\<open>main\<close> up to its threads, \<^const>\<open>net_step\<close> interleaves
    accepted connections (\<^verbatim>\<open>net/Server.cpp\<close>), completed reads, tasks of the store thread, timers, errors
    of sockets, the connection to a master and the session's reads. It refines \<^const>\<open>sys_step\<close>, so that
    the invariants of the server hold under every interleaving, together with the agreement of
    connections and replica registry and the order of the session's tasks.
  \<^item> \<open>Replication\<close>, \<open>Convergence\<close>, \<open>Replication_System\<close>: master and replica together. The handshake runs to
    its end, offsets agree, acknowledgements come back, and equal data stays equal for write
    commands that do not read a clock; a write posted before PSYNC is handled breaks the handshake.
  \<^item> \<open>Replica_Pair\<close>, \<open>Replica_Acks\<close>: two processes of \<open>Server_System\<close> joined by a connection after the
    handshake (\<^const>\<open>pair_step\<close>), whose steps are steps of the two processes. The replica's data is always
    one that the master had, as many writes ago as are still to be delivered or run; it can
    catch up whenever no request of its own clients waits; and an offset that the master has recorded for WAIT is one that the replica has reached.
    The steps cover write commands that read no clock, queries and WAIT on the master, and queries and
    WAIT of the replica's own clients. Transactions, commands that block, writes that read a clock and
    writes of the replica's own clients are outside of them.

  \<^bold>\<open>Idealisations.\<close> A completion handler of the network threads and a task of the store thread are
  atomic: of what they share, the code guards the replica registry by a mutex and counts the clients
  atomically. Posted writes reach a socket in order; that a socket has failed is an event. Numbers of
  connections, handlers, timers and registrations are natural numbers. A double is the exact rational
  of its text, an infinity or not a number, without rounding. Signed overflow is a value of its own
  (\<open>Signed_overflow\<close>) where a request can reach it.

  \<^bold>\<open>Not modelled.\<close> The functions of asio (sockets, resolver, timers' clock, executors), of which only
  the completion events are steps. \<^verbatim>\<open>util/Logger.hpp\<close> and the messages of \<^verbatim>\<open>main\<close> after the start, which
  only write to the console. \<^verbatim>\<open>state/ConnectionRole.hpp\<close>, an enumeration that no code uses. The end of
  \<^verbatim>\<open>main\<close> after its network threads return. Lifetimes of C++ objects, in particular the reply buffer
  that \<^verbatim>\<open>Connection.cpp\<close> passes to \<^verbatim>\<open>async_write\<close>. Class declarations in headers have no behaviour of
  their own; the definitions follow the function bodies.
\<close>

end
